(* ===== verification/Prelude.thy ===== *)
theory Prelude
  imports Main "HOL-Library.Word"
begin

text \<open>
  What every component of the development shares: the faults a C++ statement can end in,
  the result type and its sequencing, loops over a vector, fixed-width signed integers and
  the division of C++.
\<close>

section \<open>Faults and results\<close>

text \<open>
  The program has no exceptions of its own. A statement either completes or is one of the
  following, each of which ends the process (or is undefined) in C++:
  a dereference of a null pointer, an access at a past-the-end iterator, an unchecked index
  outside a vector, and an integer division that traps.
\<close>

datatype fault = NullDeref | EndDeref | OutOfRange | Sigfpe

type_synonym 'a res = "fault + 'a"

definition bindR :: "'a res \<Rightarrow> ('a \<Rightarrow> 'b res) \<Rightarrow> 'b res" where
  "bindR r f = (case r of Inl e \<Rightarrow> Inl e | Inr x \<Rightarrow> f x)"

named_theorems resI \<open>facts that an operation completes, or keeps an invariant\<close>

lemma bindR_simps [simp]:
  "bindR (Inl e) f = Inl e"
  "bindR (Inr x) f = f x"
  by (simp_all add: bindR_def)

lemma bindR_cong [fundef_cong]:
  "r = r' \<Longrightarrow> (\<And>x. r' = Inr x \<Longrightarrow> f x = g x) \<Longrightarrow> bindR r f = bindR r' g"
  by (auto simp: bindR_def split: sum.splits)

lemma bindR_eq_Inr: "bindR r f = Inr y \<longleftrightarrow> (\<exists>x. r = Inr x \<and> f x = Inr y)"
  by (auto simp: bindR_def split: sum.splits)

lemma bindR_eq_Inl: "bindR r f = Inl e \<longleftrightarrow> r = Inl e \<or> (\<exists>x. r = Inr x \<and> f x = Inl e)"
  by (auto simp: bindR_def split: sum.splits)

lemma bindR_assoc: "bindR (bindR r f) g = bindR r (\<lambda>x. bindR (f x) g)"
  by (simp add: bindR_def split: sum.splits)

text \<open>
  \<open>post r Q\<close>: the operation completes and its result satisfies \<open>Q\<close>.
  \<open>wpost E r Q\<close>: it may also end in one of the faults \<open>E\<close>.
\<close>

definition post :: "'a res \<Rightarrow> ('a \<Rightarrow> bool) \<Rightarrow> bool" where
  "post r Q \<longleftrightarrow> (case r of Inl e \<Rightarrow> False | Inr x \<Rightarrow> Q x)"

definition wpost :: "fault set \<Rightarrow> 'a res \<Rightarrow> ('a \<Rightarrow> bool) \<Rightarrow> bool" where
  "wpost E r Q \<longleftrightarrow> (case r of Inl e \<Rightarrow> e \<in> E | Inr x \<Rightarrow> Q x)"

lemma post_simps [simp]:
  "post (Inr x) Q = Q x"
  "\<not> post (Inl e) Q"
  by (simp_all add: post_def)

lemma wpost_simps [simp]:
  "wpost E (Inr x) Q = Q x"
  "wpost E (Inl e) Q = (e \<in> E)"
  by (simp_all add: wpost_def)

lemma postE: "post r Q \<Longrightarrow> (\<And>x. r = Inr x \<Longrightarrow> Q x \<Longrightarrow> P) \<Longrightarrow> P"
  by (cases r) auto

lemma post_ex: "post r Q \<longleftrightarrow> (\<exists>x. r = Inr x \<and> Q x)"
  by (cases r) auto

lemma post_bindR: "post r Q \<Longrightarrow> (\<And>x. r = Inr x \<Longrightarrow> Q x \<Longrightarrow> post (f x) R) \<Longrightarrow> post (bindR r f) R"
  by (cases r) auto

lemma wpost_bindR:
  "wpost E r Q \<Longrightarrow> (\<And>x. r = Inr x \<Longrightarrow> Q x \<Longrightarrow> wpost E (f x) R) \<Longrightarrow> wpost E (bindR r f) R"
  by (cases r) auto

lemma post_mono: "post r Q \<Longrightarrow> (\<And>x. Q x \<Longrightarrow> R x) \<Longrightarrow> post r R"
  by (cases r) auto

lemma wpost_mono: "wpost E r Q \<Longrightarrow> (\<And>x. Q x \<Longrightarrow> R x) \<Longrightarrow> wpost E r R"
  by (cases r) auto

lemma wpost_of_post: "post r Q \<Longrightarrow> wpost E r Q"
  by (cases r) auto

text \<open>A pointer is an optional referent; a \<open>std::vector\<close> read is by index.\<close>

definition deref :: "'a option \<Rightarrow> 'a res" where
  "deref p = (case p of None \<Rightarrow> Inl NullDeref | Some x \<Rightarrow> Inr x)"

definition deref_itr :: "'a option \<Rightarrow> 'a res" where
  "deref_itr p = (case p of None \<Rightarrow> Inl EndDeref | Some x \<Rightarrow> Inr x)"

definition vec_get :: "'a list \<Rightarrow> nat \<Rightarrow> 'a res" where
  "vec_get v i = (if i < length v then Inr (v ! i) else Inl OutOfRange)"

lemma deref_simps [simp]:
  "deref (Some x) = Inr x" "deref None = Inl NullDeref"
  "deref_itr (Some x) = Inr x" "deref_itr None = Inl EndDeref"
  by (simp_all add: deref_def deref_itr_def)

lemma vec_get_in: "i < length v \<Longrightarrow> vec_get v i = Inr (v ! i)"
  by (simp add: vec_get_def)

section \<open>Loops over a vector\<close>

text \<open>A loop that visits every element in order and carries its local variables along.\<close>

fun foldR :: "('a \<Rightarrow> 's \<Rightarrow> 's res) \<Rightarrow> 'a list \<Rightarrow> 's \<Rightarrow> 's res" where
  "foldR f [] s = Inr s"
| "foldR f (x # xs) s = bindR (f x s) (foldR f xs)"

lemma foldR_append: "foldR f (xs @ ys) s = bindR (foldR f xs s) (foldR f ys)"
  by (induction xs arbitrary: s) (simp_all add: bindR_assoc cong: bindR_cong)

lemma foldR_post:
  assumes "I s" and "\<And>x s. x \<in> set xs \<Longrightarrow> I s \<Longrightarrow> post (f x s) I"
  shows "post (foldR f xs s) I"
  using assms
proof (induction xs arbitrary: s)
  case (Cons x xs)
  from Cons.prems have "post (f x s) I" by simp
  then show ?case
    by (auto intro!: post_bindR Cons.IH Cons.prems(2))
qed simp

lemma foldR_wpost:
  assumes "I s" and "\<And>x s. x \<in> set xs \<Longrightarrow> I s \<Longrightarrow> wpost E (f x s) I"
  shows "wpost E (foldR f xs s) I"
  using assms
proof (induction xs arbitrary: s)
  case (Cons x xs)
  from Cons.prems have "wpost E (f x s) I" by simp
  then show ?case
    by (auto intro!: wpost_bindR Cons.IH Cons.prems(2))
qed simp

text \<open>A loop whose body cannot fault on these elements is a fold.\<close>

lemma foldR_pure:
  "(\<And>x s. x \<in> set xs \<Longrightarrow> f x s = Inr (g x s)) \<Longrightarrow> foldR f xs s = Inr (fold g xs s)"
  by (induction xs arbitrary: s) simp_all

section \<open>Signed integers of a fixed width\<close>

text \<open>
  A \<open>short\<close>, \<open>int\<close> or \<open>int64_t\<close> is an \<open>int\<close> kept in range by \<open>wrap\<close>, the two's
  complement reduction to \<open>n\<close> bits. Narrowing conversions reduce this way; overflow of signed
  arithmetic, which the standard leaves undefined, is modelled as what the compiled code does
  without optimisation on it, namely the same reduction.
\<close>

definition wrap :: "nat \<Rightarrow> int \<Rightarrow> int" where
  "wrap n x = (x + 2 ^ (n - 1)) mod 2 ^ n - 2 ^ (n - 1)"

definition in_range :: "nat \<Rightarrow> int \<Rightarrow> bool" where
  "in_range n x \<longleftrightarrow> - (2 ^ (n - 1)) \<le> x \<and> x < 2 ^ (n - 1)"

abbreviation wrap16 :: "int \<Rightarrow> int" where "wrap16 \<equiv> wrap 16"
abbreviation wrap32 :: "int \<Rightarrow> int" where "wrap32 \<equiv> wrap 32"
abbreviation wrap64 :: "int \<Rightarrow> int" where "wrap64 \<equiv> wrap 64"

lemma two_pow_pred: "0 < n \<Longrightarrow> (2::int) ^ n = 2 * 2 ^ (n - 1)"
  by (cases n) simp_all

lemma wrap_id: "0 < n \<Longrightarrow> in_range n x \<Longrightarrow> wrap n x = x"
  by (simp add: wrap_def in_range_def two_pow_pred)

lemma wrap_in_range: "0 < n \<Longrightarrow> in_range n (wrap n x)"
  by (simp add: wrap_def in_range_def) (simp add: two_pow_pred [of n] algebra_simps)

lemma wrap_mod: "0 < n \<Longrightarrow> wrap n (x mod 2 ^ n) = wrap n x"
  by (simp add: wrap_def mod_add_left_eq)

lemma wrap_add_left: "wrap n (wrap n x + y) = wrap n (x + y)"
proof -
  have "(wrap n x + y + 2 ^ (n - 1)) mod 2 ^ n = ((x + 2 ^ (n - 1)) mod 2 ^ n + y) mod 2 ^ n"
    by (simp add: wrap_def algebra_simps)
  also have "\<dots> = (x + 2 ^ (n - 1) + y) mod 2 ^ n"
    by (rule mod_add_left_eq)
  finally show ?thesis by (simp add: wrap_def algebra_simps)
qed

lemma wrap32_small: "- 2147483648 \<le> x \<Longrightarrow> x < 2147483648 \<Longrightarrow> wrap32 x = x"
  by (rule wrap_id) (simp_all add: in_range_def)

lemma wrap64_small:
  "- 9223372036854775808 \<le> x \<Longrightarrow> x < 9223372036854775808 \<Longrightarrow> wrap64 x = x"
  by (rule wrap_id) (simp_all add: in_range_def)

lemma in_range_mult: "in_range 32 a \<Longrightarrow> in_range 32 b \<Longrightarrow> in_range 64 (a * b)"
proof -
  assume "in_range 32 a" "in_range 32 b"
  then have "\<bar>a\<bar> \<le> 2147483648" "\<bar>b\<bar> \<le> 2147483648" by (auto simp: in_range_def)
  then have "\<bar>a\<bar> * \<bar>b\<bar> \<le> 2147483648 * 2147483648" by (intro mult_mono) simp_all
  then have "\<bar>a * b\<bar> \<le> 4611686018427387904" by (simp add: abs_mult)
  then show ?thesis by (simp add: in_range_def abs_le_iff)
qed

section \<open>Division\<close>

text \<open>C++ division truncates towards zero; the hardware traps on a zero divisor and on the
  one quotient that does not fit.\<close>

definition cquot :: "int \<Rightarrow> int \<Rightarrow> int" where
  "cquot a b = sgn a * sgn b * (\<bar>a\<bar> div \<bar>b\<bar>)"

definition cdiv :: "nat \<Rightarrow> int \<Rightarrow> int \<Rightarrow> int res" where
  "cdiv n a b = (if b = 0 \<or> (a = - (2 ^ (n - 1)) \<and> b = - 1) then Inl Sigfpe else Inr (cquot a b))"

lemma cquot_nonneg: "0 \<le> a \<Longrightarrow> 0 < b \<Longrightarrow> cquot a b = a div b"
  by (cases "a = 0") (simp_all add: cquot_def)

lemma cquot_mult: "b \<noteq> 0 \<Longrightarrow> cquot (b * a) b = a"
proof -
  assume b: "b \<noteq> 0"
  then have "\<bar>b * a\<bar> div \<bar>b\<bar> = \<bar>a\<bar>" by (simp add: abs_mult)
  moreover have "sgn b * sgn b = 1"
    using b by (cases "0 < b") simp_all
  then have "sgn (b * a) * sgn b = sgn a"
    by (simp only: sgn_mult mult.commute mult.left_commute mult_1_right)
  ultimately show ?thesis by (simp add: cquot_def sgn_mult_abs)
qed

lemma cdiv_wpost [resI]: "wpost {Sigfpe} (cdiv n a b) (\<lambda>_. True)"
  by (simp add: cdiv_def)

lemma cdiv_pos: "0 < b \<Longrightarrow> cdiv n a b = Inr (cquot a b)"
  by (simp add: cdiv_def)

lemma cdiv_mult:
  assumes "b \<noteq> 0" and "in_range 32 a"
  shows "cdiv 64 (a * b) b = Inr a"
proof -
  have "\<not> (a * b = - (2 ^ (64 - 1)) \<and> b = - 1)" using assms(2) by (auto simp: in_range_def)
  with assms(1) show ?thesis by (simp add: cdiv_def cquot_mult mult.commute [of a b])
qed

section \<open>Lists\<close>

lemma last_dropWhile: "dropWhile P xs \<noteq> [] \<Longrightarrow> last (dropWhile P xs) = last xs"
  by (metis append_is_Nil_conv last_appendR takeWhile_dropWhile_id)

lemma dropWhile_snoc_last: "dropWhile P (xs @ [x]) \<noteq> [] \<Longrightarrow> x \<in> set (dropWhile P (xs @ [x]))"
  by (metis last_dropWhile last_in_set last_snoc)

end
