(* ===== verification/Wire.thy ===== *)
theory Wire
  imports Prelude
begin

text \<open>
  The exchange's multicast and recovery protocol, \<^verbatim>\<open>src/nsetbt_mcast_msg.h\<close>: message type
  codes, the packed structs as records with their byte layout (little endian, no padding because
  of \<^verbatim>\<open>#pragma pack(1)\<close>), the union \<open>BcastMsg\<close> as the bytes its members overlay, and the
  conversion of an order id from \<open>double\<close> to \<open>int64_t\<close> that the trade logic relies on.
\<close>

section \<open>Message types\<close>

type_synonym byte = "8 word"

definition BEGIN_OF_MASTER :: byte where "BEGIN_OF_MASTER = of_char CHR ''B''"
definition CONTRACT_INFORMATION :: byte where "CONTRACT_INFORMATION = of_char CHR ''C''"
definition SPREAD_INFORMATION :: byte where "SPREAD_INFORMATION = of_char CHR ''P''"
definition END_OF_MASTER :: byte where "END_OF_MASTER = of_char CHR ''E''"
definition NEW_ORDER :: byte where "NEW_ORDER = of_char CHR ''N''"
definition ORDER_MODIFICATION :: byte where "ORDER_MODIFICATION = of_char CHR ''M''"
definition ORDER_CANCELLATION :: byte where "ORDER_CANCELLATION = of_char CHR ''X''"
definition TRADE_MESSAGE :: byte where "TRADE_MESSAGE = of_char CHR ''T''"
definition SPREAD_NEW_ORDER :: byte where "SPREAD_NEW_ORDER = of_char CHR ''G''"
definition SPREAD_ORDER_MODIFICATION :: byte where "SPREAD_ORDER_MODIFICATION = of_char CHR ''H''"
definition SPREAD_ORDER_CANCELLATION :: byte where "SPREAD_ORDER_CANCELLATION = of_char CHR ''J''"
definition SPREAD_TRADE_MESSAGE :: byte where "SPREAD_TRADE_MESSAGE = of_char CHR ''K''"
definition RECOVERY_REQUEST :: byte where "RECOVERY_REQUEST = of_char CHR ''R''"
definition RECOVERY_RESPONSE :: byte where "RECOVERY_RESPONSE = of_char CHR ''Y''"
definition HEART_BEAT_MESSAGE :: byte where "HEART_BEAT_MESSAGE = of_char CHR ''Z''"
definition REQUEST_SUCCESS :: byte where "REQUEST_SUCCESS = of_char CHR ''S''"
definition REQUEST_ERROR :: byte where "REQUEST_ERROR = of_char CHR ''E''"
definition BUY_INDICATOR_CHAR :: byte where "BUY_INDICATOR_CHAR = of_char CHR ''B''"
definition SELL_INDICATOR_CHAR :: byte where "SELL_INDICATOR_CHAR = of_char CHR ''S''"

lemma msg_codes [simp]:
  "BEGIN_OF_MASTER = 66" "CONTRACT_INFORMATION = 67" "SPREAD_INFORMATION = 80" "END_OF_MASTER = 69"
  "NEW_ORDER = 78" "ORDER_MODIFICATION = 77" "ORDER_CANCELLATION = 88" "TRADE_MESSAGE = 84"
  "SPREAD_NEW_ORDER = 71" "SPREAD_ORDER_MODIFICATION = 72" "SPREAD_ORDER_CANCELLATION = 74"
  "SPREAD_TRADE_MESSAGE = 75" "RECOVERY_REQUEST = 82" "RECOVERY_RESPONSE = 89"
  "HEART_BEAT_MESSAGE = 90" "REQUEST_SUCCESS = 83" "REQUEST_ERROR = 69"
  "BUY_INDICATOR_CHAR = 66" "SELL_INDICATOR_CHAR = 83"
  by (simp_all add: BEGIN_OF_MASTER_def CONTRACT_INFORMATION_def SPREAD_INFORMATION_def
    END_OF_MASTER_def NEW_ORDER_def ORDER_MODIFICATION_def ORDER_CANCELLATION_def
    TRADE_MESSAGE_def SPREAD_NEW_ORDER_def SPREAD_ORDER_MODIFICATION_def
    SPREAD_ORDER_CANCELLATION_def SPREAD_TRADE_MESSAGE_def RECOVERY_REQUEST_def
    RECOVERY_RESPONSE_def HEART_BEAT_MESSAGE_def REQUEST_SUCCESS_def REQUEST_ERROR_def
    BUY_INDICATOR_CHAR_def SELL_INDICATOR_CHAR_def)

section \<open>Integers in memory\<close>

fun le_int :: "byte list \<Rightarrow> int" where
  "le_int [] = 0"
| "le_int (b # bs) = uint b + 256 * le_int bs"

fun le_bytes :: "nat \<Rightarrow> int \<Rightarrow> byte list" where
  "le_bytes 0 x = []"
| "le_bytes (Suc n) x = word_of_int x # le_bytes n (x div 256)"

lemma length_le_bytes [simp]: "length (le_bytes n x) = n"
  by (induction n arbitrary: x) simp_all

lemma le_int_le_bytes: "le_int (le_bytes n x) = x mod 2 ^ (8 * n)"
proof (induction n arbitrary: x)
  case (Suc n)
  have "(2::int) ^ (8 * Suc n) = 256 * 2 ^ (8 * n)" by (simp add: power_add)
  then have "x mod 2 ^ (8 * Suc n) = 256 * (x div 256 mod 2 ^ (8 * n)) + x mod 256"
    by (simp only: zmod_zmult2_eq [of "2 ^ (8 * n)" x 256] zero_le_power)
  with Suc show ?case by (simp add: uint_word_of_int)
qed simp

definition field_at :: "nat \<Rightarrow> nat \<Rightarrow> byte list \<Rightarrow> byte list" where
  "field_at off n bs = take n (drop off bs)"

definition u8 :: "nat \<Rightarrow> byte list \<Rightarrow> byte" where
  "u8 off bs = hd (field_at off 1 bs)"

definition i16 :: "nat \<Rightarrow> byte list \<Rightarrow> int" where
  "i16 off bs = wrap16 (le_int (field_at off 2 bs))"

definition i32 :: "nat \<Rightarrow> byte list \<Rightarrow> int" where
  "i32 off bs = wrap32 (le_int (field_at off 4 bs))"

definition i64 :: "nat \<Rightarrow> byte list \<Rightarrow> int" where
  "i64 off bs = wrap64 (le_int (field_at off 8 bs))"

definition f64 :: "nat \<Rightarrow> byte list \<Rightarrow> 64 word" where
  "f64 off bs = word_of_int (le_int (field_at off 8 bs))"

text \<open>Reading a field that the encoder has just written.\<close>

lemma field_at_skip: "length xs \<le> off \<Longrightarrow> field_at off n (xs @ ys) = field_at (off - length xs) n ys"
  by (simp add: field_at_def)

lemma field_at_Cons: "0 < off \<Longrightarrow> field_at off n (x # ys) = field_at (off - 1) n ys"
  by (cases off) (simp_all add: field_at_def)

lemma field_at_hit: "length xs = n \<Longrightarrow> field_at 0 n (xs @ ys) = xs"
  "length xs = n \<Longrightarrow> field_at 0 n xs = xs"
  "field_at 0 (Suc 0) (x # ys) = [x]"
  by (simp_all add: field_at_def)

lemmas field_at_simps = field_at_skip field_at_Cons field_at_hit

lemma wrap_le_bytes: "wrap16 (le_int (le_bytes 2 x)) = wrap16 x"
  "wrap32 (le_int (le_bytes 4 x)) = wrap32 x"
  "wrap64 (le_int (le_bytes 8 x)) = wrap64 x"
  using wrap_mod [of 16 x] wrap_mod [of 32 x] wrap_mod [of 64 x]
  by (simp_all add: le_int_le_bytes)

lemma f64_le_bytes: "word_of_int (le_int (le_bytes 8 (uint w))) = (w :: 64 word)"
proof -
  have "uint w mod 2 ^ 64 = uint w"
    using uint_lt2p [of w] by simp
  then show ?thesis by (simp add: le_int_le_bytes)
qed

section \<open>The packed structs\<close>

text \<open>
  Each struct is a record with the fields of the source; \<open>X_of bs\<close> is the value of
  \<open>*(X*)p\<close> where \<open>bs\<close> are the bytes from \<open>p\<close> on, \<open>X_bytes\<close> the object
  representation, \<open>sizeof_X\<close> its size, and \<open>X_ok\<close> says that the integer fields are in
  the range of their type and the character arrays have their length.
\<close>

record STREAM_HEADER =
  wMsgLen :: int
  wStremID :: int
  nSeqNo :: int

definition sizeof_STREAM_HEADER :: nat where "sizeof_STREAM_HEADER = 8"

definition STREAM_HEADER_of :: "byte list \<Rightarrow> STREAM_HEADER" where
  "STREAM_HEADER_of bs = \<lparr>STREAM_HEADER.wMsgLen = i16 0 bs, STREAM_HEADER.wStremID = i16 2 bs,
    STREAM_HEADER.nSeqNo = i32 4 bs\<rparr>"

definition STREAM_HEADER_bytes :: "STREAM_HEADER \<Rightarrow> byte list" where
  "STREAM_HEADER_bytes x =
    le_bytes 2 (STREAM_HEADER.wMsgLen x) @ le_bytes 2 (STREAM_HEADER.wStremID x) @
    le_bytes 4 (STREAM_HEADER.nSeqNo x)"

definition STREAM_HEADER_ok :: "STREAM_HEADER \<Rightarrow> bool" where
  "STREAM_HEADER_ok x \<longleftrightarrow>
    in_range 16 (STREAM_HEADER.wMsgLen x) \<and>
    in_range 16 (STREAM_HEADER.wStremID x) \<and> in_range 32 (STREAM_HEADER.nSeqNo x)"

record MSG_HEADER =
  wMsgLen :: int
  wStremID :: int
  nSeqNo :: int
  cMsgType :: byte

definition sizeof_MSG_HEADER :: nat where "sizeof_MSG_HEADER = 9"

definition MSG_HEADER_of :: "byte list \<Rightarrow> MSG_HEADER" where
  "MSG_HEADER_of bs = \<lparr>MSG_HEADER.wMsgLen = i16 0 bs, MSG_HEADER.wStremID = i16 2 bs,
    MSG_HEADER.nSeqNo = i32 4 bs, MSG_HEADER.cMsgType = u8 8 bs\<rparr>"

definition MSG_HEADER_bytes :: "MSG_HEADER \<Rightarrow> byte list" where
  "MSG_HEADER_bytes x =
    le_bytes 2 (MSG_HEADER.wMsgLen x) @ le_bytes 2 (MSG_HEADER.wStremID x) @
    le_bytes 4 (MSG_HEADER.nSeqNo x) @ [MSG_HEADER.cMsgType x]"

definition MSG_HEADER_ok :: "MSG_HEADER \<Rightarrow> bool" where
  "MSG_HEADER_ok x \<longleftrightarrow>
    in_range 16 (MSG_HEADER.wMsgLen x) \<and> in_range 16 (MSG_HEADER.wStremID x) \<and>
    in_range 32 (MSG_HEADER.nSeqNo x)"

record MST_DATA_HEADER =
  header :: STREAM_HEADER
  cMsgType :: byte
  nTokenCount :: int

definition sizeof_MST_DATA_HEADER :: nat where "sizeof_MST_DATA_HEADER = 13"

definition MST_DATA_HEADER_of :: "byte list \<Rightarrow> MST_DATA_HEADER" where
  "MST_DATA_HEADER_of bs = \<lparr>MST_DATA_HEADER.header = STREAM_HEADER_of bs, MST_DATA_HEADER.cMsgType = u8 8 bs,
    MST_DATA_HEADER.nTokenCount = i32 9 bs\<rparr>"

definition MST_DATA_HEADER_bytes :: "MST_DATA_HEADER \<Rightarrow> byte list" where
  "MST_DATA_HEADER_bytes x =
    STREAM_HEADER_bytes (MST_DATA_HEADER.header x) @ [MST_DATA_HEADER.cMsgType x] @
    le_bytes 4 (MST_DATA_HEADER.nTokenCount x)"

definition MST_DATA_HEADER_ok :: "MST_DATA_HEADER \<Rightarrow> bool" where
  "MST_DATA_HEADER_ok x \<longleftrightarrow>
    STREAM_HEADER_ok (MST_DATA_HEADER.header x) \<and>
    in_range 32 (MST_DATA_HEADER.nTokenCount x)"

record CONTRACT_INFO =
  header :: STREAM_HEADER
  cMsgType :: byte
  wStreamID :: int
  nToken :: int
  strInstType :: "byte list"
  strSymbol :: "byte list"
  nExpiry :: int
  nStrikePrice :: int
  strOptType :: "byte list"

definition sizeof_CONTRACT_INFO :: nat where "sizeof_CONTRACT_INFO = 41"

definition CONTRACT_INFO_of :: "byte list \<Rightarrow> CONTRACT_INFO" where
  "CONTRACT_INFO_of bs = \<lparr>CONTRACT_INFO.header = STREAM_HEADER_of bs, CONTRACT_INFO.cMsgType = u8 8 bs,
    CONTRACT_INFO.wStreamID = i16 9 bs, CONTRACT_INFO.nToken = i32 11 bs,
    CONTRACT_INFO.strInstType = field_at 15 6 bs,
    CONTRACT_INFO.strSymbol = field_at 21 10 bs, CONTRACT_INFO.nExpiry = i32 31 bs,
    CONTRACT_INFO.nStrikePrice = i32 35 bs, CONTRACT_INFO.strOptType = field_at 39 2 bs\<rparr>"

definition CONTRACT_INFO_bytes :: "CONTRACT_INFO \<Rightarrow> byte list" where
  "CONTRACT_INFO_bytes x =
    STREAM_HEADER_bytes (CONTRACT_INFO.header x) @ [CONTRACT_INFO.cMsgType x] @
    le_bytes 2 (CONTRACT_INFO.wStreamID x) @ le_bytes 4 (CONTRACT_INFO.nToken x) @
    CONTRACT_INFO.strInstType x @ CONTRACT_INFO.strSymbol x @
    le_bytes 4 (CONTRACT_INFO.nExpiry x) @ le_bytes 4 (CONTRACT_INFO.nStrikePrice x) @
    CONTRACT_INFO.strOptType x"

definition CONTRACT_INFO_ok :: "CONTRACT_INFO \<Rightarrow> bool" where
  "CONTRACT_INFO_ok x \<longleftrightarrow>
    STREAM_HEADER_ok (CONTRACT_INFO.header x) \<and>
    in_range 16 (CONTRACT_INFO.wStreamID x) \<and>
    in_range 32 (CONTRACT_INFO.nToken x) \<and>
    length (CONTRACT_INFO.strInstType x) = 6 \<and>
    length (CONTRACT_INFO.strSymbol x) = 10 \<and>
    in_range 32 (CONTRACT_INFO.nExpiry x) \<and>
    in_range 32 (CONTRACT_INFO.nStrikePrice x) \<and>
    length (CONTRACT_INFO.strOptType x) = 2"

record SPRD_CONTRACT_INFO =
  header :: STREAM_HEADER
  cMsgType :: byte
  wStreamID :: int
  nToken1 :: int
  nToken2 :: int

definition sizeof_SPRD_CONTRACT_INFO :: nat where "sizeof_SPRD_CONTRACT_INFO = 19"

definition SPRD_CONTRACT_INFO_of :: "byte list \<Rightarrow> SPRD_CONTRACT_INFO" where
  "SPRD_CONTRACT_INFO_of bs = \<lparr>SPRD_CONTRACT_INFO.header = STREAM_HEADER_of bs,
    SPRD_CONTRACT_INFO.cMsgType = u8 8 bs, SPRD_CONTRACT_INFO.wStreamID = i16 9 bs,
    SPRD_CONTRACT_INFO.nToken1 = i32 11 bs, SPRD_CONTRACT_INFO.nToken2 = i32 15 bs\<rparr>"

definition SPRD_CONTRACT_INFO_bytes :: "SPRD_CONTRACT_INFO \<Rightarrow> byte list" where
  "SPRD_CONTRACT_INFO_bytes x =
    STREAM_HEADER_bytes (SPRD_CONTRACT_INFO.header x) @
    [SPRD_CONTRACT_INFO.cMsgType x] @ le_bytes 2 (SPRD_CONTRACT_INFO.wStreamID x) @
    le_bytes 4 (SPRD_CONTRACT_INFO.nToken1 x) @ le_bytes 4 (SPRD_CONTRACT_INFO.nToken2 x)"

definition SPRD_CONTRACT_INFO_ok :: "SPRD_CONTRACT_INFO \<Rightarrow> bool" where
  "SPRD_CONTRACT_INFO_ok x \<longleftrightarrow>
    STREAM_HEADER_ok (SPRD_CONTRACT_INFO.header x) \<and>
    in_range 16 (SPRD_CONTRACT_INFO.wStreamID x) \<and>
    in_range 32 (SPRD_CONTRACT_INFO.nToken1 x) \<and>
    in_range 32 (SPRD_CONTRACT_INFO.nToken2 x)"

record MST_DATA_TRAILER =
  header :: STREAM_HEADER
  cMsgType :: byte
  nTokenCount :: int

definition sizeof_MST_DATA_TRAILER :: nat where "sizeof_MST_DATA_TRAILER = 13"

definition MST_DATA_TRAILER_of :: "byte list \<Rightarrow> MST_DATA_TRAILER" where
  "MST_DATA_TRAILER_of bs = \<lparr>MST_DATA_TRAILER.header = STREAM_HEADER_of bs, MST_DATA_TRAILER.cMsgType = u8 8 bs,
    MST_DATA_TRAILER.nTokenCount = i32 9 bs\<rparr>"

definition MST_DATA_TRAILER_bytes :: "MST_DATA_TRAILER \<Rightarrow> byte list" where
  "MST_DATA_TRAILER_bytes x =
    STREAM_HEADER_bytes (MST_DATA_TRAILER.header x) @ [MST_DATA_TRAILER.cMsgType x] @
    le_bytes 4 (MST_DATA_TRAILER.nTokenCount x)"

definition MST_DATA_TRAILER_ok :: "MST_DATA_TRAILER \<Rightarrow> bool" where
  "MST_DATA_TRAILER_ok x \<longleftrightarrow>
    STREAM_HEADER_ok (MST_DATA_TRAILER.header x) \<and>
    in_range 32 (MST_DATA_TRAILER.nTokenCount x)"

record GENERIC_ORD_MSG =
  header :: STREAM_HEADER
  cMsgType :: byte
  lTimeStamp :: int
  dblOrdID :: "64 word"
  nToken :: int
  cOrdType :: byte
  nPrice :: int
  nQty :: int

definition sizeof_GENERIC_ORD_MSG :: nat where "sizeof_GENERIC_ORD_MSG = 38"

definition GENERIC_ORD_MSG_of :: "byte list \<Rightarrow> GENERIC_ORD_MSG" where
  "GENERIC_ORD_MSG_of bs = \<lparr>GENERIC_ORD_MSG.header = STREAM_HEADER_of bs, GENERIC_ORD_MSG.cMsgType = u8 8 bs,
    GENERIC_ORD_MSG.lTimeStamp = i64 9 bs, GENERIC_ORD_MSG.dblOrdID = f64 17 bs,
    GENERIC_ORD_MSG.nToken = i32 25 bs, GENERIC_ORD_MSG.cOrdType = u8 29 bs,
    GENERIC_ORD_MSG.nPrice = i32 30 bs, GENERIC_ORD_MSG.nQty = i32 34 bs\<rparr>"

definition GENERIC_ORD_MSG_bytes :: "GENERIC_ORD_MSG \<Rightarrow> byte list" where
  "GENERIC_ORD_MSG_bytes x =
    STREAM_HEADER_bytes (GENERIC_ORD_MSG.header x) @ [GENERIC_ORD_MSG.cMsgType x] @
    le_bytes 8 (GENERIC_ORD_MSG.lTimeStamp x) @
    le_bytes 8 (uint (GENERIC_ORD_MSG.dblOrdID x)) @
    le_bytes 4 (GENERIC_ORD_MSG.nToken x) @ [GENERIC_ORD_MSG.cOrdType x] @
    le_bytes 4 (GENERIC_ORD_MSG.nPrice x) @ le_bytes 4 (GENERIC_ORD_MSG.nQty x)"

definition GENERIC_ORD_MSG_ok :: "GENERIC_ORD_MSG \<Rightarrow> bool" where
  "GENERIC_ORD_MSG_ok x \<longleftrightarrow>
    STREAM_HEADER_ok (GENERIC_ORD_MSG.header x) \<and>
    in_range 64 (GENERIC_ORD_MSG.lTimeStamp x) \<and>
    in_range 32 (GENERIC_ORD_MSG.nToken x) \<and>
    in_range 32 (GENERIC_ORD_MSG.nPrice x) \<and> in_range 32 (GENERIC_ORD_MSG.nQty x)"

record TRD_MSG =
  header :: STREAM_HEADER
  cMsgType :: byte
  lTimestamp :: int
  dblBuyOrdID :: "64 word"
  dblSellOrdID :: "64 word"
  nToken :: int
  nTradePrice :: int
  nTradeQty :: int

definition sizeof_TRD_MSG :: nat where "sizeof_TRD_MSG = 45"

definition TRD_MSG_of :: "byte list \<Rightarrow> TRD_MSG" where
  "TRD_MSG_of bs = \<lparr>TRD_MSG.header = STREAM_HEADER_of bs, TRD_MSG.cMsgType = u8 8 bs,
    TRD_MSG.lTimestamp = i64 9 bs, TRD_MSG.dblBuyOrdID = f64 17 bs,
    TRD_MSG.dblSellOrdID = f64 25 bs, TRD_MSG.nToken = i32 33 bs,
    TRD_MSG.nTradePrice = i32 37 bs, TRD_MSG.nTradeQty = i32 41 bs\<rparr>"

definition TRD_MSG_bytes :: "TRD_MSG \<Rightarrow> byte list" where
  "TRD_MSG_bytes x =
    STREAM_HEADER_bytes (TRD_MSG.header x) @ [TRD_MSG.cMsgType x] @
    le_bytes 8 (TRD_MSG.lTimestamp x) @ le_bytes 8 (uint (TRD_MSG.dblBuyOrdID x)) @
    le_bytes 8 (uint (TRD_MSG.dblSellOrdID x)) @ le_bytes 4 (TRD_MSG.nToken x) @
    le_bytes 4 (TRD_MSG.nTradePrice x) @ le_bytes 4 (TRD_MSG.nTradeQty x)"

definition TRD_MSG_ok :: "TRD_MSG \<Rightarrow> bool" where
  "TRD_MSG_ok x \<longleftrightarrow>
    STREAM_HEADER_ok (TRD_MSG.header x) \<and> in_range 64 (TRD_MSG.lTimestamp x) \<and>
    in_range 32 (TRD_MSG.nToken x) \<and> in_range 32 (TRD_MSG.nTradePrice x) \<and>
    in_range 32 (TRD_MSG.nTradeQty x)"

record RECOVERY_REQ =
  cMsgType :: byte
  wStreamID :: int
  nBegSeqNo :: int
  nEndSeqNo :: int

definition sizeof_RECOVERY_REQ :: nat where "sizeof_RECOVERY_REQ = 11"

definition RECOVERY_REQ_of :: "byte list \<Rightarrow> RECOVERY_REQ" where
  "RECOVERY_REQ_of bs = \<lparr>RECOVERY_REQ.cMsgType = u8 0 bs, RECOVERY_REQ.wStreamID = i16 1 bs,
    RECOVERY_REQ.nBegSeqNo = i32 3 bs, RECOVERY_REQ.nEndSeqNo = i32 7 bs\<rparr>"

definition RECOVERY_REQ_bytes :: "RECOVERY_REQ \<Rightarrow> byte list" where
  "RECOVERY_REQ_bytes x =
    [RECOVERY_REQ.cMsgType x] @ le_bytes 2 (RECOVERY_REQ.wStreamID x) @
    le_bytes 4 (RECOVERY_REQ.nBegSeqNo x) @ le_bytes 4 (RECOVERY_REQ.nEndSeqNo x)"

definition RECOVERY_REQ_ok :: "RECOVERY_REQ \<Rightarrow> bool" where
  "RECOVERY_REQ_ok x \<longleftrightarrow>
    in_range 16 (RECOVERY_REQ.wStreamID x) \<and>
    in_range 32 (RECOVERY_REQ.nBegSeqNo x) \<and> in_range 32 (RECOVERY_REQ.nEndSeqNo x)"

record RECOVERY_RESP =
  header :: STREAM_HEADER
  cMsgType :: byte
  cReqStatus :: byte

definition sizeof_RECOVERY_RESP :: nat where "sizeof_RECOVERY_RESP = 10"

definition RECOVERY_RESP_of :: "byte list \<Rightarrow> RECOVERY_RESP" where
  "RECOVERY_RESP_of bs = \<lparr>RECOVERY_RESP.header = STREAM_HEADER_of bs, RECOVERY_RESP.cMsgType = u8 8 bs,
    RECOVERY_RESP.cReqStatus = u8 9 bs\<rparr>"

definition RECOVERY_RESP_bytes :: "RECOVERY_RESP \<Rightarrow> byte list" where
  "RECOVERY_RESP_bytes x =
    STREAM_HEADER_bytes (RECOVERY_RESP.header x) @ [RECOVERY_RESP.cMsgType x] @
    [RECOVERY_RESP.cReqStatus x]"

definition RECOVERY_RESP_ok :: "RECOVERY_RESP \<Rightarrow> bool" where
  "RECOVERY_RESP_ok x \<longleftrightarrow>
    STREAM_HEADER_ok (RECOVERY_RESP.header x)"

record HEARTBEAT_MSG =
  header :: STREAM_HEADER
  cMsgType :: byte
  nLastSeqNo :: int

definition sizeof_HEARTBEAT_MSG :: nat where "sizeof_HEARTBEAT_MSG = 13"

definition HEARTBEAT_MSG_of :: "byte list \<Rightarrow> HEARTBEAT_MSG" where
  "HEARTBEAT_MSG_of bs = \<lparr>HEARTBEAT_MSG.header = STREAM_HEADER_of bs, HEARTBEAT_MSG.cMsgType = u8 8 bs,
    HEARTBEAT_MSG.nLastSeqNo = i32 9 bs\<rparr>"

definition HEARTBEAT_MSG_bytes :: "HEARTBEAT_MSG \<Rightarrow> byte list" where
  "HEARTBEAT_MSG_bytes x =
    STREAM_HEADER_bytes (HEARTBEAT_MSG.header x) @ [HEARTBEAT_MSG.cMsgType x] @
    le_bytes 4 (HEARTBEAT_MSG.nLastSeqNo x)"

definition HEARTBEAT_MSG_ok :: "HEARTBEAT_MSG \<Rightarrow> bool" where
  "HEARTBEAT_MSG_ok x \<longleftrightarrow>
    STREAM_HEADER_ok (HEARTBEAT_MSG.header x) \<and>
    in_range 32 (HEARTBEAT_MSG.nLastSeqNo x)"

section \<open>What a packed struct promises\<close>

text \<open>
  The contract between a struct and the code that copies it through a buffer: the bytes have the
  fixed size, reading them back gives the struct, and a read looks at no byte past the size.
  The lemmas of the locale are what the packet parser and the trade store use.
\<close>

definition overlay :: "byte list \<Rightarrow> byte list \<Rightarrow> byte list" where
  "overlay src dst = src @ drop (length src) dst"

locale packed_struct =
  fixes sz :: nat
    and enc :: "'a \<Rightarrow> byte list"
    and dec :: "byte list \<Rightarrow> 'a"
    and ok :: "'a \<Rightarrow> bool"
  assumes length_enc: "ok x \<Longrightarrow> length (enc x) = sz"
    and dec_enc: "ok x \<Longrightarrow> dec (enc x @ rest) = x"
    and dec_local: "sz \<le> length bs \<Longrightarrow> dec (bs @ rest) = dec bs"
begin

lemma dec_enc_exact: "ok x \<Longrightarrow> dec (enc x) = x"
  using dec_enc [of x "[]"] by simp

lemma dec_overlay: "ok x \<Longrightarrow> dec (overlay (enc x) bs) = x"
  by (simp add: overlay_def dec_enc)

lemma dec_take: "sz \<le> n \<Longrightarrow> sz \<le> length bs \<Longrightarrow> dec (take n bs) = dec bs"
  using dec_local [of "take n bs" "drop n bs"] by simp

end

lemma field_at_local: "off + n \<le> length bs \<Longrightarrow> field_at off n (bs @ rest) = field_at off n bs"
  by (simp add: field_at_def)

text \<open>One simplification set proves the three laws for every struct.\<close>

lemmas field_reads = u8_def i16_def i32_def i64_def f64_def

lemma STREAM_HEADER_bytes_length [simp]: "length (STREAM_HEADER_bytes h) = 8"
  by (simp add: STREAM_HEADER_bytes_def)

interpretation sh: packed_struct sizeof_STREAM_HEADER STREAM_HEADER_bytes STREAM_HEADER_of STREAM_HEADER_ok
  by unfold_locales
    (simp_all add: STREAM_HEADER_of_def STREAM_HEADER_bytes_def STREAM_HEADER_ok_def sizeof_STREAM_HEADER_def field_reads field_at_simps
      field_at_local wrap_le_bytes f64_le_bytes wrap_id)

interpretation mh: packed_struct sizeof_MSG_HEADER MSG_HEADER_bytes MSG_HEADER_of MSG_HEADER_ok
  by unfold_locales
    (simp_all add: MSG_HEADER_of_def MSG_HEADER_bytes_def MSG_HEADER_ok_def sizeof_MSG_HEADER_def field_reads field_at_simps
      field_at_local wrap_le_bytes f64_le_bytes wrap_id)

interpretation mdh: packed_struct sizeof_MST_DATA_HEADER MST_DATA_HEADER_bytes MST_DATA_HEADER_of MST_DATA_HEADER_ok
  by unfold_locales
    (simp_all add: MST_DATA_HEADER_of_def MST_DATA_HEADER_bytes_def MST_DATA_HEADER_ok_def sizeof_MST_DATA_HEADER_def field_reads field_at_simps
      field_at_local wrap_le_bytes f64_le_bytes wrap_id sh.dec_enc_exact sh.dec_local sizeof_STREAM_HEADER_def)

interpretation ci: packed_struct sizeof_CONTRACT_INFO CONTRACT_INFO_bytes CONTRACT_INFO_of CONTRACT_INFO_ok
  by unfold_locales
    (simp_all add: CONTRACT_INFO_of_def CONTRACT_INFO_bytes_def CONTRACT_INFO_ok_def sizeof_CONTRACT_INFO_def field_reads field_at_simps
      field_at_local wrap_le_bytes f64_le_bytes wrap_id sh.dec_enc_exact sh.dec_local sizeof_STREAM_HEADER_def)

interpretation sci: packed_struct sizeof_SPRD_CONTRACT_INFO SPRD_CONTRACT_INFO_bytes SPRD_CONTRACT_INFO_of SPRD_CONTRACT_INFO_ok
  by unfold_locales
    (simp_all add: SPRD_CONTRACT_INFO_of_def SPRD_CONTRACT_INFO_bytes_def SPRD_CONTRACT_INFO_ok_def sizeof_SPRD_CONTRACT_INFO_def field_reads field_at_simps
      field_at_local wrap_le_bytes f64_le_bytes wrap_id sh.dec_enc_exact sh.dec_local sizeof_STREAM_HEADER_def)

interpretation mdt: packed_struct sizeof_MST_DATA_TRAILER MST_DATA_TRAILER_bytes MST_DATA_TRAILER_of MST_DATA_TRAILER_ok
  by unfold_locales
    (simp_all add: MST_DATA_TRAILER_of_def MST_DATA_TRAILER_bytes_def MST_DATA_TRAILER_ok_def sizeof_MST_DATA_TRAILER_def field_reads field_at_simps
      field_at_local wrap_le_bytes f64_le_bytes wrap_id sh.dec_enc_exact sh.dec_local sizeof_STREAM_HEADER_def)

interpretation gom: packed_struct sizeof_GENERIC_ORD_MSG GENERIC_ORD_MSG_bytes GENERIC_ORD_MSG_of GENERIC_ORD_MSG_ok
  by unfold_locales
    (simp_all add: GENERIC_ORD_MSG_of_def GENERIC_ORD_MSG_bytes_def GENERIC_ORD_MSG_ok_def sizeof_GENERIC_ORD_MSG_def field_reads field_at_simps
      field_at_local wrap_le_bytes f64_le_bytes wrap_id sh.dec_enc_exact sh.dec_local sizeof_STREAM_HEADER_def)

interpretation tm: packed_struct sizeof_TRD_MSG TRD_MSG_bytes TRD_MSG_of TRD_MSG_ok
  by unfold_locales
    (simp_all add: TRD_MSG_of_def TRD_MSG_bytes_def TRD_MSG_ok_def sizeof_TRD_MSG_def field_reads field_at_simps
      field_at_local wrap_le_bytes f64_le_bytes wrap_id sh.dec_enc_exact sh.dec_local sizeof_STREAM_HEADER_def)

interpretation rq: packed_struct sizeof_RECOVERY_REQ RECOVERY_REQ_bytes RECOVERY_REQ_of RECOVERY_REQ_ok
  by unfold_locales
    (simp_all add: RECOVERY_REQ_of_def RECOVERY_REQ_bytes_def RECOVERY_REQ_ok_def sizeof_RECOVERY_REQ_def field_reads field_at_simps
      field_at_local wrap_le_bytes f64_le_bytes wrap_id)

interpretation rr: packed_struct sizeof_RECOVERY_RESP RECOVERY_RESP_bytes RECOVERY_RESP_of RECOVERY_RESP_ok
  by unfold_locales
    (simp_all add: RECOVERY_RESP_of_def RECOVERY_RESP_bytes_def RECOVERY_RESP_ok_def sizeof_RECOVERY_RESP_def field_reads field_at_simps
      field_at_local wrap_le_bytes f64_le_bytes wrap_id sh.dec_enc_exact sh.dec_local sizeof_STREAM_HEADER_def)

interpretation hb: packed_struct sizeof_HEARTBEAT_MSG HEARTBEAT_MSG_bytes HEARTBEAT_MSG_of HEARTBEAT_MSG_ok
  by unfold_locales
    (simp_all add: HEARTBEAT_MSG_of_def HEARTBEAT_MSG_bytes_def HEARTBEAT_MSG_ok_def sizeof_HEARTBEAT_MSG_def field_reads field_at_simps
      field_at_local wrap_le_bytes f64_le_bytes wrap_id sh.dec_enc_exact sh.dec_local sizeof_STREAM_HEADER_def)

section \<open>The union and the composite message\<close>

text \<open>
  \<open>BcastMsg\<close> is the bytes of the union, 45 of them, the size of its largest member; reading a
  member is decoding the bytes as that struct, whichever member was written. All members begin
  with the stream header and the message type, so the receive loop reads these two through
  \<open>stHeader\<close> and \<open>stMsgHeader\<close> whatever the message is.
\<close>

type_synonym BcastMsg = "byte list"

definition sizeof_BcastMsg :: nat where "sizeof_BcastMsg = 45"

definition stHeader :: "BcastMsg \<Rightarrow> STREAM_HEADER" where "stHeader = STREAM_HEADER_of"
definition stMsgHeader :: "BcastMsg \<Rightarrow> MSG_HEADER" where "stMsgHeader = MSG_HEADER_of"
definition stMSTDataHeader :: "BcastMsg \<Rightarrow> MST_DATA_HEADER" where "stMSTDataHeader = MST_DATA_HEADER_of"
definition stContractInfo :: "BcastMsg \<Rightarrow> CONTRACT_INFO" where "stContractInfo = CONTRACT_INFO_of"
definition stSprdContractInfo :: "BcastMsg \<Rightarrow> SPRD_CONTRACT_INFO" where
  "stSprdContractInfo = SPRD_CONTRACT_INFO_of"
definition stMSTDataTrailer :: "BcastMsg \<Rightarrow> MST_DATA_TRAILER" where "stMSTDataTrailer = MST_DATA_TRAILER_of"
definition stGegenricOrdMsg :: "BcastMsg \<Rightarrow> GENERIC_ORD_MSG" where "stGegenricOrdMsg = GENERIC_ORD_MSG_of"
definition stTrdMsg :: "BcastMsg \<Rightarrow> TRD_MSG" where "stTrdMsg = TRD_MSG_of"
definition stRecoveryResp :: "BcastMsg \<Rightarrow> RECOVERY_RESP" where "stRecoveryResp = RECOVERY_RESP_of"

record timespec =
  tv_sec :: int
  tv_nsec :: int

record CompositeBcastMsg =
  stBcastMsg :: BcastMsg
  tv :: timespec

definition msgType :: "CompositeBcastMsg \<Rightarrow> byte" where
  "msgType m = MSG_HEADER.cMsgType (stMsgHeader (stBcastMsg m))"

definition msgSeqNo :: "CompositeBcastMsg \<Rightarrow> int" where
  "msgSeqNo m = STREAM_HEADER.nSeqNo (stHeader (stBcastMsg m))"

lemma common_prefix:
  "MSG_HEADER.cMsgType (stMsgHeader b) = TRD_MSG.cMsgType (stTrdMsg b)"
  "MSG_HEADER.cMsgType (stMsgHeader b) = GENERIC_ORD_MSG.cMsgType (stGegenricOrdMsg b)"
  "MSG_HEADER.cMsgType (stMsgHeader b) = MST_DATA_HEADER.cMsgType (stMSTDataHeader b)"
  "MSG_HEADER.cMsgType (stMsgHeader b) = CONTRACT_INFO.cMsgType (stContractInfo b)"
  "MSG_HEADER.cMsgType (stMsgHeader b) = SPRD_CONTRACT_INFO.cMsgType (stSprdContractInfo b)"
  "MSG_HEADER.cMsgType (stMsgHeader b) = MST_DATA_TRAILER.cMsgType (stMSTDataTrailer b)"
  "MSG_HEADER.cMsgType (stMsgHeader b) = RECOVERY_RESP.cMsgType (stRecoveryResp b)"
  "TRD_MSG.header (stTrdMsg b) = stHeader b"
  "GENERIC_ORD_MSG.header (stGegenricOrdMsg b) = stHeader b"
  "MST_DATA_HEADER.header (stMSTDataHeader b) = stHeader b"
  "CONTRACT_INFO.header (stContractInfo b) = stHeader b"
  "SPRD_CONTRACT_INFO.header (stSprdContractInfo b) = stHeader b"
  "MST_DATA_TRAILER.header (stMSTDataTrailer b) = stHeader b"
  "RECOVERY_RESP.header (stRecoveryResp b) = stHeader b"
  by (simp_all add: stMsgHeader_def stTrdMsg_def stGegenricOrdMsg_def stMSTDataHeader_def
    stContractInfo_def stSprdContractInfo_def stMSTDataTrailer_def stRecoveryResp_def stHeader_def
    MSG_HEADER_of_def TRD_MSG_of_def GENERIC_ORD_MSG_of_def MST_DATA_HEADER_of_def
    CONTRACT_INFO_of_def SPRD_CONTRACT_INFO_of_def MST_DATA_TRAILER_of_def RECOVERY_RESP_of_def)

lemma MSG_HEADER_view:
  "MSG_HEADER.nSeqNo (stMsgHeader b) = STREAM_HEADER.nSeqNo (stHeader b)"
  "MSG_HEADER.wMsgLen (stMsgHeader b) = STREAM_HEADER.wMsgLen (stHeader b)"
  "MSG_HEADER.wStremID (stMsgHeader b) = STREAM_HEADER.wStremID (stHeader b)"
  by (simp_all add: stMsgHeader_def stHeader_def MSG_HEADER_of_def STREAM_HEADER_of_def)

section \<open>Order ids: double to int64\<close>

text \<open>
  An order id is the bit pattern of an IEEE 754 binary64. \<open>(int64_t)d\<close> truncates towards zero;
  a value outside the range (and an infinity or a NaN) converts, on the x86 the program is built
  for, to the least \<open>int64_t\<close>.
\<close>

definition dbl_exponent :: "64 word \<Rightarrow> int" where
  "dbl_exponent d = uint d div 2 ^ 52 mod 2 ^ 11"

definition dbl_mantissa :: "64 word \<Rightarrow> int" where
  "dbl_mantissa d = uint d mod 2 ^ 52"

definition dbl_negative :: "64 word \<Rightarrow> bool" where
  "dbl_negative d \<longleftrightarrow> uint d div 2 ^ 63 = 1"

definition dbl_to_int64 :: "64 word \<Rightarrow> int" where
  "dbl_to_int64 d =
    (let e = dbl_exponent d - 1023; m = 2 ^ 52 + dbl_mantissa d; s = (if dbl_negative d then - 1 else 1)
     in if e < 0 then 0
        else if e \<le> 52 then s * (m div 2 ^ nat (52 - e))
        else if e < 63 then s * (m * 2 ^ nat (e - 52))
        else - (2 ^ 63))"

lemma dbl_mantissa_nonneg: "0 \<le> dbl_mantissa d"
  by (simp add: dbl_mantissa_def)

lemma dbl_to_int64_zero_iff: "dbl_to_int64 d = 0 \<longleftrightarrow> dbl_exponent d < 1023"
proof (cases "dbl_exponent d < 1023")
  case False
  let ?m = "2 ^ 52 + dbl_mantissa d"
  have m: "(2::int) ^ 52 \<le> ?m" by (simp add: dbl_mantissa_nonneg)
  have "?m div 2 ^ nat (52 - (dbl_exponent d - 1023)) \<noteq> 0"
    if "dbl_exponent d - 1023 \<le> 52"
  proof -
    have "(2::int) ^ nat (52 - (dbl_exponent d - 1023)) \<le> 2 ^ 52"
      using False by (intro power_increasing) auto
    with m have "(2::int) ^ nat (52 - (dbl_exponent d - 1023)) \<le> ?m" by linarith
    then show ?thesis using m by (auto simp: zdiv_eq_0_iff)
  qed
  then show ?thesis
    using False m by (auto simp: dbl_to_int64_def Let_def)
qed (simp add: dbl_to_int64_def)

text \<open>The double that represents a positive integer below \<open>2^53\<close> converts to that integer.\<close>

definition dbl_of_id :: "nat \<Rightarrow> int \<Rightarrow> 64 word" where
  "dbl_of_id k x = word_of_int ((1023 + int k) * 2 ^ 52 + (x * 2 ^ (52 - k) - 2 ^ 52))"

lemma dbl_of_id_to_int64:
  assumes k: "k \<le> 52" and x: "2 ^ k \<le> x" "x < 2 ^ (k + 1)"
  shows "dbl_to_int64 (dbl_of_id k x) = x"
proof -
  define f where "f = x * 2 ^ (52 - k) - 2 ^ 52"
  have p: "(2::int) ^ k * 2 ^ (52 - k) = 2 ^ 52"
    using k by (simp flip: power_add)
  have "2 ^ k * 2 ^ (52 - k) \<le> x * 2 ^ (52 - k)"
    using x by (intro mult_right_mono) simp_all
  moreover have "x * 2 ^ (52 - k) < 2 ^ (k + 1) * 2 ^ (52 - k)"
    using x(2) by (rule mult_strict_right_mono) simp
  moreover have "(2::int) ^ (k + 1) * 2 ^ (52 - k) = 2 * 2 ^ 52"
    unfolding p [symmetric] by simp
  ultimately have f: "0 \<le> f" "f < 2 ^ 52"
    unfolding f_def p by linarith+
  define u where "u = (1023 + int k) * 2 ^ 52 + f"
  have "u < 2 ^ 63" using k f by (simp add: u_def)
  moreover have "0 \<le> u" using f by (simp add: u_def)
  ultimately have "uint (word_of_int u :: 64 word) = u"
    by (simp add: uint_word_of_int)
  then have d: "uint (dbl_of_id k x) = u"
    by (simp add: dbl_of_id_def u_def f_def)
  have "u = f + (1023 + int k) * 2 ^ 52" by (simp add: u_def)
  then have "u mod 2 ^ 52 = f mod 2 ^ 52" by (simp only: mod_mult_self1)
  with f have q: "u div 2 ^ 52 = 1023 + int k" "u mod 2 ^ 52 = f"
    by (simp_all add: u_def)
  have e: "dbl_exponent (dbl_of_id k x) = 1023 + int k" "dbl_mantissa (dbl_of_id k x) = f"
    using q d k by (simp_all add: dbl_exponent_def dbl_mantissa_def)
  have n: "\<not> dbl_negative (dbl_of_id k x)"
    using \<open>u < 2 ^ 63\<close> f d by (simp add: dbl_negative_def u_def)
  have "nat (52 - int k) = 52 - k" by linarith
  with e n k show ?thesis
    by (simp add: dbl_to_int64_def f_def)
qed

section \<open>What the receivers need of the message handler\<close>

text \<open>
  Both the receive loop and the recovery manager hand decoded messages to one handler,
  \<open>WriteDataInFile\<close>, which \<^verbatim>\<open>src/recoverymgr.h\<close> only declares. What they rely on is that an
  acceptable message keeps the handler's invariant, or ends in one of the faults \<open>E\<close>.
\<close>

locale message_sink =
  fixes handle :: "CompositeBcastMsg \<Rightarrow> 's \<Rightarrow> 's res"
    and I :: "'s \<Rightarrow> bool"
    and P :: "CompositeBcastMsg \<Rightarrow> bool"
    and E :: "fault set"
  assumes handle_ok: "I s \<Longrightarrow> P m \<Longrightarrow> wpost E (handle m s) I"
begin

lemma handle_all: "I s \<Longrightarrow> \<forall>m \<in> set ms. P m \<Longrightarrow> wpost E (foldR handle ms s) I"
  by (rule foldR_wpost) (auto intro: handle_ok)

lemma handle_Inr: "I s \<Longrightarrow> P m \<Longrightarrow> handle m s = Inr s1 \<Longrightarrow> I s1"
  using handle_ok [of s m] by simp

lemma handle_Inl: "I s \<Longrightarrow> P m \<Longrightarrow> handle m s = Inl e \<Longrightarrow> e \<in> E"
  using handle_ok [of s m] by simp

end

section \<open>Messages for evaluation\<close>

text \<open>Concrete messages on which the properties of the later theories are evaluated.\<close>

definition trade_msg :: "int \<Rightarrow> int \<Rightarrow> 64 word \<Rightarrow> 64 word \<Rightarrow> int \<Rightarrow> int \<Rightarrow> TRD_MSG" where
  "trade_msg seqno token buy sell price n =
    \<lparr>TRD_MSG.header = \<lparr>STREAM_HEADER.wMsgLen = 45, wStremID = 1, nSeqNo = seqno\<rparr>,
     cMsgType = TRADE_MESSAGE, lTimestamp = 0, dblBuyOrdID = buy, dblSellOrdID = sell,
     nToken = token, nTradePrice = price, nTradeQty = n\<rparr>"

definition order_msg :: "int \<Rightarrow> GENERIC_ORD_MSG" where
  "order_msg seqno =
    \<lparr>GENERIC_ORD_MSG.header = \<lparr>STREAM_HEADER.wMsgLen = 38, wStremID = 1, nSeqNo = seqno\<rparr>,
     cMsgType = NEW_ORDER, lTimeStamp = 0, dblOrdID = 0, nToken = 1, cOrdType = BUY_INDICATOR_CHAR,
     nPrice = 0, nQty = 0\<rparr>"

definition packet_of :: "byte list \<Rightarrow> CompositeBcastMsg" where
  "packet_of bs = \<lparr>stBcastMsg = overlay bs (replicate 45 0), tv = \<lparr>tv_sec = 0, tv_nsec = 0\<rparr>\<rparr>"

definition small :: "int \<Rightarrow> bool" where
  "small x \<longleftrightarrow> - 2147483648 \<le> x \<and> x < 2147483648"

lemma trade_msg_ok:
  "small seqno \<Longrightarrow> small token \<Longrightarrow> small price \<Longrightarrow> small n \<Longrightarrow> TRD_MSG_ok (trade_msg seqno token buy sell price n)"
  by (simp add: TRD_MSG_ok_def trade_msg_def STREAM_HEADER_ok_def in_range_def small_def)

lemma trade_packet:
  assumes "small seqno" "small token" "small price" "small n"
  shows "stTrdMsg (stBcastMsg (packet_of (TRD_MSG_bytes (trade_msg seqno token buy sell price n)))) =
    trade_msg seqno token buy sell price n"
  using assms by (simp add: stTrdMsg_def packet_of_def tm.dec_overlay trade_msg_ok)

lemma order_msg_ok: "small seqno \<Longrightarrow> GENERIC_ORD_MSG_ok (order_msg seqno)"
  by (simp add: GENERIC_ORD_MSG_ok_def order_msg_def STREAM_HEADER_ok_def in_range_def small_def)

lemma order_packet:
  assumes "small seqno"
  shows "stGegenricOrdMsg (stBcastMsg (packet_of (GENERIC_ORD_MSG_bytes (order_msg seqno)))) = order_msg seqno"
  using assms by (simp add: stGegenricOrdMsg_def packet_of_def gom.dec_overlay order_msg_ok)

text \<open>An order id that reads as 1, and the absent one.\<close>

lemma sample_ids [simp]: "dbl_to_int64 (dbl_of_id 0 1) = 1" "dbl_to_int64 0 = 0"
  using dbl_of_id_to_int64 [of 0 1] by (simp_all add: dbl_to_int64_zero_iff dbl_exponent_def)

section \<open>Properties\<close>

text \<open>
  \<open>(int64_t)d == 0\<close>, the program's test for an absent side of a trade, holds of a double exactly
  when its biased exponent is below 1023, that is when its magnitude is below one: zeros, subnormals
  and fractions, but neither infinities nor NaNs.
\<close>

lemma absent_order_id: "dbl_to_int64 d = 0 \<longleftrightarrow> dbl_exponent d < 1023"
  by (rule dbl_to_int64_zero_iff)

text \<open>
  A trade copied into the union reads back through \<open>stTrdMsg\<close>, and its type and sequence number
  through the prefix members \<open>stMsgHeader\<close> and \<open>stHeader\<close>, whatever bytes the union held before.
\<close>

lemma trade_through_union:
  assumes "TRD_MSG_ok t"
  shows "stTrdMsg (overlay (TRD_MSG_bytes t) u) = t \<and>
    MSG_HEADER.cMsgType (stMsgHeader (overlay (TRD_MSG_bytes t) u)) = TRD_MSG.cMsgType t \<and>
    STREAM_HEADER.nSeqNo (stHeader (overlay (TRD_MSG_bytes t) u)) = STREAM_HEADER.nSeqNo (TRD_MSG.header t)"
proof -
  have "stTrdMsg (overlay (TRD_MSG_bytes t) u) = t"
    using assms by (simp add: stTrdMsg_def tm.dec_overlay)
  then show ?thesis
    using common_prefix(1,8) [of "overlay (TRD_MSG_bytes t) u"] by simp
qed

end
