(* ===== verification/Contracts.thy ===== *)
theory Contracts
  imports Wire
begin

text \<open>
  The contract master: \<open>OMSScripInfo\<close> of \<^verbatim>\<open>src/struct_conrevtrade.h\<close>, the column numbers of
  \<^verbatim>\<open>src/defines_conrevtrades.h\<close>, and \<open>FileDigester\<close> of \<^verbatim>\<open>src/main.cpp\<close>, which fills the
  token table from the lines of the contract file. A text buffer is a \<open>string\<close> without its
  terminating null; a zero-filled \<open>char[n + 1]\<close> after \<open>strncpy(..., n)\<close> is the first \<open>n\<close>
  characters.
\<close>

section \<open>Records and column numbers\<close>

definition SERIES_ID_LEN :: nat where "SERIES_ID_LEN = 2"
definition TRADING_SYMBOL_NAME :: nat where "TRADING_SYMBOL_NAME = 25"
definition SCRIP_SYMBOL_LEN :: nat where "SCRIP_SYMBOL_LEN = 10"

definition CONTRACT_TOKEN :: nat where "CONTRACT_TOKEN = 1"
definition CONTRACT_SYMBOL :: nat where "CONTRACT_SYMBOL = 4"
definition CONTRACT_EXPIRY_DATE :: nat where "CONTRACT_EXPIRY_DATE = 7"
definition CONTRACT_STRIKE_PRICE :: nat where "CONTRACT_STRIKE_PRICE = 8"
definition CONTRACT_CA_LEVEL :: nat where "CONTRACT_CA_LEVEL = 9"
definition CONTRACT_MIN_LOT_QTY :: nat where "CONTRACT_MIN_LOT_QTY = 31"
definition CONTRACT_BROAD_LOT_QTY :: nat where "CONTRACT_BROAD_LOT_QTY = 32"
definition CONTRACT_TICK_SIZE :: nat where "CONTRACT_TICK_SIZE = 33"
definition CONTRACT_NAME :: nat where "CONTRACT_NAME = 54"

lemmas column_numbers = CONTRACT_TOKEN_def CONTRACT_SYMBOL_def CONTRACT_EXPIRY_DATE_def
  CONTRACT_STRIKE_PRICE_def CONTRACT_CA_LEVEL_def CONTRACT_MIN_LOT_QTY_def
  CONTRACT_BROAD_LOT_QTY_def CONTRACT_TICK_SIZE_def CONTRACT_NAME_def

lemmas array_lengths = SERIES_ID_LEN_def TRADING_SYMBOL_NAME_def SCRIP_SYMBOL_LEN_def

record OMSScripInfo =
  nExpiryDate :: int
  nStrikePrice :: int
  nToken :: int
  nBoardLotQty :: int
  nMinLotQty :: int
  nTickSize :: int
  nCustomInstrumentType :: int
  cSymbol :: string
  cSeries :: string
  cSymbolName :: string
  nBoardLotQty2 :: int
  nTotalTraded :: int

text \<open>The record after \<open>memset(..., 0, sizeof(OMSScripInfo))\<close>.\<close>

definition OMSScripInfo_zero :: OMSScripInfo where
  "OMSScripInfo_zero = \<lparr>nExpiryDate = 0, nStrikePrice = 0, nToken = 0, nBoardLotQty = 0,
     nMinLotQty = 0, nTickSize = 0, nCustomInstrumentType = 0, cSymbol = [], cSeries = [],
     cSymbolName = [], nBoardLotQty2 = 0, nTotalTraded = 0\<rparr>"

text \<open>\<open>std::unordered_map<int32_t, OMSScripInfo*>\<close>: every value is a fresh object that only the
  table points to, so the table maps tokens to the objects themselves.\<close>

type_synonym TOKENDATA_STORE = "int \<rightharpoonup> OMSScripInfo"

section \<open>Reading a number: atol and atoi\<close>

definition is_space :: "char \<Rightarrow> bool" where
  "is_space c \<longleftrightarrow> (let k = of_char c :: nat in k = 32 \<or> (9 \<le> k \<and> k \<le> 13))"

definition is_digit :: "char \<Rightarrow> bool" where
  "is_digit c \<longleftrightarrow> (let k = of_char c :: nat in 48 \<le> k \<and> k \<le> 57)"

definition digits_value :: "string \<Rightarrow> int" where
  "digits_value ds = fold (\<lambda>c v. 10 * v + (of_char c - 48)) ds 0"

definition atol :: "string \<Rightarrow> int" where
  "atol s =
    (let t = dropWhile is_space s;
         neg = (t \<noteq> [] \<and> hd t = CHR ''-'');
         u = (if t \<noteq> [] \<and> (hd t = CHR ''-'' \<or> hd t = CHR ''+'') then tl t else t);
         v = digits_value (takeWhile is_digit u)
     in if neg then max (- (2 ^ 63)) (- v) else min (2 ^ 63 - 1) v)"

definition atoi :: "string \<Rightarrow> int" where
  "atoi s = wrap32 (atol s)"

section \<open>One line of the contract file\<close>

text \<open>\<open>strLine.find('|', startPoint)\<close>; \<open>None\<close> is \<open>npos\<close>.\<close>

definition find_bar :: "string \<Rightarrow> nat \<Rightarrow> nat option" where
  "find_bar s start =
    (let t = drop start s; k = length (takeWhile (\<lambda>c. c \<noteq> CHR ''|'') t)
     in if start \<le> length s \<and> k < length t then Some (start + k) else None)"

definition substr :: "string \<Rightarrow> nat \<Rightarrow> nat \<Rightarrow> string" where
  "substr s pos n = take n (drop pos s)"

text \<open>The \<open>switch(i)\<close>: what column \<open>i\<close> does to the record, given its text.\<close>

definition set_strike :: "string \<Rightarrow> OMSScripInfo \<Rightarrow> OMSScripInfo" where
  "set_strike f sc =
    (let o1 = sc\<lparr>nStrikePrice := atoi f\<rparr>
     in if nStrikePrice o1 = - 1 then o1\<lparr>nStrikePrice := 0, nCustomInstrumentType := 1\<rparr> else o1)"

definition set_series :: "string \<Rightarrow> OMSScripInfo \<Rightarrow> OMSScripInfo" where
  "set_series f sc =
    (let o1 = sc\<lparr>cSeries := take 2 f\<rparr>;
         o2 = (if take 2 (cSeries o1) = ''CE'' then o1\<lparr>nCustomInstrumentType := 2\<rparr> else o1)
     in if take 2 (cSeries o2) = ''PE'' then o2\<lparr>nCustomInstrumentType := 3\<rparr> else o2)"

definition set_column :: "nat \<Rightarrow> string \<Rightarrow> OMSScripInfo \<Rightarrow> OMSScripInfo" where
  "set_column i f sc =
    (if i = CONTRACT_TOKEN then sc\<lparr>nToken := wrap32 (atol f)\<rparr>
     else if i = CONTRACT_SYMBOL then sc\<lparr>cSymbol := take SCRIP_SYMBOL_LEN f\<rparr>
     else if i = CONTRACT_EXPIRY_DATE then sc\<lparr>nExpiryDate := atoi f\<rparr>
     else if i = CONTRACT_STRIKE_PRICE then set_strike f sc
     else if i = CONTRACT_CA_LEVEL then set_series f sc
     else if i = CONTRACT_MIN_LOT_QTY then sc\<lparr>nMinLotQty := atoi f\<rparr>
     else if i = CONTRACT_BROAD_LOT_QTY then sc\<lparr>nBoardLotQty := atoi f\<rparr>
     else if i = CONTRACT_TICK_SIZE then sc\<lparr>nTickSize := atoi f\<rparr>
     else if i = CONTRACT_NAME then sc\<lparr>cSymbolName := take 25 f\<rparr>
     else sc)"

text \<open>
  One turn of \<open>while(i <= 68)\<close>. Every column moves \<open>startPoint\<close> behind its bar (the column
  \<open>CONTRACT_NAME\<close> falls through to \<open>default\<close> and does so twice); a missing bar leaves
  everything as it is and only counts \<open>i\<close> up.
\<close>

definition digest_column :: "string \<Rightarrow> nat \<Rightarrow> nat \<times> OMSScripInfo \<Rightarrow> nat \<times> OMSScripInfo" where
  "digest_column strLine i st =
    (case st of (startPoint, sc) \<Rightarrow>
      (case find_bar strLine startPoint of
         None \<Rightarrow> (startPoint, sc)
       | Some endPoint \<Rightarrow>
           (endPoint + 1, set_column i (substr strLine startPoint (endPoint - startPoint)) sc)))"

definition digest_line :: "string \<Rightarrow> OMSScripInfo" where
  "digest_line pLine =
    (let strLine = takeWhile (\<lambda>c. c \<noteq> CHR 0x00) pLine
     in snd (fold (digest_column strLine) [1..<69] (0, OMSScripInfo_zero)))"

section \<open>The file\<close>

text \<open>
  A file is its lines as \<open>getline\<close> returns them, \<open>None\<close> a file that does not open. The first
  line holds the file version. \<open>unordered_map::insert\<close> keeps the entry that is already there.
\<close>

definition insert_scrip :: "OMSScripInfo \<Rightarrow> TOKENDATA_STORE \<Rightarrow> TOKENDATA_STORE" where
  "insert_scrip sc m = (if m (nToken sc) = None then m(nToken sc \<mapsto> sc) else m)"

definition FileDigester :: "string list option \<Rightarrow> TOKENDATA_STORE \<Rightarrow> int \<times> TOKENDATA_STORE" where
  "FileDigester file cTokenData =
    (case file of
       None \<Rightarrow> (0, cTokenData)
     | Some ls \<Rightarrow> (1, fold (\<lambda>l. insert_scrip (digest_line l)) (drop 1 ls) cTokenData))"

section \<open>Columns of a separated line\<close>

lemma takeWhile_bar:
  "CHR ''|'' \<notin> set f \<Longrightarrow> takeWhile (\<lambda>c. c \<noteq> CHR ''|'') (f @ CHR ''|'' # rest) = f"
  by (induction f) auto

lemma find_bar_hit:
  "CHR ''|'' \<notin> set f \<Longrightarrow> find_bar (pre @ f @ CHR ''|'' # rest) (length pre) = Some (length pre + length f)"
  by (simp add: find_bar_def takeWhile_bar)

lemma digest_column_hit:
  "CHR ''|'' \<notin> set f \<Longrightarrow>
   digest_column (pre @ f @ CHR ''|'' # rest) i (length pre, sc) =
     (length pre + length f + 1, set_column i f sc)"
  by (simp add: digest_column_def find_bar_hit substr_def)

lemma find_bar_miss: "CHR ''|'' \<notin> set (drop start s) \<Longrightarrow> find_bar s start = None"
proof -
  assume "CHR ''|'' \<notin> set (drop start s)"
  then have t: "takeWhile (\<lambda>c. c \<noteq> CHR ''|'') (drop start s) = drop start s"
    by (auto simp: takeWhile_eq_all_conv)
  show ?thesis unfolding find_bar_def Let_def t by simp
qed

text \<open>The columns \<open>fs\<close>, each closed by a bar, and what follows the last bar.\<close>

definition bar_line :: "string list \<Rightarrow> string \<Rightarrow> string" where
  "bar_line fs rest = concat (map (\<lambda>f. f @ ''|'') fs) @ rest"

text \<open>The columns of a line applied one after the other, the first one being column \<open>i\<close>.\<close>

fun set_columns :: "nat \<Rightarrow> string list \<Rightarrow> OMSScripInfo \<Rightarrow> OMSScripInfo" where
  "set_columns i [] sc = sc"
| "set_columns i (f # fs) sc = set_columns (Suc i) fs (set_column i f sc)"

lemma fold_digest_columns:
  assumes "\<forall>f \<in> set fs. CHR ''|'' \<notin> set f"
  shows "fold (digest_column (pre @ bar_line fs rest)) [i..<i + length fs] (length pre, sc) =
    (length pre + length (concat (map (\<lambda>f. f @ ''|'') fs)), set_columns i fs sc)"
  using assms
proof (induction fs arbitrary: pre i sc)
  case (Cons f fs)
  let ?s = "pre @ bar_line (f # fs) rest" and ?pre = "pre @ f @ ''|''"
  have s: "?s = ?pre @ bar_line fs rest"
    by (simp add: bar_line_def)
  have hd: "digest_column ?s i (length pre, sc) = (length ?pre, set_column i f sc)"
    using digest_column_hit [of f pre "bar_line fs rest" i sc] Cons.prems by (simp add: bar_line_def)
  have "[i..<i + length (f # fs)] = i # [Suc i..<Suc i + length fs]"
    by (simp add: upt_rec [of i] Suc_le_eq)
  then have "fold (digest_column ?s) [i..<i + length (f # fs)] (length pre, sc)
      = fold (digest_column ?s) [Suc i..<Suc i + length fs] (length ?pre, set_column i f sc)"
    by (simp add: hd del: upt_Suc)
  also have "\<dots> = (length ?pre + length (concat (map (\<lambda>f. f @ ''|'') fs)),
      set_columns (Suc i) fs (set_column i f sc))"
    unfolding s by (rule Cons.IH) (use Cons.prems in auto)
  finally show ?case by simp
qed simp

lemma fold_digest_missing:
  assumes "CHR ''|'' \<notin> set (drop start s)"
  shows "fold (digest_column s) is (start, sc) = (start, sc)"
  using assms by (induction "is") (simp_all add: digest_column_def find_bar_miss)

lemma bar_line_split: "bar_line fs rest = bar_line (take k fs) (bar_line (drop k fs) rest)"
proof -
  have "concat (map (\<lambda>f. f @ ''|'') (take k fs @ drop k fs)) @ rest
      = bar_line (take k fs) (bar_line (drop k fs) rest)"
    unfolding bar_line_def map_append concat_append by simp
  then show ?thesis by (simp add: bar_line_def)
qed

lemma fold_digest_bar_line:
  assumes fs: "\<forall>f \<in> set fs. CHR ''|'' \<notin> set f" and r: "CHR ''|'' \<notin> set rest"
  shows "snd (fold (digest_column (bar_line fs rest)) [1..<Suc n] (0, sc)) = set_columns 1 (take n fs) sc"
proof -
  let ?k = "min n (length fs)"
  have fs': "\<forall>f \<in> set (take n fs). CHR ''|'' \<notin> set f" using fs by (auto dest: in_set_takeD)
  have len: "length (take n fs) = ?k" by simp
  let ?r = "bar_line (drop n fs) rest" and ?p = "length (concat (map (\<lambda>f. f @ ''|'') (take n fs)))"
  have "[1..<Suc n] = [1..<1 + ?k] @ [1 + ?k..<Suc n]"
    using upt_add_eq_append [of 1 "1 + ?k" "n - ?k"] by (simp del: upt_Suc)
  moreover have "fold (digest_column (bar_line fs rest)) [1..<1 + ?k] (0, sc)
      = (?p, set_columns 1 (take n fs) sc)"
    using fold_digest_columns [OF fs', of "[]" ?r 1 sc] bar_line_split [of fs rest n]
    unfolding len by simp
  moreover have "snd (fold (digest_column (bar_line fs rest)) [1 + ?k..<Suc n] (?p, t)) = t" for t
  proof (cases "n < length fs")
    case False
    then have "drop ?p (bar_line fs rest) = rest" by (simp add: bar_line_def)
    with r show ?thesis by (simp add: fold_digest_missing del: upt_Suc)
  qed simp
  ultimately show ?thesis by (simp del: upt_Suc)
qed

text \<open>Only nine columns do anything.\<close>

definition used_columns :: "nat set" where
  "used_columns = {1, 4, 7, 8, 9, 31, 32, 33, 54}"

lemma set_column_unused: "i \<notin> used_columns \<Longrightarrow> set_column i f sc = sc"
  by (simp add: set_column_def used_columns_def column_numbers)

lemma set_columns_fold:
  "set_columns i fs sc = fold (\<lambda>j. set_column j (fs ! (j - i))) [i..<i + length fs] sc"
proof (induction fs arbitrary: i sc)
  case (Cons f fs)
  have "[i..<i + length (f # fs)] = i # [Suc i..<Suc i + length fs]"
    by (simp add: upt_rec [of i] Suc_le_eq)
  moreover have "fold (\<lambda>j. set_column j ((f # fs) ! (j - i))) [Suc i..<Suc i + length fs] t
      = fold (\<lambda>j. set_column j (fs ! (j - Suc i))) [Suc i..<Suc i + length fs] t" for t
    by (rule fold_cong) (auto simp: nth_Cons')
  ultimately show ?case by (simp add: Cons del: upt_Suc)
qed simp

lemma fold_set_column_filter:
  "fold (\<lambda>j. set_column j (g j)) js sc = fold (\<lambda>j. set_column j (g j)) (filter (\<lambda>j. j \<in> used_columns) js) sc"
  by (induction js arbitrary: sc) (simp_all add: set_column_unused)

lemma filter_used_columns:
  assumes "54 \<le> n"
  shows "filter (\<lambda>j. j \<in> used_columns) [1..<Suc n] = [1, 4, 7, 8, 9, 31, 32, 33, 54]"
proof -
  have "[1..<Suc n] = [1..<55] @ [55..<Suc n]"
    using upt_add_eq_append [of 1 55 "Suc n - 55"] assms by (simp del: upt_Suc)
  moreover have "filter (\<lambda>j. j \<in> used_columns) [55..<Suc n] = []"
    by (auto simp: filter_empty_conv used_columns_def)
  moreover have "filter (\<lambda>j. j \<in> used_columns) [1..<55] = [1, 4, 7, 8, 9, 31, 32, 33, 54]"
    unfolding used_columns_def by code_simp
  ultimately show ?thesis by (simp only: filter_append append_Nil2)
qed

text \<open>What a contract line stands for: the record its columns describe.\<close>

definition scrip_type :: "string \<Rightarrow> string \<Rightarrow> int" where
  "scrip_type strike series =
    (if take 2 series = ''PE'' then 3 else if take 2 series = ''CE'' then 2
     else if atoi strike = - 1 then 1 else 0)"

definition scrip_of_columns :: "string list \<Rightarrow> OMSScripInfo" where
  "scrip_of_columns fs = \<lparr>nExpiryDate = atoi (fs ! 6),
     nStrikePrice = (if atoi (fs ! 7) = - 1 then 0 else atoi (fs ! 7)),
     nToken = wrap32 (atol (fs ! 0)), nBoardLotQty = atoi (fs ! 31), nMinLotQty = atoi (fs ! 30),
     nTickSize = atoi (fs ! 32), nCustomInstrumentType = scrip_type (fs ! 7) (fs ! 8),
     cSymbol = take 10 (fs ! 3), cSeries = take 2 (fs ! 8), cSymbolName = take 25 (fs ! 53),
     nBoardLotQty2 = 0, nTotalTraded = 0\<rparr>"

lemma set_columns_scrip:
  assumes "54 \<le> length fs"
  shows "set_columns 1 fs OMSScripInfo_zero = scrip_of_columns fs"
proof -
  have "set_columns 1 fs OMSScripInfo_zero
      = fold (\<lambda>j. set_column j (fs ! (j - 1))) [1, 4, 7, 8, 9, 31, 32, 33, 54] OMSScripInfo_zero"
    unfolding set_columns_fold plus_1_eq_Suc fold_set_column_filter [of _ "[1..<Suc (length fs)]"]
    by (simp only: filter_used_columns [OF assms])
  also have "\<dots> = scrip_of_columns fs"
    by (simp add: set_column_def column_numbers array_lengths set_strike_def set_series_def
      OMSScripInfo_zero_def scrip_of_columns_def scrip_type_def Let_def)
  finally show ?thesis .
qed

lemma digest_line_scrip:
  assumes "\<forall>f \<in> set fs. CHR ''|'' \<notin> set f" and "CHR ''|'' \<notin> set rest"
    and "CHR 0x00 \<notin> set (bar_line fs rest)" and "54 \<le> length fs"
  shows "digest_line (bar_line fs rest) = scrip_of_columns fs"
proof -
  have "takeWhile (\<lambda>c. c \<noteq> CHR 0x00) (bar_line fs rest) = bar_line fs rest"
    using assms(3) by (auto simp: takeWhile_eq_all_conv)
  then have "digest_line (bar_line fs rest)
      = snd (fold (digest_column (bar_line fs rest)) [1..<69] (0, OMSScripInfo_zero))"
    unfolding digest_line_def Let_def by (rule arg_cong)
  also have "\<dots> = set_columns 1 (take 68 fs) OMSScripInfo_zero"
    using fold_digest_bar_line [OF assms(1,2), of 68 OMSScripInfo_zero] by simp
  also have "\<dots> = scrip_of_columns (take 68 fs)"
    using assms(4) by (intro set_columns_scrip) simp
  also have "\<dots> = scrip_of_columns fs"
    by (simp add: scrip_of_columns_def)
  finally show ?thesis .
qed

section \<open>The table\<close>

lemma insert_scrip_lookup:
  "insert_scrip sc m t = (if m t = None \<and> nToken sc = t then Some sc else m t)"
  by (auto simp: insert_scrip_def)

lemma fold_insert_scrip:
  "fold insert_scrip scs m = map_of (map (\<lambda>sc. (nToken sc, sc)) scs) ++ m"
  by (induction scs arbitrary: m)
    (auto simp: fun_eq_iff insert_scrip_lookup map_add_def split: option.splits)

lemma FileDigester_table:
  "FileDigester (Some (version # ls)) m =
    (1, map_of (map (\<lambda>l. (nToken (digest_line l), digest_line l)) ls) ++ m)"
proof -
  have "fold (\<lambda>l. insert_scrip (digest_line l)) ls m = fold insert_scrip (map digest_line ls) m"
    by (simp add: fold_map comp_def)
  then show ?thesis
    by (simp add: FileDigester_def fold_insert_scrip comp_def)
qed

section \<open>A small table for evaluation\<close>

definition sample_scrip :: "int \<Rightarrow> int \<Rightarrow> int \<Rightarrow> OMSScripInfo" where
  "sample_scrip token ty k = OMSScripInfo_zero\<lparr>nToken := token, nCustomInstrumentType := ty,
     OMSScripInfo.nStrikePrice := k, nExpiryDate := 1000, nBoardLotQty := 5, cSymbol := ''NIFTY''\<rparr>"

text \<open>A future (1), the calls of strikes 100 (2) and 200 (4), and the put of strike 100 (3).\<close>

definition sample_table :: TOKENDATA_STORE where
  "sample_table = [1 \<mapsto> sample_scrip 1 1 0, 2 \<mapsto> sample_scrip 2 2 100, 3 \<mapsto> sample_scrip 3 3 100,
     4 \<mapsto> sample_scrip 4 2 200]"

lemma sample_scrip_simps [simp]:
  "nCustomInstrumentType (sample_scrip t ty k) = ty" "OMSScripInfo.nStrikePrice (sample_scrip t ty k) = k"
  "nExpiryDate (sample_scrip t ty k) = 1000" "nBoardLotQty (sample_scrip t ty k) = 5"
  "cSymbol (sample_scrip t ty k) = ''NIFTY''"
  by (simp_all add: sample_scrip_def)

lemma sample_table_simps [simp]:
  "sample_table 1 = Some (sample_scrip 1 1 0)" "sample_table 2 = Some (sample_scrip 2 2 100)"
  "sample_table 3 = Some (sample_scrip 3 3 100)" "sample_table 4 = Some (sample_scrip 4 2 200)"
  "sample_table 9 = None" "dom sample_table = {1, 2, 3, 4}"
  by (auto simp: sample_table_def)

section \<open>Properties\<close>

text \<open>
  C32. A line of the contract file with at least 54 columns, each closed by a bar, becomes the record
  its columns describe: token, symbol, expiry, strike, series, lot sizes, tick and name, and the
  instrument type 1 (future, strike \<open>-1\<close>), 2 (call) or 3 (put); columns the program does not
  name have no influence, and neither has what follows the last bar.
\<close>

lemma contract_line:
  assumes "\<forall>f \<in> set fs. CHR ''|'' \<notin> set f" and "CHR ''|'' \<notin> set rest"
    and "CHR 0x00 \<notin> set (bar_line fs rest)" and "54 \<le> length fs"
  shows "digest_line (bar_line fs rest) = scrip_of_columns fs"
  by (rule digest_line_scrip [OF assms])

lemma contract_line_witness:
  "let fs = [''35001'', ''x'', ''OPTIDX'', ''NIFTY'', ''x'', ''x'', ''1000'', ''2500000'', ''CE''] @
        replicate 21 ''0'' @ [''75'', ''50'', ''5''] @ replicate 20 ''0'' @ [''NIFTY24CE''];
      sc = digest_line (bar_line fs ''tail'')
   in nToken sc = 35001 \<and> nCustomInstrumentType sc = 2 \<and> OMSScripInfo.nStrikePrice sc = 2500000 \<and>
      nExpiryDate sc = 1000 \<and> nBoardLotQty sc = 50 \<and> cSymbol sc = ''NIFTY''"
proof -
  let ?fs = "[''35001'', ''x'', ''OPTIDX'', ''NIFTY'', ''x'', ''x'', ''1000'', ''2500000'', ''CE''] @
        replicate 21 ''0'' @ [''75'', ''50'', ''5''] @ replicate 20 ''0'' @ [''NIFTY24CE'']"
  have "digest_line (bar_line ?fs ''tail'') = scrip_of_columns ?fs"
    by (rule contract_line) (simp_all add: bar_line_def)
  then show ?thesis
    by (simp add: Let_def scrip_of_columns_def scrip_type_def atoi_def atol_def is_space_def is_digit_def
      digits_value_def nth_append wrap32_small del: upt_Suc)
qed

text \<open>
  C33. Reading a contract file adds, for every token that the table does not hold yet, the record of
  the first line with that token; later lines of the same token change nothing, and neither does
  the version line. The result is 1 whatever was read.
\<close>

lemma contract_file:
  "FileDigester (Some (version # ls)) m =
    (1, \<lambda>t. case m t of Some sc \<Rightarrow> Some sc
         | None \<Rightarrow> map_option digest_line (find (\<lambda>l. nToken (digest_line l) = t) ls))"
proof -
  have "map_of (map (\<lambda>l. (nToken (digest_line l), digest_line l)) ls) t =
      map_option digest_line (find (\<lambda>l. nToken (digest_line l) = t) ls)" for t
    by (induction ls) auto
  then show ?thesis
    unfolding FileDigester_table by (auto simp: fun_eq_iff map_add_def split: option.splits)
qed

end
