(* ===== verification/Trades.thy ===== *)
theory Trades
  imports Contracts
begin

text \<open>
  The stored one-sided trades and the helpers that inspect and prune them, all of
  \<^verbatim>\<open>src/main.cpp\<close>: \<open>ValidateTradeMsgRecords\<close>, \<open>IsValidateConRev\<close>,
  \<open>DeletePacketTillExpiryDate\<close>, \<open>DeletePacketTillStrikePrice\<close>,
  \<open>SecondLevelOrderValidation\<close>, \<open>ResetExtraDetails\<close>, \<open>GetExtraDetails\<close> and
  \<open>GetMiddleQty\<close>.
\<close>

section \<open>The stores\<close>

type_synonym TOKEN_STORE = "int set"
type_synonym TRADE_MSG_STORE = "CompositeBcastMsg list"
type_synonym TRADE_VECTOR_STORE = "TRADE_MSG_STORE list"

definition trd :: "CompositeBcastMsg \<Rightarrow> TRD_MSG" where
  "trd m = stTrdMsg (stBcastMsg m)"

definition tok :: "CompositeBcastMsg \<Rightarrow> int" where
  "tok m = TRD_MSG.nToken (trd m)"

definition qty :: "CompositeBcastMsg \<Rightarrow> int" where
  "qty m = nTradeQty (trd m)"

definition buyId :: "CompositeBcastMsg \<Rightarrow> int" where
  "buyId m = dbl_to_int64 (dblBuyOrdID (trd m))"

definition sellId :: "CompositeBcastMsg \<Rightarrow> int" where
  "sellId m = dbl_to_int64 (dblSellOrdID (trd m))"

text \<open>\<open>(b == 0 && s == 0) || (b != 0 && s != 0)\<close>: a trade with no or with two known sides.\<close>

definition not_one_sided :: "CompositeBcastMsg \<Rightarrow> bool" where
  "not_one_sided m \<longleftrightarrow> (buyId m = 0 \<and> sellId m = 0) \<or> (buyId m \<noteq> 0 \<and> sellId m \<noteq> 0)"

text \<open>
  \<open>itr = table.find(token); if(itr != table.end()) p = itr->second;\<close> leaves the pointer \<open>p\<close>
  as it was when the token is not in the table.
\<close>

definition find_into :: "TOKENDATA_STORE \<Rightarrow> int \<Rightarrow> OMSScripInfo option \<Rightarrow> OMSScripInfo option" where
  "find_into tbl t p = (case tbl t of Some i \<Rightarrow> Some i | None \<Rightarrow> p)"

section \<open>ValidateTradeMsgRecords\<close>

record token_scan =
  tsFut :: bool
  tsPut :: bool
  tsCall :: bool
  tsStrike1 :: int
  tsStrike2 :: int
  tsExpiry1 :: int
  tsExpiry2 :: int
  tsExpiry3 :: int
  tsStatus :: bool

definition token_scan_init :: token_scan where
  "token_scan_init = \<lparr>tsFut = False, tsPut = False, tsCall = False, tsStrike1 = 0, tsStrike2 = 0,
     tsExpiry1 = 0, tsExpiry2 = 0, tsExpiry3 = 0, tsStatus = False\<rparr>"

definition token_scan_leg :: "OMSScripInfo \<Rightarrow> token_scan \<Rightarrow> token_scan" where
  "token_scan_leg i s =
    (if nCustomInstrumentType i = 1 then s\<lparr>tsFut := True, tsExpiry1 := nExpiryDate i\<rparr>
     else if nCustomInstrumentType i = 2 then
       s\<lparr>tsCall := True, tsStrike1 := nStrikePrice i, tsExpiry2 := nExpiryDate i\<rparr>
     else if nCustomInstrumentType i = 3 then
       s\<lparr>tsPut := True, tsStrike2 := nStrikePrice i, tsExpiry3 := nExpiryDate i\<rparr>
     else s)"

definition token_scan_complete :: "token_scan \<Rightarrow> bool" where
  "token_scan_complete s \<longleftrightarrow>
     (tsFut s \<and> tsPut s \<and> tsCall s) \<and> tsStrike1 s = tsStrike2 s \<and>
     (tsExpiry3 s = tsExpiry2 s \<and> tsExpiry2 s = tsExpiry1 s)"

definition token_scan_step :: "TOKENDATA_STORE \<Rightarrow> int \<Rightarrow> token_scan \<Rightarrow> token_scan" where
  "token_scan_step tbl t s =
    (case tbl t of
       None \<Rightarrow> s
     | Some i \<Rightarrow>
         (let s1 = token_scan_leg i s
          in if token_scan_complete s1 then s1\<lparr>tsStatus := True\<rparr> else s1))"

text \<open>The loop over the \<open>std::set\<close> visits the tokens in ascending order.\<close>

definition token_status :: "TOKENDATA_STORE \<Rightarrow> TOKEN_STORE \<Rightarrow> bool" where
  "token_status tbl ts =
     tsStatus (fold (token_scan_step tbl) (sorted_list_of_set ts) token_scan_init)"

record sides =
  lcFutBuySell :: byte
  lcPutBuySell :: byte
  lcCallBuySell :: byte

definition sides_init :: sides where
  "sides_init = \<lparr>lcFutBuySell = 0, lcPutBuySell = 0, lcCallBuySell = 0\<rparr>"

text \<open>\<open>if(buy == 0) x = 'B'; if(sell == 0) x = 'S';\<close>\<close>

definition side_of :: "CompositeBcastMsg \<Rightarrow> byte \<Rightarrow> byte" where
  "side_of m c =
    (let c1 = (if buyId m = 0 then BUY_INDICATOR_CHAR else c)
     in if sellId m = 0 then SELL_INDICATOR_CHAR else c1)"

definition side_leg :: "OMSScripInfo \<Rightarrow> CompositeBcastMsg \<Rightarrow> sides \<Rightarrow> sides" where
  "side_leg i m s =
    (if nCustomInstrumentType i = 1 then s\<lparr>lcFutBuySell := side_of m (lcFutBuySell s)\<rparr>
     else if nCustomInstrumentType i = 2 then s\<lparr>lcCallBuySell := side_of m (lcCallBuySell s)\<rparr>
     else if nCustomInstrumentType i = 3 then s\<lparr>lcPutBuySell := side_of m (lcPutBuySell s)\<rparr>
     else s)"

definition side_step :: "TOKENDATA_STORE \<Rightarrow> CompositeBcastMsg \<Rightarrow> sides \<Rightarrow> sides res" where
  "side_step tbl m s = bindR (deref (find_into tbl (tok m) None)) (\<lambda>i. Inr (side_leg i m s))"

text \<open>Future and put on one side, call on the other.\<close>

definition sides_match :: "sides \<Rightarrow> bool" where
  "sides_match s \<longleftrightarrow>
     (lcFutBuySell s = BUY_INDICATOR_CHAR \<and> lcPutBuySell s = BUY_INDICATOR_CHAR \<and>
      lcCallBuySell s = SELL_INDICATOR_CHAR) \<or>
     (lcFutBuySell s = SELL_INDICATOR_CHAR \<and> lcPutBuySell s = SELL_INDICATOR_CHAR \<and>
      lcCallBuySell s = BUY_INDICATOR_CHAR)"

fun validate_loop ::
  "TOKENDATA_STORE \<Rightarrow> TRADE_MSG_STORE \<Rightarrow> bool \<Rightarrow> TRADE_MSG_STORE \<Rightarrow> sides \<Rightarrow> bool res" where
  "validate_loop tbl store st [] s = Inr False"
| "validate_loop tbl store st (m # ms) s =
     bindR (side_step tbl m s) (\<lambda>s1.
     bindR (foldR (side_step tbl) store s1) (\<lambda>s2.
       if sides_match s2 \<and> st then Inr True else validate_loop tbl store st ms s2))"

definition ValidateTradeMsgRecords ::
  "TRADE_MSG_STORE \<Rightarrow> TOKEN_STORE \<Rightarrow> TOKENDATA_STORE \<Rightarrow> bool res" where
  "ValidateTradeMsgRecords store ts tbl =
    (if ts \<noteq> {} \<and> 3 \<le> card ts
     then validate_loop tbl store (token_status tbl ts) store sides_init
     else Inr False)"

section \<open>IsValidateConRev\<close>

record conrev_scan =
  csFutQty :: int
  csCallQty :: int
  csPutQty :: int
  csFut :: bool
  csPut :: bool
  csCall :: bool
  csStrike1 :: int
  csStrike2 :: int
  csExpiry :: int
  csSides :: sides

definition conrev_scan_init :: conrev_scan where
  "conrev_scan_init = \<lparr>csFutQty = 0, csCallQty = 0, csPutQty = 0, csFut = False, csPut = False,
     csCall = False, csStrike1 = 0, csStrike2 = 0, csExpiry = 0, csSides = sides_init\<rparr>"

text \<open>One message of the loop; \<open>None\<close> is \<open>return false\<close>.\<close>

definition conrev_leg ::
  "OMSScripInfo \<Rightarrow> CompositeBcastMsg \<Rightarrow> conrev_scan \<Rightarrow> conrev_scan option" where
  "conrev_leg i m s =
    (if nCustomInstrumentType i = 1 then
       (if csFut s \<and> csExpiry s \<noteq> nExpiryDate i then None
        else Some (s\<lparr>csFut := True, csExpiry := nExpiryDate i, csSides := side_leg i m (csSides s),
               csFutQty := wrap32 (csFutQty s + qty m)\<rparr>))
     else if nCustomInstrumentType i = 2 then
       (if csCall s \<and> (csExpiry s \<noteq> nExpiryDate i \<or> csStrike1 s \<noteq> nStrikePrice i) then None
        else Some (s\<lparr>csCall := True, csStrike1 := nStrikePrice i, csExpiry := nExpiryDate i,
               csSides := side_leg i m (csSides s), csCallQty := wrap32 (csCallQty s + qty m)\<rparr>))
     else if nCustomInstrumentType i = 3 then
       (if csPut s \<and> (csExpiry s \<noteq> nExpiryDate i \<or> csStrike2 s \<noteq> nStrikePrice i) then None
        else Some (s\<lparr>csPut := True, csStrike2 := nStrikePrice i, csExpiry := nExpiryDate i,
               csSides := side_leg i m (csSides s), csPutQty := wrap32 (csPutQty s + qty m)\<rparr>))
     else Some s)"

fun conrev_loop ::
  "TOKENDATA_STORE \<Rightarrow> TRADE_MSG_STORE \<Rightarrow> conrev_scan \<Rightarrow> conrev_scan option res" where
  "conrev_loop tbl [] s = Inr (Some s)"
| "conrev_loop tbl (m # ms) s =
     (if not_one_sided m then Inr None
      else bindR (deref (find_into tbl (tok m) None)) (\<lambda>i.
        case conrev_leg i m s of None \<Rightarrow> Inr None | Some s1 \<Rightarrow> conrev_loop tbl ms s1))"

definition conrev_accept :: "conrev_scan \<Rightarrow> bool" where
  "conrev_accept s \<longleftrightarrow>
     (if csPutQty s \<noteq> csCallQty s \<or> csCallQty s \<noteq> csFutQty s then False
      else if \<not> csPut s \<or> \<not> csCall s \<or> \<not> csFut s then False
      else sides_match (csSides s))"

definition IsValidateConRev :: "TRADE_MSG_STORE \<Rightarrow> TOKENDATA_STORE \<Rightarrow> bool res" where
  "IsValidateConRev store tbl =
    bindR (conrev_loop tbl store conrev_scan_init) (\<lambda>r.
      case r of None \<Rightarrow> Inr False | Some s \<Rightarrow> Inr (conrev_accept s))"

section \<open>Pruning: DeletePacketTillExpiryDate and DeletePacketTillStrikePrice\<close>

text \<open>
  The inner loop erases the first message of another expiry; the outer one repeats it as often
  as there were messages.
\<close>

fun expiry_scan ::
  "TOKENDATA_STORE \<Rightarrow> int \<Rightarrow> OMSScripInfo option \<Rightarrow> TRADE_MSG_STORE \<Rightarrow> TRADE_MSG_STORE res" where
  "expiry_scan tbl e p [] = Inr []"
| "expiry_scan tbl e p (m # ms) =
     (let p1 = find_into tbl (tok m) p
      in bindR (deref p1) (\<lambda>i.
        if e \<noteq> nExpiryDate i then Inr ms
        else bindR (expiry_scan tbl e p1 ms) (\<lambda>r. Inr (m # r))))"

fun expiry_rounds ::
  "TOKENDATA_STORE \<Rightarrow> int \<Rightarrow> nat \<Rightarrow> TRADE_MSG_STORE \<Rightarrow> TRADE_MSG_STORE res" where
  "expiry_rounds tbl e 0 v = Inr v"
| "expiry_rounds tbl e (Suc n) v = bindR (expiry_scan tbl e None v) (expiry_rounds tbl e n)"

definition DeletePacketTillExpiryDate ::
  "TRADE_MSG_STORE \<Rightarrow> TOKENDATA_STORE \<Rightarrow> int \<Rightarrow> TRADE_MSG_STORE res" where
  "DeletePacketTillExpiryDate v tbl e =
    (if v = [] then Inr v else expiry_rounds tbl e (length v) v)"

text \<open>The strike version returns at the first future it meets (the flag).\<close>

fun strike_scan ::
  "TOKENDATA_STORE \<Rightarrow> int \<Rightarrow> OMSScripInfo option \<Rightarrow> TRADE_MSG_STORE \<Rightarrow> (bool \<times> TRADE_MSG_STORE) res" where
  "strike_scan tbl k p [] = Inr (False, [])"
| "strike_scan tbl k p (m # ms) =
     (let p1 = find_into tbl (tok m) p
      in bindR (deref p1) (\<lambda>i.
        if nCustomInstrumentType i = 1 then Inr (True, m # ms)
        else if k \<noteq> nStrikePrice i then Inr (False, ms)
        else bindR (strike_scan tbl k p1 ms) (\<lambda>(stop, r). Inr (stop, m # r))))"

fun strike_rounds ::
  "TOKENDATA_STORE \<Rightarrow> int \<Rightarrow> nat \<Rightarrow> TRADE_MSG_STORE \<Rightarrow> TRADE_MSG_STORE res" where
  "strike_rounds tbl k 0 v = Inr v"
| "strike_rounds tbl k (Suc n) v =
     bindR (strike_scan tbl k None v) (\<lambda>(stop, r).
       if stop then Inr r else strike_rounds tbl k n r)"

definition DeletePacketTillStrikePrice ::
  "TRADE_MSG_STORE \<Rightarrow> TOKENDATA_STORE \<Rightarrow> int \<Rightarrow> TRADE_MSG_STORE res" where
  "DeletePacketTillStrikePrice v tbl k =
    (if v = [] then Inr v else strike_rounds tbl k (length v) v)"

section \<open>SecondLevelOrderValidation\<close>

text \<open>
  The loop erases leading messages of the given instrument type. It has no emptiness test: after
  the last message is erased, \<open>begin()\<close> of the empty vector is dereferenced.
\<close>

fun second_level_loop ::
  "TOKENDATA_STORE \<Rightarrow> int \<Rightarrow> OMSScripInfo option \<Rightarrow> TRADE_MSG_STORE \<Rightarrow> TRADE_MSG_STORE res" where
  "second_level_loop tbl ty p [] = Inl EndDeref"
| "second_level_loop tbl ty p (m # ms) =
     bindR (deref p) (\<lambda>i.
       if nCustomInstrumentType i = ty
       then (case ms of
               [] \<Rightarrow> Inl EndDeref
             | m1 # _ \<Rightarrow> second_level_loop tbl ty (find_into tbl (tok m1) p) ms)
       else Inr (m # ms))"

definition SecondLevelOrderValidation ::
  "int \<Rightarrow> TRADE_MSG_STORE \<Rightarrow> TOKENDATA_STORE \<Rightarrow> TRADE_MSG_STORE res" where
  "SecondLevelOrderValidation ty v tbl =
    (if v = [] \<or> (v \<noteq> [] \<and> length v = 1) then Inr v
     else second_level_loop tbl ty (find_into tbl (tok (hd v)) None) v)"

section \<open>ResetExtraDetails and GetExtraDetails\<close>

text \<open>The locals of \<open>SplitTrade\<close> that both functions take by reference.\<close>

record details =
  lcTokenStore :: TOKEN_STORE
  lnFutQty :: int
  lnCallQty :: int
  lnPutQty :: int
  lnStrikePrice :: int
  lbFutToken :: bool
  lbPutToken :: bool
  lbCallToken :: bool
  lnLastExpiryDate :: int
  lnLastCustomInstrumentType :: int

definition ResetExtraDetails :: "details \<Rightarrow> details" where
  "ResetExtraDetails d = d\<lparr>lcTokenStore := {}, lnFutQty := 0, lnCallQty := 0, lnPutQty := 0,
     lnStrikePrice := 0, lbFutToken := False, lbPutToken := False, lbCallToken := False,
     lnLastExpiryDate := 0, lnLastCustomInstrumentType := 0\<rparr>"

text \<open>What a message of a leg adds; \<open>SplitTrade\<close> makes the same assignments for the current
  message.\<close>

definition detail_leg :: "OMSScripInfo \<Rightarrow> CompositeBcastMsg \<Rightarrow> details \<Rightarrow> details" where
  "detail_leg i m d =
    (if nCustomInstrumentType i = 1 then
       d\<lparr>lbFutToken := True, lnLastExpiryDate := nExpiryDate i,
         lnLastCustomInstrumentType := nCustomInstrumentType i,
         lnFutQty := wrap32 (lnFutQty d + qty m)\<rparr>
     else if nCustomInstrumentType i = 2 then
       d\<lparr>lbCallToken := True, lnLastExpiryDate := nExpiryDate i, lnStrikePrice := nStrikePrice i,
         lnLastCustomInstrumentType := nCustomInstrumentType i,
         lnCallQty := wrap32 (lnCallQty d + qty m)\<rparr>
     else if nCustomInstrumentType i = 3 then
       d\<lparr>lbPutToken := True, lnLastExpiryDate := nExpiryDate i, lnStrikePrice := nStrikePrice i,
         lnLastCustomInstrumentType := nCustomInstrumentType i,
         lnPutQty := wrap32 (lnPutQty d + qty m)\<rparr>
     else d)"

definition detail_step :: "TOKENDATA_STORE \<Rightarrow> CompositeBcastMsg \<Rightarrow> details \<Rightarrow> details res" where
  "detail_step tbl m d =
    bindR (deref_itr (tbl (tok m))) (\<lambda>i.
      Inr (detail_leg i m (d\<lparr>lcTokenStore := insert (tok m) (lcTokenStore d)\<rparr>)))"

definition GetExtraDetails :: "TRADE_MSG_STORE \<Rightarrow> details \<Rightarrow> TOKENDATA_STORE \<Rightarrow> details res" where
  "GetExtraDetails v d tbl = foldR (detail_step tbl) v d"

section \<open>GetMiddleQty\<close>

record middle_scan =
  mdFutQty :: int
  mdCallQty :: int
  mdPutQty :: int
  mdLastUpdateQty :: int
  mdCount :: int
  mdIndex :: nat
  mdFut :: bool
  mdCall :: bool
  mdPut :: bool
  mdStart :: nat

definition middle_scan_init :: "nat \<Rightarrow> middle_scan" where
  "middle_scan_init nStartIndex = \<lparr>mdFutQty = 0, mdCallQty = 0, mdPutQty = 0, mdLastUpdateQty = 0,
     mdCount = 0, mdIndex = 0, mdFut = False, mdCall = False, mdPut = False,
     mdStart = nStartIndex\<rparr>"

text \<open>One message; \<open>None\<close> is the early \<open>return\<close> at the first message of the third leg.\<close>

definition middle_leg :: "OMSScripInfo \<Rightarrow> CompositeBcastMsg \<Rightarrow> middle_scan \<Rightarrow> middle_scan option" where
  "middle_leg i m s =
    (if nCustomInstrumentType i = 1 then
       (if mdCount s = 2 \<and> \<not> mdFut s then None
        else Some (s\<lparr>mdStart := (if mdCount s = 1 \<and> \<not> mdFut s then mdIndex s else mdStart s),
               mdFutQty := wrap32 (mdFutQty s + qty m),
               mdLastUpdateQty := wrap32 (mdFutQty s + qty m),
               mdCount := (if mdFut s then mdCount s else mdCount s + 1), mdFut := True\<rparr>))
     else if nCustomInstrumentType i = 2 then
       (if mdCount s = 2 \<and> \<not> mdCall s then None
        else Some (s\<lparr>mdStart := (if mdCount s = 1 \<and> \<not> mdCall s then mdIndex s else mdStart s),
               mdCallQty := wrap32 (mdCallQty s + qty m),
               mdLastUpdateQty := wrap32 (mdCallQty s + qty m),
               mdCount := (if mdCall s then mdCount s else mdCount s + 1), mdCall := True\<rparr>))
     else if nCustomInstrumentType i = 3 then
       (if mdCount s = 2 \<and> \<not> mdPut s then None
        else Some (s\<lparr>mdStart := (if mdCount s = 1 \<and> \<not> mdPut s then mdIndex s else mdStart s),
               mdPutQty := wrap32 (mdPutQty s + qty m),
               mdLastUpdateQty := wrap32 (mdPutQty s + qty m),
               mdCount := (if mdPut s then mdCount s else mdCount s + 1), mdPut := True\<rparr>))
     else Some s)"

text \<open>The result is \<open>(nQty, nStartIndex, nEndIndex)\<close>.\<close>

fun middle_loop ::
  "TOKENDATA_STORE \<Rightarrow> int \<Rightarrow> nat \<Rightarrow> TRADE_MSG_STORE \<Rightarrow> middle_scan \<Rightarrow> (int \<times> nat \<times> nat) res" where
  "middle_loop tbl q e [] s = Inr (q, mdStart s, e)"
| "middle_loop tbl q e (m # ms) s =
     bindR (deref_itr (tbl (tok m))) (\<lambda>i.
       case middle_leg i m s of
         None \<Rightarrow> Inr (mdLastUpdateQty s, mdStart s, mdIndex s)
       | Some s1 \<Rightarrow> middle_loop tbl q e ms (s1\<lparr>mdIndex := mdIndex s1 + 1\<rparr>))"

definition GetMiddleQty ::
  "int \<Rightarrow> TRADE_MSG_STORE \<Rightarrow> TOKENDATA_STORE \<Rightarrow> nat \<Rightarrow> nat \<Rightarrow> (int \<times> nat \<times> nat) res" where
  "GetMiddleQty lnQty v tbl nStartIndex nEndIndex =
     middle_loop tbl lnQty nEndIndex v (middle_scan_init nStartIndex)"

section \<open>Messages of known contracts\<close>

text \<open>
  Every helper looks the token of a message up and uses the entry without a test. \<open>known\<close> says
  that all lookups succeed; under it each helper has a closed form over \<open>info_of\<close>.
\<close>

definition known :: "TOKENDATA_STORE \<Rightarrow> TRADE_MSG_STORE \<Rightarrow> bool" where
  "known tbl v \<longleftrightarrow> (\<forall>m \<in> set v. tbl (tok m) \<noteq> None)"

definition info_of :: "TOKENDATA_STORE \<Rightarrow> CompositeBcastMsg \<Rightarrow> OMSScripInfo" where
  "info_of tbl m = the (tbl (tok m))"

abbreviation itype :: "TOKENDATA_STORE \<Rightarrow> CompositeBcastMsg \<Rightarrow> int" where
  "itype tbl m \<equiv> nCustomInstrumentType (info_of tbl m)"

abbreviation expiry :: "TOKENDATA_STORE \<Rightarrow> CompositeBcastMsg \<Rightarrow> int" where
  "expiry tbl m \<equiv> nExpiryDate (info_of tbl m)"

abbreviation strike :: "TOKENDATA_STORE \<Rightarrow> CompositeBcastMsg \<Rightarrow> int" where
  "strike tbl m \<equiv> nStrikePrice (info_of tbl m)"

lemma known_simps [simp]:
  "known tbl []"
  "known tbl (m # v) \<longleftrightarrow> tbl (tok m) \<noteq> None \<and> known tbl v"
  "known tbl (u @ v) \<longleftrightarrow> known tbl u \<and> known tbl v"
  by (auto simp: known_def)

lemma known_subset: "known tbl v \<Longrightarrow> set u \<subseteq> set v \<Longrightarrow> known tbl u"
  by (auto simp: known_def)

lemma known_lookup: "tbl (tok m) \<noteq> None \<Longrightarrow> tbl (tok m) = Some (info_of tbl m)"
  by (auto simp: info_of_def)

lemma find_into_known [simp]:
  "tbl (tok m) \<noteq> None \<Longrightarrow> find_into tbl (tok m) p = Some (info_of tbl m)"
  by (auto simp: find_into_def info_of_def)

lemma knownD: "known tbl v \<Longrightarrow> m \<in> set v \<Longrightarrow> tbl (tok m) \<noteq> None"
  by (simp add: known_def)

subsection \<open>The pruning loops are filters\<close>

lemma expiry_scan_known:
  "known tbl v \<Longrightarrow> expiry_scan tbl e p v =
     Inr (takeWhile (\<lambda>m. expiry tbl m = e) v @ tl (dropWhile (\<lambda>m. expiry tbl m = e) v))"
  by (induction v arbitrary: p) (auto simp: Let_def)

text \<open>Erasing the first bad element as often as there are bad elements leaves the good ones.\<close>

lemma filter_erase_first:
  "filter P (takeWhile P v @ tl (dropWhile P v)) = filter P v"
  by (induction v) auto

lemma length_erase_first:
  "length (filter (\<lambda>x. \<not> P x) (takeWhile P v @ tl (dropWhile P v)))
    = length (filter (\<lambda>x. \<not> P x) v) - 1"
  by (induction v) (auto simp: filter_empty_conv)

lemma set_erase_first: "set (takeWhile P v @ tl (dropWhile P v)) \<subseteq> set v"
  by (induction v) (auto dest: list.set_sel(2) set_takeWhileD)

lemma expiry_rounds_known:
  assumes "known tbl v" and "length (filter (\<lambda>m. expiry tbl m \<noteq> e) v) \<le> n"
  shows "expiry_rounds tbl e n v = Inr (filter (\<lambda>m. expiry tbl m = e) v)"
  using assms
proof (induction n arbitrary: v)
  case 0
  then show ?case by (simp add: filter_empty_conv filter_id_conv)
next
  case (Suc n)
  let ?P = "\<lambda>m. expiry tbl m = e"
  let ?v = "takeWhile ?P v @ tl (dropWhile ?P v)"
  have "known tbl ?v" using Suc.prems(1) set_erase_first by (rule known_subset)
  moreover have "length (filter (\<lambda>m. \<not> ?P m) ?v) \<le> n"
    unfolding length_erase_first using Suc.prems(2) by simp
  ultimately have "expiry_rounds tbl e n ?v = Inr (filter ?P ?v)" by (rule Suc.IH)
  then show ?case
    by (simp only: expiry_rounds.simps expiry_scan_known [OF Suc.prems(1)] bindR_simps filter_erase_first)
qed

lemma DeletePacketTillExpiryDate_known:
  "known tbl v \<Longrightarrow>
   DeletePacketTillExpiryDate v tbl e = Inr (filter (\<lambda>m. expiry tbl m = e) v)"
  by (simp add: DeletePacketTillExpiryDate_def expiry_rounds_known)

text \<open>The strike version prunes only what precedes the first future.\<close>

definition prune_strike :: "TOKENDATA_STORE \<Rightarrow> int \<Rightarrow> TRADE_MSG_STORE \<Rightarrow> TRADE_MSG_STORE" where
  "prune_strike tbl k v =
     filter (\<lambda>m. strike tbl m = k) (takeWhile (\<lambda>m. itype tbl m \<noteq> 1) v) @
     dropWhile (\<lambda>m. itype tbl m \<noteq> 1) v"

lemma set_prune_strike: "set (prune_strike tbl k v) \<subseteq> set v"
  by (auto simp: prune_strike_def dest: set_takeWhileD set_dropWhileD)

text \<open>One scan: it stops at a future if no message of another strike comes before it.\<close>

lemma strike_scan_known:
  "known tbl v \<Longrightarrow> strike_scan tbl k p v = Inr (
     let a = takeWhile (\<lambda>m. itype tbl m \<noteq> 1 \<and> strike tbl m = k) v;
         b = dropWhile (\<lambda>m. itype tbl m \<noteq> 1 \<and> strike tbl m = k) v
     in if b = [] then (False, a) else if itype tbl (hd b) = 1 then (True, a @ b) else (False, a @ tl b))"
  by (induction v arbitrary: p) (auto simp: Let_def)

lemma prune_strike_Cons:
  "prune_strike tbl k (m # v) =
    (if itype tbl m = 1 then m # v
     else if strike tbl m = k then m # prune_strike tbl k v else prune_strike tbl k v)"
  by (simp add: prune_strike_def)

lemma strike_rounds_known:
  assumes "known tbl v"
    and "length (filter (\<lambda>m. strike tbl m \<noteq> k) (takeWhile (\<lambda>m. itype tbl m \<noteq> 1) v)) \<le> n"
  shows "strike_rounds tbl k n v = Inr (prune_strike tbl k v)"
  using assms
proof (induction n arbitrary: v)
  case 0
  then show ?case by (simp add: prune_strike_def filter_empty_conv filter_id_conv [THEN iffD2])
next
  case (Suc n)
  let ?Q = "\<lambda>m. itype tbl m \<noteq> 1 \<and> strike tbl m = k"
  define a where "a = takeWhile ?Q v"
  define b where "b = dropWhile ?Q v"
  have v: "v = a @ b" by (simp add: a_def b_def)
  have a: "\<forall>m \<in> set a. ?Q m" by (auto simp: a_def dest: set_takeWhileD)
  have pa: "prune_strike tbl k (a @ c) = a @ prune_strike tbl k c" for c
    using a by (induction a) (simp_all add: prune_strike_Cons)
  have ta: "takeWhile (\<lambda>m. itype tbl m \<noteq> 1) (a @ c) = a @ takeWhile (\<lambda>m. itype tbl m \<noteq> 1) c" for c
    using a by (induction a) simp_all
  have sc: "strike_scan tbl k None v = Inr (if b = [] then (False, a)
      else if itype tbl (hd b) = 1 then (True, a @ b) else (False, a @ tl b))"
    using strike_scan_known [OF Suc.prems(1)] by (simp add: a_def b_def Let_def)
  show ?case
  proof (cases b)
    case Nil
    with v a have "filter (\<lambda>m. strike tbl m \<noteq> k) (takeWhile (\<lambda>m. itype tbl m \<noteq> 1) v) = []"
      by (auto simp: filter_empty_conv dest: set_takeWhileD)
    with Suc.prems have "strike_rounds tbl k n v = Inr (prune_strike tbl k v)"
      by (intro Suc.IH) simp_all
    with sc Nil v show ?thesis by simp
  next
    case (Cons m c)
    show ?thesis
    proof (cases "itype tbl m = 1")
      case True
      with sc Cons v pa show ?thesis by (simp add: prune_strike_Cons)
    next
      case False
      have "\<not> ?Q m" using Cons hd_dropWhile [of ?Q v] unfolding b_def by simp
      with False have k: "strike tbl m \<noteq> k" by simp
      have "strike_rounds tbl k n (a @ c) = Inr (prune_strike tbl k (a @ c))"
        by (rule Suc.IH) (use Suc.prems v Cons False k in \<open>simp_all add: ta\<close>)
      with sc Cons v pa False k show ?thesis by (simp add: prune_strike_Cons)
    qed
  qed
qed

lemma DeletePacketTillStrikePrice_known:
  assumes "known tbl v"
  shows "DeletePacketTillStrikePrice v tbl k = Inr (prune_strike tbl k v)"
proof -
  let ?t = "takeWhile (\<lambda>m. itype tbl m \<noteq> 1) v"
  have "length (filter (\<lambda>m. strike tbl m \<noteq> k) ?t) \<le> length v"
    using length_filter_le length_takeWhile_le by (rule order_trans)
  with assms show ?thesis
    by (simp add: DeletePacketTillStrikePrice_def strike_rounds_known) (simp add: prune_strike_def)
qed

subsection \<open>SecondLevelOrderValidation drops a prefix\<close>

lemma second_level_loop_known:
  "known tbl (m # v) \<Longrightarrow> second_level_loop tbl ty (Some (info_of tbl m)) (m # v) =
    (let r = dropWhile (\<lambda>m. itype tbl m = ty) (m # v) in if r = [] then Inl EndDeref else Inr r)"
proof (induction v arbitrary: m)
  case (Cons m1 v)
  then show ?case by (simp add: Let_def)
qed (simp add: Let_def)

lemma SecondLevelOrderValidation_known:
  assumes "known tbl v" and "\<exists>m \<in> set v. itype tbl m \<noteq> ty"
  shows "SecondLevelOrderValidation ty v tbl =
    Inr (if length v = 1 then v else dropWhile (\<lambda>m. itype tbl m = ty) v)"
proof (cases v)
  case (Cons m w)
  have "dropWhile (\<lambda>m. itype tbl m = ty) v \<noteq> []"
    using assms(2) by (auto simp: dropWhile_eq_Nil_conv)
  with assms(1) Cons show ?thesis
    by (auto simp: SecondLevelOrderValidation_def second_level_loop_known Let_def
        simp del: dropWhile.simps second_level_loop.simps)
qed (use assms(2) in simp)

lemma SecondLevelOrderValidation_empties:
  assumes "known tbl v" and "\<forall>m \<in> set v. itype tbl m = ty" and "2 \<le> length v"
  shows "SecondLevelOrderValidation ty v tbl = Inl EndDeref"
proof (cases v)
  case (Cons m w)
  have "dropWhile (\<lambda>m. itype tbl m = ty) v = []"
    using assms(2) by simp
  with assms(1,3) Cons show ?thesis
    by (auto simp: SecondLevelOrderValidation_def second_level_loop_known Let_def
        simp del: dropWhile.simps second_level_loop.simps)
qed (use assms(3) in simp)

subsection \<open>GetExtraDetails accumulates\<close>

definition detail_add :: "TOKENDATA_STORE \<Rightarrow> CompositeBcastMsg \<Rightarrow> details \<Rightarrow> details" where
  "detail_add tbl m d =
     detail_leg (info_of tbl m) m (d\<lparr>lcTokenStore := insert (tok m) (lcTokenStore d)\<rparr>)"

lemma detail_step_known: "tbl (tok m) \<noteq> None \<Longrightarrow> detail_step tbl m d = Inr (detail_add tbl m d)"
  by (auto simp: detail_step_def detail_add_def info_of_def)

lemma GetExtraDetails_known:
  "known tbl v \<Longrightarrow> GetExtraDetails v d tbl = Inr (fold (detail_add tbl) v d)"
  unfolding GetExtraDetails_def by (rule foldR_pure) (simp add: detail_step_known knownD)

subsection \<open>The sides after a pass\<close>

definition side_add :: "TOKENDATA_STORE \<Rightarrow> CompositeBcastMsg \<Rightarrow> sides \<Rightarrow> sides" where
  "side_add tbl m s = side_leg (info_of tbl m) m s"

lemma side_step_known: "tbl (tok m) \<noteq> None \<Longrightarrow> side_step tbl m s = Inr (side_add tbl m s)"
  by (simp add: side_step_def side_add_def)

lemma foldR_side_known: "known tbl v \<Longrightarrow> foldR (side_step tbl) v s = Inr (fold (side_add tbl) v s)"
  by (rule foldR_pure) (simp add: side_step_known knownD)

text \<open>The side of one leg: the last message of the leg that has a side sets it.\<close>

definition leg_side :: "TOKENDATA_STORE \<Rightarrow> int \<Rightarrow> TRADE_MSG_STORE \<Rightarrow> byte \<Rightarrow> byte" where
  "leg_side tbl ty v c = fold side_of (filter (\<lambda>m. itype tbl m = ty) v) c"

lemma fold_side_add:
  "fold (side_add tbl) v s = \<lparr>lcFutBuySell = leg_side tbl 1 v (lcFutBuySell s),
     lcPutBuySell = leg_side tbl 3 v (lcPutBuySell s),
     lcCallBuySell = leg_side tbl 2 v (lcCallBuySell s)\<rparr>"
  by (induction v arbitrary: s) (auto simp: leg_side_def side_add_def side_leg_def)

lemma side_of_idem: "side_of m (side_of m c) = side_of m c"
  by (simp add: side_of_def Let_def)

lemma side_of_const: "side_of m c = c \<or> (\<forall>d. side_of m d = side_of m c)"
  by (auto simp: side_of_def Let_def)

lemma fold_side_of_absorb: "m \<in> set v \<Longrightarrow> fold side_of v (side_of m c) = fold side_of v c"
proof -
  assume "m \<in> set v"
  then obtain a b where v: "v = a @ m # b" by (auto simp: in_set_conv_decomp)
  show ?thesis
  proof (cases "side_of m c = c")
    case False
    then have "\<forall>d. side_of m d = side_of m c" using side_of_const by blast
    then have "side_of m (fold side_of a (side_of m c)) = side_of m (fold side_of a c)"
      by (metis)
    then show ?thesis by (simp add: v)
  qed simp
qed

lemma leg_side_absorb:
  "m \<in> set v \<Longrightarrow> itype tbl m = ty \<Longrightarrow> leg_side tbl ty v (side_of m c) = leg_side tbl ty v c"
  by (simp add: leg_side_def fold_side_of_absorb)

lemma fold_side_absorb: "m \<in> set v \<Longrightarrow> fold (side_add tbl) v (side_add tbl m s) = fold (side_add tbl) v s"
  by (simp add: fold_side_add) (simp add: side_add_def side_leg_def leg_side_absorb)

lemma leg_side_idem: "leg_side tbl ty v (leg_side tbl ty v c) = leg_side tbl ty v c"
proof -
  have "fold side_of w (fold side_of u c) = fold side_of w c" if "set u \<subseteq> set w" for u w
    using that by (induction u arbitrary: c) (simp_all add: fold_side_of_absorb)
  then show ?thesis by (simp add: leg_side_def)
qed

text \<open>
  The nested loops of \<open>ValidateTradeMsgRecords\<close> go over all messages once per message; one pass
  decides.
\<close>

definition store_sides :: "TOKENDATA_STORE \<Rightarrow> TRADE_MSG_STORE \<Rightarrow> sides" where
  "store_sides tbl v = fold (side_add tbl) v sides_init"

lemma validate_loop_known:
  assumes "known tbl store" and "set ms \<subseteq> set store"
  shows "validate_loop tbl store st ms s =
    Inr (ms \<noteq> [] \<and> st \<and> sides_match (fold (side_add tbl) store s))"
  using assms(2)
proof (induction ms arbitrary: s)
  case (Cons m ms)
  let ?F = "fold (side_add tbl) store"
  have m: "m \<in> set store" using Cons.prems by simp
  then have "side_step tbl m s = Inr (side_add tbl m s)"
    using assms(1) by (simp add: side_step_known knownD)
  moreover have "foldR (side_step tbl) store (side_add tbl m s) = Inr (?F s)"
    using assms(1) m by (simp add: foldR_side_known fold_side_absorb)
  moreover have "?F (?F s) = ?F s"
    by (simp add: fold_side_add leg_side_idem)
  ultimately show ?case using Cons by auto
qed simp

lemma ValidateTradeMsgRecords_known:
  assumes "known tbl store" and "finite ts"
  shows "ValidateTradeMsgRecords store ts tbl =
    Inr (3 \<le> card ts \<and> store \<noteq> [] \<and> token_status tbl ts \<and> sides_match (store_sides tbl store))"
  using assms
  by (auto simp: ValidateTradeMsgRecords_def validate_loop_known store_sides_def)

subsection \<open>IsValidateConRev scans one group\<close>

definition leg :: "TOKENDATA_STORE \<Rightarrow> int \<Rightarrow> TRADE_MSG_STORE \<Rightarrow> TRADE_MSG_STORE" where
  "leg tbl ty v = filter (\<lambda>m. itype tbl m = ty) v"

definition leg_qty :: "TOKENDATA_STORE \<Rightarrow> int \<Rightarrow> TRADE_MSG_STORE \<Rightarrow> int" where
  "leg_qty tbl ty v = wrap32 (sum_list (map qty (leg tbl ty v)))"

text \<open>What the scan state says about the messages already read.\<close>

definition conrev_scanned :: "TOKENDATA_STORE \<Rightarrow> TRADE_MSG_STORE \<Rightarrow> conrev_scan \<Rightarrow> bool" where
  "conrev_scanned tbl u s \<longleftrightarrow>
     csFutQty s = leg_qty tbl 1 u \<and> csCallQty s = leg_qty tbl 2 u \<and> csPutQty s = leg_qty tbl 3 u \<and>
     (csFut s \<longleftrightarrow> leg tbl 1 u \<noteq> []) \<and> (csCall s \<longleftrightarrow> leg tbl 2 u \<noteq> []) \<and>
     (csPut s \<longleftrightarrow> leg tbl 3 u \<noteq> []) \<and>
     (\<forall>m \<in> set (leg tbl 2 u). strike tbl m = csStrike1 s) \<and>
     (\<forall>m \<in> set (leg tbl 3 u). strike tbl m = csStrike2 s) \<and>
     csSides s = store_sides tbl u \<and> (\<forall>m \<in> set u. \<not> not_one_sided m)"

lemma leg_append [simp]: "leg tbl ty (u @ v) = leg tbl ty u @ leg tbl ty v"
  by (simp add: leg_def)

lemma leg_single: "leg tbl ty [m] = (if itype tbl m = ty then [m] else [])"
  by (simp add: leg_def)

lemma leg_qty_snoc:
  "leg_qty tbl ty (u @ [m]) =
    (if itype tbl m = ty then wrap32 (leg_qty tbl ty u + qty m) else leg_qty tbl ty u)"
  by (simp add: leg_qty_def leg_single wrap_add_left)

lemma store_sides_snoc: "store_sides tbl (u @ [m]) = side_add tbl m (store_sides tbl u)"
  by (simp add: store_sides_def)

lemma side_add_other:
  "itype tbl m \<noteq> 1 \<Longrightarrow> itype tbl m \<noteq> 2 \<Longrightarrow> itype tbl m \<noteq> 3 \<Longrightarrow> side_add tbl m s = s"
  by (simp add: side_add_def side_leg_def)

lemma conrev_scanned_init: "conrev_scanned tbl [] conrev_scan_init"
  by (simp add: conrev_scanned_def conrev_scan_init_def leg_def leg_qty_def store_sides_def
    wrap32_small)

lemma conrev_leg_cases:
  assumes "conrev_leg (info_of tbl m) m s = Some s1"
  obtains (fut) "itype tbl m = 1" "s1 = s\<lparr>csFut := True, csExpiry := expiry tbl m,
      csSides := side_add tbl m (csSides s), csFutQty := wrap32 (csFutQty s + qty m)\<rparr>"
  | (call) "itype tbl m = 2" "csCall s \<Longrightarrow> csStrike1 s = strike tbl m"
      "s1 = s\<lparr>csCall := True, csStrike1 := strike tbl m, csExpiry := expiry tbl m,
      csSides := side_add tbl m (csSides s), csCallQty := wrap32 (csCallQty s + qty m)\<rparr>"
  | (put) "itype tbl m = 3" "csPut s \<Longrightarrow> csStrike2 s = strike tbl m"
      "s1 = s\<lparr>csPut := True, csStrike2 := strike tbl m, csExpiry := expiry tbl m,
      csSides := side_add tbl m (csSides s), csPutQty := wrap32 (csPutQty s + qty m)\<rparr>"
  | (other) "itype tbl m \<notin> {1, 2, 3}" "s1 = s" "side_add tbl m (csSides s) = csSides s"
  using assms by (auto simp: conrev_leg_def side_add_def side_leg_def split: if_splits)

lemma conrev_scanned_step:
  assumes u: "conrev_scanned tbl u s" and n: "\<not> not_one_sided m"
    and s1: "conrev_leg (info_of tbl m) m s = Some s1"
  shows "conrev_scanned tbl (u @ [m]) s1"
  using s1
proof (cases rule: conrev_leg_cases)
  case fut
  then show ?thesis using u n by (simp add: conrev_scanned_def leg_qty_snoc leg_single store_sides_snoc)
next
  case call
  then show ?thesis using u n
    by (cases "csCall s") (auto simp add: conrev_scanned_def leg_qty_snoc leg_single store_sides_snoc)
next
  case put
  then show ?thesis using u n
    by (cases "csPut s") (auto simp add: conrev_scanned_def leg_qty_snoc leg_single store_sides_snoc)
next
  case other
  then show ?thesis using u n
    by (simp add: conrev_scanned_def leg_qty_snoc leg_single store_sides_snoc)
qed

lemma conrev_loop_scanned:
  assumes "known tbl v" and "conrev_scanned tbl u s" and "conrev_loop tbl v s = Inr (Some s1)"
  shows "conrev_scanned tbl (u @ v) s1"
  using assms
proof (induction v arbitrary: u s)
  case (Cons m v)
  then obtain s2 where n: "\<not> not_one_sided m"
    and s2: "conrev_leg (info_of tbl m) m s = Some s2" "conrev_loop tbl v s2 = Inr (Some s1)"
    by (auto split: if_splits option.splits)
  from Cons.prems(2) n s2(1) have "conrev_scanned tbl (u @ [m]) s2" by (rule conrev_scanned_step)
  with Cons.IH [of "u @ [m]" s2] Cons.prems(1) s2(2) show ?case by simp
qed simp

lemma conrev_loop_returns: "known tbl v \<Longrightarrow> \<exists>r. conrev_loop tbl v s = Inr r"
  by (induction v arbitrary: s) (auto split: option.splits)

lemma IsValidateConRev_returns: "known tbl v \<Longrightarrow> \<exists>b. IsValidateConRev v tbl = Inr b"
  using conrev_loop_returns [of tbl v conrev_scan_init]
  by (auto simp: IsValidateConRev_def split: option.splits)

text \<open>What acceptance means: three legs of equal quantity, opposite sides, one strike per leg.\<close>

definition balanced :: "TOKENDATA_STORE \<Rightarrow> TRADE_MSG_STORE \<Rightarrow> bool" where
  "balanced tbl v \<longleftrightarrow>
     (\<forall>ty \<in> {1, 2, 3}. leg tbl ty v \<noteq> []) \<and>
     leg_qty tbl 1 v = leg_qty tbl 2 v \<and> leg_qty tbl 2 v = leg_qty tbl 3 v \<and>
     (\<forall>m \<in> set v. \<not> not_one_sided m) \<and> sides_match (store_sides tbl v)"

definition one_strike_per_leg :: "TOKENDATA_STORE \<Rightarrow> TRADE_MSG_STORE \<Rightarrow> bool" where
  "one_strike_per_leg tbl v \<longleftrightarrow>
     (\<forall>ty \<in> {2, 3}. \<forall>m \<in> set (leg tbl ty v). \<forall>m' \<in> set (leg tbl ty v). strike tbl m = strike tbl m')"

lemma IsValidateConRev_accepts:
  assumes "known tbl v" and "IsValidateConRev v tbl = Inr True"
  shows "balanced tbl v" and "one_strike_per_leg tbl v"
proof -
  obtain s where s: "conrev_loop tbl v conrev_scan_init = Inr (Some s)" "conrev_accept s"
    using assms(2) by (auto simp: IsValidateConRev_def bindR_eq_Inr split: option.splits)
  have "conrev_scanned tbl v s"
    using conrev_loop_scanned [OF assms(1) conrev_scanned_init s(1)] by simp
  with s(2) show "balanced tbl v" and "one_strike_per_leg tbl v"
    by (auto simp: conrev_scanned_def conrev_accept_def balanced_def one_strike_per_leg_def
      split: if_splits)
qed

text \<open>Conversely a balanced group of one expiry and one strike per leg is accepted.\<close>

lemma one_strikeD:
  assumes "one_strike_per_leg tbl v" and "ty \<in> {2, 3}"
    and "m \<in> set (leg tbl ty v)" and "m' \<in> set (leg tbl ty v)"
  shows "strike tbl m = strike tbl m'"
  using assms unfolding one_strike_per_leg_def by blast

lemma conrev_leg_coherent:
  assumes "conrev_scanned tbl u s" and "csFut s \<or> csCall s \<or> csPut s \<Longrightarrow> csExpiry s = e"
    and "\<forall>m \<in> set (m # v). expiry tbl m = e" and "one_strike_per_leg tbl (u @ m # v)"
  shows "conrev_leg (info_of tbl m) m s \<noteq> None"
proof -
  have e: "expiry tbl m = e" using assms(3) by simp
  have "csStrike1 s = strike tbl m" if "csCall s" and m: "itype tbl m = 2"
  proof -
    have "leg tbl 2 u \<noteq> []" and all: "\<forall>m' \<in> set (leg tbl 2 u). strike tbl m' = csStrike1 s"
      using assms(1) that(1) by (simp_all add: conrev_scanned_def)
    then have "hd (leg tbl 2 u) \<in> set (leg tbl 2 u)" by simp
    with all obtain m' where m': "m' \<in> set (leg tbl 2 u)" "strike tbl m' = csStrike1 s" by blast
    have "strike tbl m' = strike tbl m"
      by (rule one_strikeD [OF assms(4), of 2]) (use m m'(1) in \<open>simp_all add: leg_def\<close>)
    with m'(2) show ?thesis by simp
  qed
  moreover have "csStrike2 s = strike tbl m" if "csPut s" and m: "itype tbl m = 3"
  proof -
    have "leg tbl 3 u \<noteq> []" and all: "\<forall>m' \<in> set (leg tbl 3 u). strike tbl m' = csStrike2 s"
      using assms(1) that(1) by (simp_all add: conrev_scanned_def)
    then have "hd (leg tbl 3 u) \<in> set (leg tbl 3 u)" by simp
    with all obtain m' where m': "m' \<in> set (leg tbl 3 u)" "strike tbl m' = csStrike2 s" by blast
    have "strike tbl m' = strike tbl m"
      by (rule one_strikeD [OF assms(4), of 3]) (use m m'(1) in \<open>simp_all add: leg_def\<close>)
    with m'(2) show ?thesis by simp
  qed
  ultimately show ?thesis
    using e assms(2) by (auto simp: conrev_leg_def)
qed

lemma conrev_loop_coherent:
  assumes "known tbl v" and "conrev_scanned tbl u s"
    and "csFut s \<or> csCall s \<or> csPut s \<Longrightarrow> csExpiry s = e"
    and "\<forall>m \<in> set v. expiry tbl m = e" and "one_strike_per_leg tbl (u @ v)"
    and "\<forall>m \<in> set v. \<not> not_one_sided m"
  shows "\<exists>s1. conrev_loop tbl v s = Inr (Some s1)"
  using assms
proof (induction v arbitrary: u s)
  case (Cons m v)
  have "conrev_leg (info_of tbl m) m s \<noteq> None"
    using Cons.prems(2-5) by (rule conrev_leg_coherent)
  then obtain s2 where s2: "conrev_leg (info_of tbl m) m s = Some s2" by blast
  have n: "\<not> not_one_sided m" using Cons.prems(6) by simp
  have sc: "conrev_scanned tbl (u @ [m]) s2"
    using Cons.prems(2) n s2 by (rule conrev_scanned_step)
  have e2: "csFut s2 \<or> csCall s2 \<or> csPut s2 \<Longrightarrow> csExpiry s2 = e"
    using s2 by (cases rule: conrev_leg_cases) (use Cons.prems(3,4) in simp_all)
  have "\<exists>s1. conrev_loop tbl v s2 = Inr (Some s1)"
    by (rule Cons.IH [OF _ sc e2]) (use Cons.prems in auto)
  with Cons.prems(1) n s2 show ?case by simp
qed simp

lemma IsValidateConRev_complete:
  assumes "known tbl v" and "balanced tbl v" and "one_strike_per_leg tbl v"
    and "\<forall>m \<in> set v. expiry tbl m = e"
  shows "IsValidateConRev v tbl = Inr True"
proof -
  have "\<exists>s1. conrev_loop tbl v conrev_scan_init = Inr (Some s1)"
    by (rule conrev_loop_coherent [OF assms(1) conrev_scanned_init _ assms(4)])
      (use assms in \<open>auto simp: conrev_scan_init_def balanced_def\<close>)
  then obtain s1 where s1: "conrev_loop tbl v conrev_scan_init = Inr (Some s1)" ..
  then have "conrev_scanned tbl v s1"
    using conrev_loop_scanned [OF assms(1) conrev_scanned_init s1] by simp
  with assms(2) s1 show ?thesis
    by (simp add: IsValidateConRev_def conrev_scanned_def conrev_accept_def balanced_def)
qed

section \<open>Trades for evaluation\<close>

text \<open>A one-sided trade; \<open>b\<close> tells that the buy id is the one that is absent.\<close>

definition sample_trade :: "int \<Rightarrow> int \<Rightarrow> bool \<Rightarrow> int \<Rightarrow> int \<Rightarrow> CompositeBcastMsg" where
  "sample_trade seqno token b price n = packet_of (TRD_MSG_bytes (trade_msg seqno token
     (if b then 0 else dbl_of_id 0 1) (if b then dbl_of_id 0 1 else 0) price n))"

lemma sample_trade_trd:
  "small seqno \<Longrightarrow> small token \<Longrightarrow> small price \<Longrightarrow> small n \<Longrightarrow>
   trd (sample_trade seqno token b price n) = trade_msg seqno token
     (if b then 0 else dbl_of_id 0 1) (if b then dbl_of_id 0 1 else 0) price n"
  by (simp add: sample_trade_def trd_def trade_packet)

lemma sample_trade_simps:
  assumes "small seqno" "small token" "small price" "small n"
  shows "tok (sample_trade seqno token b price n) = token"
    and "qty (sample_trade seqno token b price n) = n"
    and "buyId (sample_trade seqno token b price n) = (if b then 0 else 1)"
    and "sellId (sample_trade seqno token b price n) = (if b then 1 else 0)"
    and "nTradePrice (trd (sample_trade seqno token b price n)) = price"
    and "STREAM_HEADER.nSeqNo (TRD_MSG.header (trd (sample_trade seqno token b price n))) = seqno"
    and "msgType (sample_trade seqno token b price n) = TRADE_MESSAGE"
proof -
  note t = sample_trade_trd [OF assms, of b]
  show "tok (sample_trade seqno token b price n) = token" "qty (sample_trade seqno token b price n) = n"
    "buyId (sample_trade seqno token b price n) = (if b then 0 else 1)"
    "sellId (sample_trade seqno token b price n) = (if b then 1 else 0)"
    "nTradePrice (trd (sample_trade seqno token b price n)) = price"
    "STREAM_HEADER.nSeqNo (TRD_MSG.header (trd (sample_trade seqno token b price n))) = seqno"
    by (simp_all add: tok_def qty_def buyId_def sellId_def t) (simp_all add: trade_msg_def)
  show "msgType (sample_trade seqno token b price n) = TRADE_MESSAGE"
    using t unfolding msgType_def common_prefix(1) trd_def by (simp add: trade_msg_def)
qed

lemma sample_one_sided:
  "small seqno \<Longrightarrow> small token \<Longrightarrow> small price \<Longrightarrow> small n \<Longrightarrow>
   \<not> not_one_sided (sample_trade seqno token b price n)"
  by (simp add: not_one_sided_def sample_trade_simps)

text \<open>
  A future and a put whose buyer is absent, a call whose seller is: a conversion of ten.
\<close>

definition sample_future :: "int \<Rightarrow> CompositeBcastMsg" where "sample_future n = sample_trade 11 1 True 24100 n"
definition sample_put :: "int \<Rightarrow> CompositeBcastMsg" where "sample_put n = sample_trade 12 3 True 50 n"
definition sample_call :: "int \<Rightarrow> CompositeBcastMsg" where "sample_call n = sample_trade 13 2 False 150 n"

definition sample_burst :: TRADE_MSG_STORE where
  "sample_burst = [sample_future 10, sample_put 10, sample_call 10]"

lemmas sample_defs = sample_future_def sample_put_def sample_call_def

lemma sample_msgs [simp]:
  "small n \<Longrightarrow> tok (sample_future n) = 1" "small n \<Longrightarrow> tok (sample_put n) = 3"
  "small n \<Longrightarrow> tok (sample_call n) = 2"
  "small n \<Longrightarrow> qty (sample_future n) = n" "small n \<Longrightarrow> qty (sample_put n) = n"
  "small n \<Longrightarrow> qty (sample_call n) = n"
  "small n \<Longrightarrow> buyId (sample_future n) = 0" "small n \<Longrightarrow> buyId (sample_put n) = 0"
  "small n \<Longrightarrow> buyId (sample_call n) = 1"
  "small n \<Longrightarrow> sellId (sample_future n) = 1" "small n \<Longrightarrow> sellId (sample_put n) = 1"
  "small n \<Longrightarrow> sellId (sample_call n) = 0"
  "small n \<Longrightarrow> nTradePrice (trd (sample_future n)) = 24100"
  "small n \<Longrightarrow> nTradePrice (trd (sample_put n)) = 50" "small n \<Longrightarrow> nTradePrice (trd (sample_call n)) = 150"
  by (simp_all add: sample_defs sample_trade_simps small_def)

lemma small_numeral [simp]: "small 0" "small 1" "small 5" "small 10" "small 20"
  by (simp_all add: small_def)

lemma sample_infos [simp]:
  "small n \<Longrightarrow> info_of sample_table (sample_future n) = sample_scrip 1 1 0"
  "small n \<Longrightarrow> info_of sample_table (sample_put n) = sample_scrip 3 3 100"
  "small n \<Longrightarrow> info_of sample_table (sample_call n) = sample_scrip 2 2 100"
  by (simp_all add: info_of_def)

lemma sample_burst_known: "known sample_table sample_burst"
  by (simp add: sample_burst_def)

lemma sample_burst_accepted: "IsValidateConRev sample_burst sample_table = Inr True"
  by (simp add: sample_burst_def IsValidateConRev_def conrev_scan_init_def conrev_leg_def not_one_sided_def
    Let_def side_leg_def sides_init_def side_of_def conrev_accept_def sides_match_def find_into_def wrap32_small)

lemma sample_burst_sides: "sides_match (store_sides sample_table sample_burst)"
  by (simp add: store_sides_def sample_burst_def side_add_def side_leg_def side_of_def sides_init_def sides_match_def)

lemma sample_token_status: "token_status sample_table {1, 2, 3}"
proof -
  have "sorted_list_of_set {1, 2, 3 :: int} = [1, 2, 3]" by simp
  then show ?thesis
    by (simp add: token_status_def token_scan_init_def token_scan_step_def token_scan_leg_def
      token_scan_complete_def Let_def)
qed

section \<open>Properties\<close>

text \<open>
  C21. \<open>ValidateTradeMsgRecords\<close>, which for every stored message scans the whole store again, decides
  in effect one condition on the burst: at least three tokens, a token set that shows a future, a
  call and a put of one strike and one expiry, and, once over the store, future and put on one
  side and the call on the other. On messages of known contracts it does not fault.
\<close>

lemma validate_one_pass:
  assumes "known tbl store" and "finite ts"
  shows "ValidateTradeMsgRecords store ts tbl =
    Inr (3 \<le> card ts \<and> store \<noteq> [] \<and> token_status tbl ts \<and> sides_match (store_sides tbl store))"
  by (rule ValidateTradeMsgRecords_known [OF assms])

lemma validate_one_pass_witness: "ValidateTradeMsgRecords sample_burst {1, 2, 3} sample_table = Inr True"
  using validate_one_pass [OF sample_burst_known, of "{1, 2, 3}"] sample_token_status sample_burst_sides
  by (simp add: sample_burst_def)

text \<open>
  C7. A group that \<open>IsValidateConRev\<close> accepts is balanced: it has all three legs, with equal traded
  quantities (modulo 2^32), only one-sided trades, future and put on one side and the call on the
  other; and within the calls, and within the puts, one strike.
\<close>

lemma conrev_sound:
  assumes "known tbl v" and "IsValidateConRev v tbl = Inr True"
  shows "balanced tbl v \<and> one_strike_per_leg tbl v"
  using IsValidateConRev_accepts [OF assms] by simp

lemma conrev_sound_witness: "balanced sample_table sample_burst \<and> one_strike_per_leg sample_table sample_burst"
  by (rule conrev_sound [OF sample_burst_known sample_burst_accepted])

text \<open>
  C8. Conversely, a balanced group of one expiry with one strike per leg is accepted, whatever the
  order of its messages.
\<close>

lemma conrev_complete:
  assumes "known tbl v" and "balanced tbl v" and "one_strike_per_leg tbl v"
    and "\<forall>m \<in> set v. expiry tbl m = e"
  shows "IsValidateConRev v tbl = Inr True"
  by (rule IsValidateConRev_complete [OF assms])

lemma conrev_complete_witness:
  "IsValidateConRev [sample_put 10, sample_call 5, sample_future 10, sample_call 5] sample_table = Inr True"
  by (rule conrev_complete [where e = 1000])
    (simp_all add: balanced_def one_strike_per_leg_def leg_def leg_qty_def store_sides_def side_add_def
      side_leg_def side_of_def sides_init_def sides_match_def not_one_sided_def wrap32_small)

text \<open>
  The nested loops of \<open>DeletePacketTillExpiryDate\<close>, which erase one message per round, keep
  exactly the messages of the given expiry, in their order.
\<close>

lemma expiry_prune_is_filter:
  assumes "known tbl v"
  shows "DeletePacketTillExpiryDate v tbl e = Inr (filter (\<lambda>m. expiry tbl m = e) v)"
  by (rule DeletePacketTillExpiryDate_known [OF assms])

text \<open>
  \<open>DeletePacketTillStrikePrice\<close> erases the messages of another strike that precede the first
  future, and nothing from the first future on, because its scan ends there.
\<close>

lemma strike_prune_to_first_future:
  assumes "known tbl v"
  shows "DeletePacketTillStrikePrice v tbl k =
    Inr (filter (\<lambda>m. strike tbl m = k) (takeWhile (\<lambda>m. itype tbl m \<noteq> 1) v) @
         dropWhile (\<lambda>m. itype tbl m \<noteq> 1) v)"
  using DeletePacketTillStrikePrice_known [OF assms, of k] by (simp add: prune_strike_def)

text \<open>
  C31. \<open>SecondLevelOrderValidation\<close> drops the leading messages of the given instrument type, leaves a
  vector of at most one message alone, and runs past the end of a vector in which every one of
  several messages is of that type.
\<close>

lemma second_level_behaviour:
  assumes "known tbl v"
  shows "SecondLevelOrderValidation ty v tbl =
    (if length v \<le> 1 then Inr v
     else if \<forall>m \<in> set v. itype tbl m = ty then Inl EndDeref
     else Inr (dropWhile (\<lambda>m. itype tbl m = ty) v))"
proof (cases "length v \<le> 1")
  case True
  then show ?thesis by (cases v) (auto simp: SecondLevelOrderValidation_def)
next
  case False
  then show ?thesis
    using SecondLevelOrderValidation_empties [OF assms, of ty] SecondLevelOrderValidation_known [OF assms, of ty]
    by auto
qed

lemma second_level_behaviour_witness:
  "SecondLevelOrderValidation 1 [sample_future 10, sample_put 10] sample_table = Inr [sample_put 10] \<and>
   SecondLevelOrderValidation 1 [sample_future 10, sample_future 5] sample_table = Inl EndDeref"
  using second_level_behaviour [of sample_table "[sample_future 10, sample_put 10]" 1]
    second_level_behaviour [of sample_table "[sample_future 10, sample_future 5]" 1]
  by simp

end
