(* ===== verification/Split.thy ===== *)
theory Split
  imports Trades
begin

text \<open>
  \<open>SplitTrade\<close> of \<^verbatim>\<open>src/main.cpp\<close>: the stored trades are cut into candidate groups of a
  future, a call and a put leg. The loop carries the running group, the details of
  \<open>Trades\<close>, the last contract pointer and the groups emitted so far. The locals
  \<open>lcFutBuySell\<close>, \<open>lcPutBuySell\<close>, \<open>lcCallBuySell\<close> and \<open>lnQtyTemp\<close> of the source are
  written and never read; they are left out.
\<close>

section \<open>The loop body\<close>

record split_state =
  spTemp :: TRADE_MSG_STORE
  spDetails :: details
  spInfo :: "OMSScripInfo option"
  spOut :: TRADE_VECTOR_STORE

definition details_init :: details where
  "details_init = \<lparr>lcTokenStore = {}, lnFutQty = 0, lnCallQty = 0, lnPutQty = 0, lnStrikePrice = 0,
     lbFutToken = False, lbPutToken = False, lbCallToken = False, lnLastExpiryDate = 0,
     lnLastCustomInstrumentType = 0\<rparr>"

definition split_init :: split_state where
  "split_init = \<lparr>spTemp = [], spDetails = details_init, spInfo = None, spOut = []\<rparr>"

text \<open>A change of expiry or strike prunes the running group and recounts what is left.\<close>

definition split_prune ::
  "TOKENDATA_STORE \<Rightarrow> OMSScripInfo \<Rightarrow> TRADE_MSG_STORE \<Rightarrow> details \<Rightarrow> (TRADE_MSG_STORE \<times> details) res" where
  "split_prune tbl i v d =
    (let newExpiry = (lnLastExpiryDate d \<noteq> 0 \<and> lnLastExpiryDate d \<noteq> nExpiryDate i);
         newStrike = (lnStrikePrice d \<noteq> 0 \<and> lnStrikePrice d \<noteq> nStrikePrice i \<and>
                      nCustomInstrumentType i \<noteq> 1)
     in if newExpiry \<or> newStrike then
          bindR (if newExpiry then DeletePacketTillExpiryDate v tbl (nExpiryDate i)
                 else DeletePacketTillStrikePrice v tbl (nStrikePrice i)) (\<lambda>v1.
          bindR (GetExtraDetails v1 (ResetExtraDetails d) tbl) (\<lambda>d1. Inr (v1, d1)))
        else Inr (v, d))"

definition legs_equal :: "details \<Rightarrow> bool" where
  "legs_equal d \<longleftrightarrow> lnFutQty d = lnCallQty d \<and> lnCallQty d = lnPutQty d \<and> card (lcTokenStore d) = 3"

text \<open>The \<open>else\<close> branches of the \<open>switch\<close>: drop the leading leg and recount.\<close>

definition split_regroup ::
  "TOKENDATA_STORE \<Rightarrow> OMSScripInfo \<Rightarrow> TRADE_MSG_STORE \<Rightarrow> details \<Rightarrow> (TRADE_MSG_STORE \<times> details) res" where
  "split_regroup tbl i v d =
    bindR (SecondLevelOrderValidation (nCustomInstrumentType i) v tbl) (\<lambda>v1.
    bindR (GetExtraDetails v1 (ResetExtraDetails d) tbl) (\<lambda>d1. Inr (v1, d1)))"

text \<open>Another message of a leg that an earlier message of the group already belongs to, after a
  message of a different leg.\<close>

definition leg_returns :: "OMSScripInfo \<Rightarrow> details \<Rightarrow> bool" where
  "leg_returns i d \<longleftrightarrow>
     (lnLastCustomInstrumentType d \<noteq> 0 \<and> lnLastCustomInstrumentType d \<noteq> nCustomInstrumentType i) \<and>
     (if nCustomInstrumentType i = 1 then lbFutToken d \<and> (lbPutToken d \<or> lbCallToken d)
      else if nCustomInstrumentType i = 2 then lbCallToken d \<and> (lbPutToken d \<or> lbFutToken d)
      else lbPutToken d \<and> (lbCallToken d \<or> lbFutToken d))"

text \<open>The three recounts differ in the quantity that loses the current message again.\<close>

definition uncount :: "OMSScripInfo \<Rightarrow> CompositeBcastMsg \<Rightarrow> details \<Rightarrow> details" where
  "uncount i m d =
    (if nCustomInstrumentType i = 1 then d\<lparr>lnFutQty := wrap32 (lnFutQty d - qty m)\<rparr>
     else if nCustomInstrumentType i = 2 then d\<lparr>lnCallQty := wrap32 (lnCallQty d - qty m)\<rparr>
     else d\<lparr>lnPutQty := wrap32 (lnPutQty d - qty m)\<rparr>)"

definition split_switch ::
  "TOKENDATA_STORE \<Rightarrow> OMSScripInfo \<Rightarrow> CompositeBcastMsg \<Rightarrow> TRADE_MSG_STORE \<times> details \<times> TRADE_VECTOR_STORE \<Rightarrow>
   (TRADE_MSG_STORE \<times> details \<times> TRADE_VECTOR_STORE) res" where
  "split_switch tbl i m st =
    (case st of (v, d, out) \<Rightarrow>
      if nCustomInstrumentType i \<in> {1, 2, 3} then
        bindR (if leg_returns i d then
                 (if legs_equal d then Inr (v, d, out @ [v])
                  else bindR (split_regroup tbl i v d) (\<lambda>(v1, d1). Inr (v1, uncount i m d1, out)))
               else Inr (v, d, out))
          (\<lambda>(v1, d1, out1). Inr (v1, detail_leg i m d1, out1))
      else Inr (v, d, out))"

text \<open>
  The three index loops that assemble a group around the middle leg. The first and the last stop
  when their quantity reaches the middle quantity.
\<close>

fun quantity_loop ::
  "TRADE_MSG_STORE \<Rightarrow> int \<Rightarrow> nat list \<Rightarrow> TRADE_MSG_STORE \<Rightarrow> int \<Rightarrow> (TRADE_MSG_STORE \<times> int) res" where
  "quantity_loop v q [] g acc = Inr (g, acc)"
| "quantity_loop v q (k # ks) g acc =
     bindR (vec_get v k) (\<lambda>m.
       let g1 = g @ [m]; acc1 = wrap32 (acc + qty m)
       in if acc1 = q then Inr (g1, acc1) else quantity_loop v q ks g1 acc1)"

definition middle_group ::
  "TRADE_MSG_STORE \<Rightarrow> int \<Rightarrow> nat \<Rightarrow> nat \<Rightarrow> (TRADE_MSG_STORE \<times> int \<times> int) res" where
  "middle_group v q start stop =
    bindR (quantity_loop v q (rev [0..<start]) [] 0) (\<lambda>(g1, q1).
    bindR (foldR (\<lambda>k g. bindR (vec_get v k) (\<lambda>m. Inr (g @ [m]))) [start..<stop] g1) (\<lambda>g2.
    bindR (quantity_loop v q [stop..<length v] g2 0) (\<lambda>(g3, q3). Inr (g3, q1, q3))))"

definition split_emit ::
  "TOKENDATA_STORE \<Rightarrow> TRADE_MSG_STORE \<times> details \<times> TRADE_VECTOR_STORE \<Rightarrow>
   (TRADE_MSG_STORE \<times> details \<times> TRADE_VECTOR_STORE) res" where
  "split_emit tbl st =
    (case st of (v, d, out) \<Rightarrow>
      if legs_equal d then
        Inr ([], d\<lparr>lcTokenStore := {}, lnFutQty := 0, lnCallQty := 0, lnPutQty := 0,
                lnStrikePrice := 0, lnLastCustomInstrumentType := 0\<rparr>, out @ [v])
      else if lnFutQty d \<noteq> 0 \<and> lnCallQty d \<noteq> 0 \<and> lnPutQty d \<noteq> 0 \<and> card (lcTokenStore d) = 3 then
        bindR (GetMiddleQty 0 v tbl 0 0) (\<lambda>(q, start, stop).
        bindR (middle_group v q start stop) (\<lambda>(g, q1, q3).
          if q3 = q1 \<and> q1 = q then Inr ([], ResetExtraDetails d, out @ [g])
          else Inr (v, d, out)))
      else Inr (v, d, out))"

definition split_step ::
  "TOKENDATA_STORE \<Rightarrow> CompositeBcastMsg \<Rightarrow> split_state \<Rightarrow> split_state res" where
  "split_step tbl m s =
    (if not_one_sided m then Inr (s\<lparr>spTemp := [], spDetails := ResetExtraDetails (spDetails s)\<rparr>)
     else
      (let p = find_into tbl (tok m) (spInfo s)
       in bindR (deref p) (\<lambda>i.
          bindR (split_prune tbl i (spTemp s) (spDetails s)) (\<lambda>(v, d).
          bindR (split_switch tbl i m
                   (v @ [m], d\<lparr>lcTokenStore := insert (tok m) (lcTokenStore d)\<rparr>, spOut s)) (\<lambda>st1.
          bindR (split_emit tbl st1) (\<lambda>(v2, d2, out2).
            Inr (s\<lparr>spTemp := v2, spDetails := d2, spInfo := p, spOut := out2\<rparr>)))))))"

definition SplitTrade ::
  "TRADE_MSG_STORE \<Rightarrow> TOKEN_STORE \<Rightarrow> TOKENDATA_STORE \<Rightarrow> TRADE_VECTOR_STORE res" where
  "SplitTrade store ts tbl =
    (if length store = 3 \<and> card ts = 3 then Inr [store]
     else bindR (foldR (split_step tbl) store split_init) (\<lambda>s. Inr (spOut s)))"

section \<open>Closed forms on known contracts\<close>

lemma split_prune_known:
  "known tbl v \<Longrightarrow> split_prune tbl i v d = Inr (
     let newExpiry = (lnLastExpiryDate d \<noteq> 0 \<and> lnLastExpiryDate d \<noteq> nExpiryDate i);
         newStrike = (lnStrikePrice d \<noteq> 0 \<and> lnStrikePrice d \<noteq> nStrikePrice i \<and>
                      nCustomInstrumentType i \<noteq> 1);
         v1 = (if newExpiry then filter (\<lambda>m. expiry tbl m = nExpiryDate i) v
               else prune_strike tbl (nStrikePrice i) v)
     in if newExpiry \<or> newStrike then (v1, fold (detail_add tbl) v1 (ResetExtraDetails d)) else (v, d))"
  using known_subset [of tbl v "filter (\<lambda>m. expiry tbl m = nExpiryDate i) v"]
    known_subset [OF _ set_prune_strike [of tbl "nStrikePrice i" v], of tbl]
  by (auto simp: split_prune_def Let_def DeletePacketTillExpiryDate_known
    DeletePacketTillStrikePrice_known GetExtraDetails_known)

text \<open>The last message is of the current leg, so some message of another leg stops the erasure.\<close>

lemma split_regroup_known:
  assumes "known tbl (v @ [m])" and "i = info_of tbl m"
    and "\<exists>x \<in> set (v @ [m]). itype tbl x \<noteq> nCustomInstrumentType i"
  shows "\<exists>w. split_regroup tbl i (v @ [m]) d =
      Inr (w, fold (detail_add tbl) w (ResetExtraDetails d)) \<and> set w \<subseteq> set (v @ [m]) \<and> m \<in> set w"
proof -
  let ?w = "if length (v @ [m]) = 1 then v @ [m]
    else dropWhile (\<lambda>m. itype tbl m = nCustomInstrumentType i) (v @ [m])"
  have sub: "set ?w \<subseteq> set (v @ [m])" by (auto dest: set_dropWhileD)
  have "dropWhile (\<lambda>m. itype tbl m = nCustomInstrumentType i) (v @ [m]) \<noteq> []"
    using assms(3) by (auto simp: dropWhile_eq_Nil_conv)
  then have m: "m \<in> set ?w"
    using dropWhile_snoc_last [of "\<lambda>m. itype tbl m = nCustomInstrumentType i" v m] by auto
  have "GetExtraDetails ?w (ResetExtraDetails d) tbl
      = Inr (fold (detail_add tbl) ?w (ResetExtraDetails d))"
    by (rule GetExtraDetails_known [OF known_subset [OF assms(1) sub]])
  with SecondLevelOrderValidation_known [OF assms(1,3)] have
    "split_regroup tbl i (v @ [m]) d = Inr (?w, fold (detail_add tbl) ?w (ResetExtraDetails d))"
    by (simp only: split_regroup_def bindR_simps)
  with sub m show ?thesis by blast
qed

lemma quantity_loop_in:
  assumes "\<forall>k \<in> set ks. k < length v" and "set g \<subseteq> set v"
  shows "post (quantity_loop v q ks g acc) (\<lambda>(g1, _). set g1 \<subseteq> set v)"
  using assms
  by (induction ks arbitrary: g acc) (auto simp: vec_get_in Let_def)

lemma middle_loop_in:
  assumes "known tbl ms" and "mdIndex s + length ms \<le> n" and "mdStart s \<le> n" and "e \<le> n"
  shows "post (middle_loop tbl q e ms s) (\<lambda>(_, a, b). a \<le> n \<and> b \<le> n)"
  using assms
proof (induction ms arbitrary: s)
  case (Cons m ms)
  have "mdIndex s1 = mdIndex s \<and> mdStart s1 \<le> n" if "middle_leg (info_of tbl m) m s = Some s1" for s1
    using that Cons.prems(2,3) by (auto simp: middle_leg_def split: if_splits)
  with Cons show ?case
    by (auto simp: known_lookup split: option.splits)
qed simp

lemma middle_group_in:
  assumes "start \<le> length v" and "stop \<le> length v"
  shows "post (middle_group v q start stop) (\<lambda>(g, _). set g \<subseteq> set v)"
  unfolding middle_group_def
proof (rule post_bindR [where Q = "\<lambda>(g, _). set g \<subseteq> set v"])
  show "post (quantity_loop v q (rev [0..<start]) [] 0) (\<lambda>(g, _). set g \<subseteq> set v)"
    using assms(1) by (intro quantity_loop_in) auto
next
  fix r :: "TRADE_MSG_STORE \<times> int"
  assume r: "case r of (g, _) \<Rightarrow> set g \<subseteq> set v"
  obtain g1 q1 where r1: "r = (g1, q1)" by (cases r)
  have mid: "post (foldR (\<lambda>k g. bindR (vec_get v k) (\<lambda>m. Inr (g @ [m]))) [start..<stop] g1)
      (\<lambda>g. set g \<subseteq> set v)"
    using r r1 assms(2) by (intro foldR_post) (auto simp: vec_get_in)
  have rest: "post (bindR (quantity_loop v q [stop..<length v] g2 0) (\<lambda>(g3, q3). Inr (g3, q1, q3)))
      (\<lambda>(g, _). set g \<subseteq> set v)" if "set g2 \<subseteq> set v" for g2
    using that by (intro post_bindR [OF quantity_loop_in]) auto
  show "post (case r of (g1, q1) \<Rightarrow>
      bindR (foldR (\<lambda>k g. bindR (vec_get v k) (\<lambda>m. Inr (g @ [m]))) [start..<stop] g1) (\<lambda>g2.
      bindR (quantity_loop v q [stop..<length v] g2 0) (\<lambda>(g3, q3). Inr (g3, q1, q3))))
      (\<lambda>(g, _). set g \<subseteq> set v)"
    unfolding r1 prod.case using mid rest by (rule post_bindR)
qed

section \<open>Invariants of the loop\<close>

lemma detail_leg_last_type:
  "lnLastCustomInstrumentType (detail_leg i m d) =
    (if nCustomInstrumentType i \<in> {1, 2, 3} then nCustomInstrumentType i
     else lnLastCustomInstrumentType d)"
  by (simp add: detail_leg_def)

lemma detail_add_last_type:
  "lnLastCustomInstrumentType (detail_add tbl m d) =
    (if itype tbl m \<in> {1, 2, 3} then itype tbl m else lnLastCustomInstrumentType d)"
  by (simp add: detail_add_def detail_leg_last_type)

lemma fold_detail_last_type:
  "lnLastCustomInstrumentType (fold (detail_add tbl) v d) \<noteq> lnLastCustomInstrumentType d \<Longrightarrow>
   \<exists>x \<in> set v. itype tbl x = lnLastCustomInstrumentType (fold (detail_add tbl) v d)"
proof (induction v arbitrary: d)
  case (Cons m v)
  show ?case
  proof (cases "lnLastCustomInstrumentType (fold (detail_add tbl) v (detail_add tbl m d))
      = lnLastCustomInstrumentType (detail_add tbl m d)")
    case True
    with Cons.prems show ?thesis by (auto simp: detail_add_last_type split: if_splits)
  qed (use Cons.IH in fastforce)
qed simp

lemma fold_detail_reset_last_type:
  "lnLastCustomInstrumentType (fold (detail_add tbl) v (ResetExtraDetails d)) \<noteq> 0 \<Longrightarrow>
   \<exists>x \<in> set v. itype tbl x =
      lnLastCustomInstrumentType (fold (detail_add tbl) v (ResetExtraDetails d))"
  by (rule fold_detail_last_type) (simp add: ResetExtraDetails_def)

text \<open>
  Memory safety rests on two facts: the running group holds known contracts only, and the last
  instrument type, when set, is the type of some message still in the group.
\<close>

definition group_inv :: "TOKENDATA_STORE \<Rightarrow> CompositeBcastMsg set \<Rightarrow> TRADE_MSG_STORE \<Rightarrow> details \<Rightarrow> bool" where
  "group_inv tbl S v d \<longleftrightarrow> known tbl v \<and> set v \<subseteq> S \<and>
     (lnLastCustomInstrumentType d \<noteq> 0 \<longrightarrow>
        (\<exists>x \<in> set v. itype tbl x = lnLastCustomInstrumentType d))"

definition split_inv :: "TOKENDATA_STORE \<Rightarrow> CompositeBcastMsg set \<Rightarrow>
    TRADE_MSG_STORE \<times> details \<times> TRADE_VECTOR_STORE \<Rightarrow> bool" where
  "split_inv tbl S st \<longleftrightarrow>
    (case st of (v, d, out) \<Rightarrow> group_inv tbl S v d \<and> (\<forall>g \<in> set out. set g \<subseteq> S))"

lemma group_inv_recount:
  "known tbl v \<Longrightarrow> set v \<subseteq> S \<Longrightarrow> group_inv tbl S v (fold (detail_add tbl) v (ResetExtraDetails d))"
  using fold_detail_reset_last_type [of tbl v d] by (auto simp: group_inv_def)

lemma split_prune_inv:
  assumes "group_inv tbl S v d"
  shows "post (split_prune tbl i v d) (\<lambda>(v1, d1). group_inv tbl S v1 d1)"
proof -
  have v: "known tbl v" "set v \<subseteq> S" using assms by (auto simp: group_inv_def)
  have "group_inv tbl S w (fold (detail_add tbl) w (ResetExtraDetails d))" if "set w \<subseteq> set v" for w
    using known_subset [OF v(1) that] v(2) that by (intro group_inv_recount) auto
  from this [of "filter (\<lambda>m. expiry tbl m = nExpiryDate i) v"]
    this [OF set_prune_strike [of tbl "nStrikePrice i" v]] assms
  show ?thesis by (simp add: split_prune_known [OF v(1)] Let_def)
qed

text \<open>What the \<open>switch\<close> does to the running group and the output.\<close>

definition switched :: "OMSScripInfo \<Rightarrow> CompositeBcastMsg \<Rightarrow> TRADE_MSG_STORE \<Rightarrow> details \<Rightarrow>
    TRADE_VECTOR_STORE \<Rightarrow> TRADE_MSG_STORE \<times> details \<times> TRADE_VECTOR_STORE \<Rightarrow> bool" where
  "switched i m v d out st \<longleftrightarrow>
    (case st of (v1, d1, out1) \<Rightarrow>
      set v1 \<subseteq> set (v @ [m]) \<and> m \<in> set v1 \<and> (out1 = out \<or> out1 = out @ [v @ [m]]) \<and>
      (if nCustomInstrumentType i \<in> {1, 2, 3} then \<exists>d0. d1 = detail_leg i m d0
       else v1 = v @ [m] \<and> d1 = d))"

lemma split_switch_shape:
  assumes v: "group_inv tbl S v d" and m: "tbl (tok m) \<noteq> None" and i: "i = info_of tbl m"
  shows "post (split_switch tbl i m (v @ [m], d\<lparr>lcTokenStore := T\<rparr>, out))
    (switched i m v (d\<lparr>lcTokenStore := T\<rparr>) out)"
proof -
  let ?d = "d\<lparr>lcTokenStore := T\<rparr>"
  have kv: "known tbl (v @ [m])" using v m by (auto simp: group_inv_def)
  show ?thesis
  proof (cases "nCustomInstrumentType i \<in> {1, 2, 3} \<and> leg_returns i ?d \<and> \<not> legs_equal ?d")
    case False
    then show ?thesis by (auto simp: split_switch_def switched_def)
  next
    case True
    then have "\<exists>x \<in> set (v @ [m]). itype tbl x \<noteq> nCustomInstrumentType i"
      using v by (force simp: leg_returns_def group_inv_def)
    then obtain w where "split_regroup tbl i (v @ [m]) ?d =
        Inr (w, fold (detail_add tbl) w (ResetExtraDetails ?d))" "set w \<subseteq> set (v @ [m])" "m \<in> set w"
      using split_regroup_known [OF kv i] by blast
    with True show ?thesis by (auto simp: split_switch_def switched_def)
  qed
qed

text \<open>The end of the body either keeps the group or empties it and emits some of its messages.\<close>

definition emitted :: "TRADE_MSG_STORE \<Rightarrow> details \<Rightarrow> TRADE_VECTOR_STORE \<Rightarrow>
    TRADE_MSG_STORE \<times> details \<times> TRADE_VECTOR_STORE \<Rightarrow> bool" where
  "emitted v d out st \<longleftrightarrow> st = (v, d, out) \<or>
    (\<exists>d1 g. st = ([], d1, out @ [g]) \<and> lnLastCustomInstrumentType d1 = 0 \<and> set g \<subseteq> set v)"

lemma split_emit_shape:
  assumes "known tbl v"
  shows "post (split_emit tbl (v, d, out)) (emitted v d out)"
proof -
  have mid: "post (GetMiddleQty 0 v tbl 0 0) (\<lambda>(_, a, b). a \<le> length v \<and> b \<le> length v)"
    unfolding GetMiddleQty_def using assms
    by (intro middle_loop_in) (simp_all add: middle_scan_init_def)
  have grp: "post (bindR (middle_group v q a b) (\<lambda>(g, q1, q3).
      if q3 = q1 \<and> q1 = q then Inr ([], ResetExtraDetails d, out @ [g]) else Inr (v, d, out)))
      (emitted v d out)" if "a \<le> length v" "b \<le> length v" for q a b
    by (rule post_bindR [OF middle_group_in [OF that]])
      (auto simp: emitted_def ResetExtraDetails_def)
  have "post (bindR (GetMiddleQty 0 v tbl 0 0) (\<lambda>(q, start, stop).
      bindR (middle_group v q start stop) (\<lambda>(g, q1, q3).
      if q3 = q1 \<and> q1 = q then Inr ([], ResetExtraDetails d, out @ [g]) else Inr (v, d, out))))
      (emitted v d out)"
    by (rule post_bindR [OF mid]) (use grp in auto)
  then show ?thesis by (simp add: split_emit_def) (simp add: emitted_def)
qed

lemma switched_inv:
  assumes "switched i m v d out st" and "group_inv tbl S v d" and "tbl (tok m) \<noteq> None" "m \<in> S"
    and "\<forall>g \<in> set out. set g \<subseteq> S" and i: "i = info_of tbl m"
  shows "split_inv tbl S st"
proof -
  obtain v1 d1 out1 where st: "st = (v1, d1, out1)" by (cases st)
  have sub: "set v1 \<subseteq> set (v @ [m])" "m \<in> set v1" using assms(1) by (simp_all add: switched_def st)
  have "known tbl (v @ [m])" "set (v @ [m]) \<subseteq> S" using assms(2-4) by (auto simp: group_inv_def)
  with sub have "known tbl v1" "set v1 \<subseteq> S" using known_subset [OF _ sub(1)] by blast+
  moreover have "\<forall>g \<in> set out1. set g \<subseteq> S"
    using assms(1,5) \<open>set (v @ [m]) \<subseteq> S\<close> unfolding switched_def st by fastforce
  moreover have "\<exists>x \<in> set v1. itype tbl x = lnLastCustomInstrumentType d1"
    if "lnLastCustomInstrumentType d1 \<noteq> 0"
  proof (cases "nCustomInstrumentType i \<in> {1, 2, 3}")
    case True
    with assms(1) have "lnLastCustomInstrumentType d1 = itype tbl m"
      by (auto simp: switched_def st detail_leg_last_type i)
    with sub(2) show ?thesis by auto
  next
    case False
    with assms(1) have "v1 = v @ [m]" "d1 = d" by (simp_all add: switched_def st)
    with assms(2) that show ?thesis by (auto simp: group_inv_def)
  qed
  ultimately show ?thesis by (simp add: split_inv_def group_inv_def st)
qed

lemma emitted_inv: "emitted v d out st \<Longrightarrow> split_inv tbl S (v, d, out) \<Longrightarrow> split_inv tbl S st"
  by (fastforce simp: emitted_def split_inv_def group_inv_def)

text \<open>
  The body as a chain of these shapes, for any property of the loop state that they carry over.
\<close>

lemma split_step_chain:
  assumes m: "tbl (tok m) \<noteq> None" "m \<in> S" and inv: "split_inv tbl S (spTemp s, spDetails s, spOut s)"
    and drop: "not_one_sided m \<Longrightarrow> P ([], ResetExtraDetails (spDetails s), spOut s)"
    and chain: "\<And>v d T v1 d1 out1 st. split_prune tbl (info_of tbl m) (spTemp s) (spDetails s) = Inr (v, d) \<Longrightarrow>
      switched (info_of tbl m) m v (d\<lparr>lcTokenStore := T\<rparr>) (spOut s) (v1, d1, out1) \<Longrightarrow>
      emitted v1 d1 out1 st \<Longrightarrow> P st"
  shows "post (split_step tbl m s) (\<lambda>s1. split_inv tbl S (spTemp s1, spDetails s1, spOut s1) \<and>
    P (spTemp s1, spDetails s1, spOut s1))"
proof (cases "not_one_sided m")
  case True
  with inv drop show ?thesis
    by (simp add: split_step_def split_inv_def group_inv_def) (simp add: ResetExtraDetails_def)
next
  case False
  let ?i = "info_of tbl m"
  have g: "group_inv tbl S (spTemp s) (spDetails s)" "\<forall>g \<in> set (spOut s). set g \<subseteq> S"
    using inv by (simp_all add: split_inv_def)
  obtain v d where pr: "split_prune tbl ?i (spTemp s) (spDetails s) = Inr (v, d)"
    and gv: "group_inv tbl S v d"
    using split_prune_inv [OF g(1), of ?i] by (auto elim!: postE)
  let ?T = "insert (tok m) (lcTokenStore d)"
  obtain v1 d1 out1 where
    sw: "split_switch tbl ?i m (v @ [m], d\<lparr>lcTokenStore := ?T\<rparr>, spOut s) = Inr (v1, d1, out1)"
    "switched ?i m v (d\<lparr>lcTokenStore := ?T\<rparr>) (spOut s) (v1, d1, out1)"
    using split_switch_shape [OF gv m(1) refl, of ?T "spOut s"] by (auto elim!: postE)
  have "group_inv tbl S v (d\<lparr>lcTokenStore := ?T\<rparr>)" using gv by (simp add: group_inv_def)
  with sw(2) have inv1: "split_inv tbl S (v1, d1, out1)"
    using m g(2) by (rule switched_inv) (rule refl)
  then have "known tbl v1" by (simp add: split_inv_def group_inv_def)
  then obtain v2 d2 out2 where
    em: "split_emit tbl (v1, d1, out1) = Inr (v2, d2, out2)" "emitted v1 d1 out1 (v2, d2, out2)"
    using split_emit_shape [of tbl v1 d1 out1] by (auto elim!: postE)
  have "split_inv tbl S (v2, d2, out2)" using em(2) inv1 by (rule emitted_inv)
  moreover have "P (v2, d2, out2)" using pr sw(2) em(2) by (rule chain)
  ultimately show ?thesis
    using False m(1) by (simp add: split_step_def pr sw(1) em(1))
qed

lemma split_step_inv:
  assumes "tbl (tok m) \<noteq> None" and "m \<in> S" and "split_inv tbl S (spTemp s, spDetails s, spOut s)"
  shows "post (split_step tbl m s) (\<lambda>s1. split_inv tbl S (spTemp s1, spDetails s1, spOut s1))"
  using split_step_chain [OF assms, of "\<lambda>_. True"] by simp

lemma split_loop_inv:
  assumes "known tbl store"
  shows "post (foldR (split_step tbl) store split_init)
    (\<lambda>s. split_inv tbl (set store) (spTemp s, spDetails s, spOut s))"
proof (rule foldR_post)
  show "split_inv tbl (set store) (spTemp split_init, spDetails split_init, spOut split_init)"
    by (simp add: split_inv_def group_inv_def split_init_def details_init_def)
qed (rule split_step_inv, use assms in \<open>simp_all add: knownD\<close>)

lemma SplitTrade_post:
  assumes "known tbl store"
  shows "post (SplitTrade store ts tbl) (\<lambda>out. \<forall>g \<in> set out. set g \<subseteq> set store)"
proof -
  have "post (bindR (foldR (split_step tbl) store split_init) (\<lambda>s. Inr (spOut s)))
      (\<lambda>out. \<forall>g \<in> set out. set g \<subseteq> set store)"
    by (rule post_bindR [OF split_loop_inv [OF assms]]) (simp add: split_inv_def)
  then show ?thesis by (simp add: SplitTrade_def)
qed

lemma SplitTrade_returns:
  "known tbl store \<Longrightarrow> \<exists>gs. SplitTrade store ts tbl = Inr gs \<and> (\<forall>g \<in> set gs. set g \<subseteq> set store)"
  using SplitTrade_post [of tbl store ts] by (simp add: post_ex)

section \<open>One expiry per group\<close>

definition same_expiry :: "TOKENDATA_STORE \<Rightarrow> TRADE_MSG_STORE \<Rightarrow> bool" where
  "same_expiry tbl v \<longleftrightarrow> (\<forall>m \<in> set v. \<forall>m' \<in> set v. expiry tbl m = expiry tbl m')"

text \<open>Every contract is a future, a call or a put and has an expiry.\<close>

definition leg_contracts :: "TOKENDATA_STORE \<Rightarrow> CompositeBcastMsg set \<Rightarrow> bool" where
  "leg_contracts tbl S \<longleftrightarrow> (\<forall>m \<in> S. itype tbl m \<in> {1, 2, 3} \<and> expiry tbl m \<noteq> 0)"

definition expiry_inv :: "TOKENDATA_STORE \<Rightarrow> TRADE_MSG_STORE \<times> details \<times> TRADE_VECTOR_STORE \<Rightarrow> bool" where
  "expiry_inv tbl st \<longleftrightarrow>
    (case st of (v, d, out) \<Rightarrow> (\<forall>m \<in> set v. expiry tbl m = lnLastExpiryDate d) \<and>
      (\<forall>g \<in> set out. same_expiry tbl g))"

lemma split_prune_expiry:
  assumes "known tbl v" and "leg_contracts tbl (set v)"
    and "\<forall>m \<in> set v. expiry tbl m = lnLastExpiryDate d" and "split_prune tbl i v d = Inr (v1, d1)"
  shows "\<forall>m \<in> set v1. expiry tbl m = nExpiryDate i"
proof (cases "lnLastExpiryDate d \<noteq> 0 \<and> lnLastExpiryDate d \<noteq> nExpiryDate i")
  case True
  with assms(4) show ?thesis by (auto simp: split_prune_known [OF assms(1)] Let_def)
next
  case False
  with assms(2,3) have "\<forall>m \<in> set v. expiry tbl m = nExpiryDate i"
    by (auto simp: leg_contracts_def)
  moreover have "set v1 \<subseteq> set v"
    using assms(4) set_prune_strike [of tbl "nStrikePrice i" v] False
    by (auto simp: split_prune_known [OF assms(1)] Let_def split: if_splits)
  ultimately show ?thesis by auto
qed

lemma split_step_expiry:
  assumes m: "tbl (tok m) \<noteq> None" "m \<in> S" and S: "leg_contracts tbl S"
    and inv: "split_inv tbl S (spTemp s, spDetails s, spOut s)"
    and ex: "expiry_inv tbl (spTemp s, spDetails s, spOut s)"
  shows "post (split_step tbl m s) (\<lambda>s1. split_inv tbl S (spTemp s1, spDetails s1, spOut s1) \<and>
    expiry_inv tbl (spTemp s1, spDetails s1, spOut s1))"
proof (rule split_step_chain [OF m inv])
  show "expiry_inv tbl ([], ResetExtraDetails (spDetails s), spOut s)"
    using ex by (simp add: expiry_inv_def)
next
  fix v d T v1 d1 out1 st
  assume pr: "split_prune tbl (info_of tbl m) (spTemp s) (spDetails s) = Inr (v, d)"
    and sw: "switched (info_of tbl m) m v (d\<lparr>lcTokenStore := T\<rparr>) (spOut s) (v1, d1, out1)"
    and em: "emitted v1 d1 out1 st"
  have k: "known tbl (spTemp s)"
    "\<forall>m \<in> set (spTemp s). expiry tbl m = lnLastExpiryDate (spDetails s)" "set (spTemp s) \<subseteq> S"
    using inv ex by (simp_all add: split_inv_def group_inv_def expiry_inv_def)
  from k(3) S have lc: "leg_contracts tbl (set (spTemp s))" unfolding leg_contracts_def by blast
  have v: "\<forall>x \<in> set v. expiry tbl x = expiry tbl m"
    using k(1) lc k(2) pr by (rule split_prune_expiry)
  have leg: "itype tbl m \<in> {1, 2, 3}" using m S by (simp add: leg_contracts_def)
  have l: "lnLastExpiryDate d1 = expiry tbl m"
    using sw leg by (auto simp: switched_def detail_leg_def)
  have vm: "\<forall>x \<in> set (v @ [m]). expiry tbl x = expiry tbl m" using v by simp
  then have se: "same_expiry tbl (v @ [m])" unfolding same_expiry_def by metis
  have sub: "set v1 \<subseteq> set (v @ [m])" and out: "out1 = spOut s \<or> out1 = spOut s @ [v @ [m]]"
    using sw by (simp_all add: switched_def)
  have ei: "\<forall>x \<in> set v1. expiry tbl x = lnLastExpiryDate d1" "\<forall>g \<in> set out1. same_expiry tbl g"
  proof -
    show "\<forall>x \<in> set v1. expiry tbl x = lnLastExpiryDate d1" unfolding l using vm sub by blast
    show "\<forall>g \<in> set out1. same_expiry tbl g"
      using out se ex by (auto simp only: expiry_inv_def prod.case set_append list.set Un_iff)
  qed
  have "same_expiry tbl g" if "set g \<subseteq> set v1" for g
    using that ei(1) unfolding same_expiry_def by (metis subsetD)
  with em ei show "expiry_inv tbl st"
    by (auto simp: emitted_def expiry_inv_def)
qed

lemma SplitTrade_expiry:
  assumes "known tbl store" and "leg_contracts tbl (set store)"
    and "\<not> (length store = 3 \<and> card ts = 3)"
  shows "post (SplitTrade store ts tbl) (\<lambda>out. \<forall>g \<in> set out. same_expiry tbl g)"
proof -
  let ?I = "\<lambda>s. split_inv tbl (set store) (spTemp s, spDetails s, spOut s) \<and>
    expiry_inv tbl (spTemp s, spDetails s, spOut s)"
  have "post (foldR (split_step tbl) store split_init) ?I"
  proof (rule foldR_post)
    show "?I split_init"
      by (simp add: split_inv_def group_inv_def expiry_inv_def split_init_def details_init_def)
  qed (rule split_step_expiry, use assms in \<open>simp_all add: knownD\<close>)
  then have "post (bindR (foldR (split_step tbl) store split_init) (\<lambda>s. Inr (spOut s)))
      (\<lambda>out. \<forall>g \<in> set out. same_expiry tbl g)"
    by (rule post_bindR) (simp add: expiry_inv_def)
  then show ?thesis using assms(3) by (simp only: SplitTrade_def if_False)
qed

section \<open>Properties\<close>

text \<open>
  C9. On messages of known contracts \<open>SplitTrade\<close> neither dereferences a null pointer nor runs past
  the end of a vector, although its helpers do so on other vectors, and every group it produces
  consists of stored messages.
\<close>

lemma split_safe:
  assumes "known tbl store"
  shows "\<exists>gs. SplitTrade store ts tbl = Inr gs \<and> (\<forall>g \<in> set gs. set g \<subseteq> set store)"
  by (rule SplitTrade_returns [OF assms])

lemma split_safe_witness:
  "\<exists>gs. SplitTrade (sample_burst @ sample_burst) {1, 2, 3} sample_table = Inr gs \<and>
    (\<forall>g \<in> set gs. set g \<subseteq> set (sample_burst @ sample_burst))"
  by (rule split_safe) (simp add: sample_burst_known)

text \<open>
  C10. If every contract is a future, a call or a put with an expiry date, the groups that the scan
  of \<open>SplitTrade\<close> produces have one expiry each. The shortcut for a burst of three messages and
  three tokens does not look at the expiry and is excluded.
\<close>

lemma split_one_expiry:
  assumes "known tbl store" and "leg_contracts tbl (set store)"
    and "\<not> (length store = 3 \<and> card ts = 3)"
  shows "\<exists>gs. SplitTrade store ts tbl = Inr gs \<and> (\<forall>g \<in> set gs. same_expiry tbl g)"
  using SplitTrade_expiry [OF assms] by (simp add: post_ex)

lemma split_one_expiry_witness:
  "\<exists>gs. SplitTrade (sample_burst @ sample_burst) {1, 2, 3} sample_table = Inr gs \<and>
    (\<forall>g \<in> set gs. same_expiry sample_table g)"
  by (rule split_one_expiry)
    (simp_all add: sample_burst_known, simp_all add: sample_burst_def leg_contracts_def)

text \<open>The contracts of \<open>tbl\<close> with every put at the strike \<open>k\<close>.\<close>

definition puts_at :: "int \<Rightarrow> TOKENDATA_STORE \<Rightarrow> TOKENDATA_STORE" where
  "puts_at k tbl t = map_option (\<lambda>i. if nCustomInstrumentType i = 3 then i\<lparr>nStrikePrice := k\<rparr> else i) (tbl t)"

lemma puts_at_known: "known (puts_at k tbl) v \<longleftrightarrow> known tbl v"
  by (simp add: known_def puts_at_def)

lemma puts_at_info:
  assumes "known tbl v" and "m \<in> set v"
  shows "itype (puts_at k tbl) m = itype tbl m" and "expiry (puts_at k tbl) m = expiry tbl m"
    and "strike (puts_at k tbl) m = (if itype tbl m = 3 then k else strike tbl m)"
  using assms by (auto simp: known_def info_of_def puts_at_def)

lemma puts_at_leg: "known tbl v \<Longrightarrow> leg (puts_at k tbl) ty v = leg tbl ty v"
  unfolding leg_def by (rule filter_cong) (simp_all add: puts_at_info)

lemma puts_at_balanced:
  assumes "known tbl v"
  shows "balanced (puts_at k tbl) v \<longleftrightarrow> balanced tbl v"
proof -
  have "side_add (puts_at k tbl) m = side_add tbl m" if "m \<in> set v" for m
    using puts_at_info(1) [OF assms that] by (simp add: side_add_def side_leg_def fun_eq_iff)
  then have "store_sides (puts_at k tbl) v = store_sides tbl v"
    unfolding store_sides_def by (rule fold_cong [OF HOL.refl HOL.refl])
  then show ?thesis by (simp add: balanced_def puts_at_leg [OF assms] leg_qty_def)
qed



end
