(* ===== verification/ShmQueue.thy ===== *)
theory ShmQueue
  imports Prelude
begin

text \<open>
  \<^verbatim>\<open>src/shmQueue.h\<close>: attaching a queue in shared memory and the operations of
  the three queue classes; \<open>shmQueue1\<close> is the one the program publishes its trades on. The queue
  in the segment is
  boost's \<open>spsc_queue\<close> (in \<open>shmQueue\<close> and \<open>shmMPSCQueue\<close> a class of another repository):
  its operations are parameters, with the documented behaviour of a bounded first-in first-out
  queue as the assumptions of the locale \<open>spsc_queue\<close>.
\<close>

section \<open>Attaching to the segment\<close>

text \<open>
  What the operating system answers: the key, the identifier of the exclusive \<open>shmget\<close> and its
  \<open>errno\<close>, the identifier of the plain \<open>shmget\<close>, and the object at the attached address
  (\<open>None\<close> when \<open>shmat\<close> fails).
\<close>

record 'q shm_env =
  envKey :: int
  envGetExcl :: int
  envErrno :: int
  envGet :: int
  envAttach :: "'q option"

datatype 'q attach = AssertFails | ProcessExits | NoQueue | Attached 'q

definition EEXIST :: int where "EEXIST = 17"

definition attach_segment :: "'q option \<Rightarrow> bool \<Rightarrow> 'q \<Rightarrow> 'q attach" where
  "attach_segment found keep fresh =
    (case found of None \<Rightarrow> ProcessExits | Some q \<Rightarrow> Attached (if keep then q else fresh))"

text \<open>\<open>shmQueue\<close> finds out itself whether the segment exists; its argument \<open>exists\<close> is unused.\<close>

definition shmQueue_new :: "string \<Rightarrow> int \<Rightarrow> 'q shm_env \<Rightarrow> 'q \<Rightarrow> 'q attach" where
  "shmQueue_new path exists env fresh =
    (if 1024 < length path then AssertFails
     else if envKey env = - 1 then NoQueue
     else if envGetExcl env = - 1 then
       (let shmid = (if envErrno env = EEXIST then envGet env else - 1)
        in if shmid = - 1 then NoQueue
           else attach_segment (envAttach env) (envErrno env = EEXIST) fresh)
     else attach_segment (envAttach env) False fresh)"

text \<open>\<open>shmQueue1\<close> and \<open>shmMPSCQueue\<close> trust the argument and exit on every error.\<close>

definition shmQueue1_new :: "string \<Rightarrow> int \<Rightarrow> 'q shm_env \<Rightarrow> 'q \<Rightarrow> 'q attach" where
  "shmQueue1_new path exists env fresh =
    (if 1024 < length path then AssertFails
     else if envKey env = - 1 then ProcessExits
     else if envGet env = - 1 then ProcessExits
     else attach_segment (envAttach env) (exists = 1) fresh)"

definition shmMPSCQueue_new :: "string \<Rightarrow> int \<Rightarrow> 'q shm_env \<Rightarrow> 'q \<Rightarrow> 'q attach" where
  "shmMPSCQueue_new path exists env fresh =
    (if 1024 < length path then AssertFails
     else if envKey env = - 1 then ProcessExits
     else if envGet env = - 1 then ProcessExits
     else attach_segment (envAttach env) (exists = 1) fresh)"

section \<open>The operations of shmQueue1\<close>

text \<open>
  \<open>push\<close> returns whether the record went in, \<open>pop\<close> the record if there was one. Each operation is
  one step here; \<open>QueueLock\<close> has the steps inside, and shows when calls are as if one after the
  other. The counter \<open>_Size\<close> is written before the call that may fail.
\<close>

record 'q shmQueue1 =
  sqSize :: int
  sqPtrQ :: 'q

definition shmQueue1_enqueue ::
  "('a \<Rightarrow> 'q \<Rightarrow> bool \<times> 'q) \<Rightarrow> 'a \<Rightarrow> 'q shmQueue1 \<Rightarrow> bool \<times> 'q shmQueue1" where
  "shmQueue1_enqueue push x s =
    (let s1 = s\<lparr>sqSize := wrap32 (sqSize s + 1)\<rparr>; (bRet, q) = push x (sqPtrQ s1)
     in (bRet, s1\<lparr>sqPtrQ := q\<rparr>))"

definition shmQueue1_dequeue ::
  "('q \<Rightarrow> 'a option \<times> 'q) \<Rightarrow> 'q shmQueue1 \<Rightarrow> 'a option \<times> 'q shmQueue1" where
  "shmQueue1_dequeue pop s =
    (let s1 = s\<lparr>sqSize := wrap32 (sqSize s - 1)\<rparr>; (r, q) = pop (sqPtrQ s1)
     in (r, s1\<lparr>sqPtrQ := q\<rparr>))"

definition shmQueue1_isEmpty :: "('q \<Rightarrow> bool) \<Rightarrow> 'q shmQueue1 \<Rightarrow> bool" where
  "shmQueue1_isEmpty emptyq s = emptyq (sqPtrQ s)"

section \<open>The operations of shmQueue and shmMPSCQueue\<close>

text \<open>
  Both classes hold nothing but the pointer to a queue whose class is not among the sources; every
  operation hands its arguments on. \<open>enq\<close>, \<open>deq\<close>, \<open>emptyq\<close>, \<open>pop\<close> and \<open>front\<close> are the operations of
  that class.
\<close>

definition shmQueue_enqueue :: "('r \<Rightarrow> 'q \<Rightarrow> bool \<times> 'q) \<Rightarrow> 'r \<Rightarrow> 'q \<Rightarrow> bool \<times> 'q" where
  "shmQueue_enqueue enq recordArgs q = enq recordArgs q"

definition shmQueue_dequeue :: "('q \<Rightarrow> 'r option \<times> 'q) \<Rightarrow> 'q \<Rightarrow> 'r option \<times> 'q" where
  "shmQueue_dequeue deq q = deq q"

definition shmQueue_isEmpty :: "('q \<Rightarrow> bool) \<Rightarrow> 'q \<Rightarrow> bool" where
  "shmQueue_isEmpty emptyq q = emptyq q"

definition shmQueue_popFront :: "('q \<Rightarrow> 'q) \<Rightarrow> 'q \<Rightarrow> 'q" where
  "shmQueue_popFront pop q = pop q"

definition shmQueue_frontPtr :: "('q \<Rightarrow> 'r option) \<Rightarrow> 'q \<Rightarrow> 'r option" where
  "shmQueue_frontPtr front q = front q"

definition shmMPSCQueue_enqueue :: "('r \<Rightarrow> 'q \<Rightarrow> bool \<times> 'q) \<Rightarrow> 'r \<Rightarrow> 'q \<Rightarrow> bool \<times> 'q" where
  "shmMPSCQueue_enqueue enq recordArgs q = enq recordArgs q"

definition shmMPSCQueue_dequeue :: "('q \<Rightarrow> 'r option \<times> 'q) \<Rightarrow> 'q \<Rightarrow> 'r option \<times> 'q" where
  "shmMPSCQueue_dequeue deq q = deq q"

definition shmMPSCQueue_isEmpty :: "('q \<Rightarrow> bool) \<Rightarrow> 'q \<Rightarrow> bool" where
  "shmMPSCQueue_isEmpty emptyq q = emptyq q"

definition shmMPSCQueue_popFront :: "('q \<Rightarrow> 'q) \<Rightarrow> 'q \<Rightarrow> 'q" where
  "shmMPSCQueue_popFront pop q = pop q"

text \<open>
  \<open>benqueue\<close> tries until the record goes in. \<open>other k\<close> is what the consumer does to the queue
  while the producer yields after its attempt number \<open>k\<close>; the result counts the failed attempts.
\<close>

partial_function (option) shmQueue_benqueue ::
  "('r \<Rightarrow> 'q \<Rightarrow> bool \<times> 'q) \<Rightarrow> (nat \<Rightarrow> 'q \<Rightarrow> 'q) \<Rightarrow> nat \<Rightarrow> 'r \<Rightarrow> 'q \<Rightarrow> (nat \<times> 'q) option" where
  "shmQueue_benqueue enq other k recordArgs q =
    (let (ok, q1) = shmQueue_enqueue enq recordArgs q
     in if ok then Some (k, q1) else shmQueue_benqueue enq other (k + 1) recordArgs (other k q1))"

section \<open>Bounded first-in first-out queues\<close>

datatype 'a queue_op = Enq 'a | Deq

text \<open>
  Producer and consumer in some order: the records the queue accepted, the records the consumer
  received, and the queue at the end.
\<close>

fun queue_run ::
  "('a \<Rightarrow> 's \<Rightarrow> bool \<times> 's) \<Rightarrow> ('s \<Rightarrow> 'a option \<times> 's) \<Rightarrow> 'a queue_op list \<Rightarrow> 's \<Rightarrow> 'a list \<times> 'a list \<times> 's" where
  "queue_run enq deq [] s = ([], [], s)"
| "queue_run enq deq (Enq x # os) s =
     (let (ok, s1) = enq x s; (acc, got, s2) = queue_run enq deq os s1
      in (if ok then x # acc else acc, got, s2))"
| "queue_run enq deq (Deq # os) s =
     (let (r, s1) = deq s; (acc, got, s2) = queue_run enq deq os s1
      in (acc, case r of None \<Rightarrow> got | Some x \<Rightarrow> x # got, s2))"

text \<open>A consumer that takes one record during the yields \<open>k\<close> with \<open>acts k\<close>.\<close>

definition takes :: "('s \<Rightarrow> 'a option \<times> 's) \<Rightarrow> (nat \<Rightarrow> bool) \<Rightarrow> nat \<Rightarrow> 's \<Rightarrow> 's" where
  "takes deq acts k s = (if acts k then snd (deq s) else s)"

locale bounded_fifo =
  fixes enq :: "'a \<Rightarrow> 's \<Rightarrow> bool \<times> 's"
    and deq :: "'s \<Rightarrow> 'a option \<times> 's"
    and isEmpty :: "'s \<Rightarrow> bool"
    and items :: "'s \<Rightarrow> 'a list"
    and valid :: "'s \<Rightarrow> bool"
    and cap :: nat
  assumes enq_room: "valid s \<Longrightarrow> length (items s) < cap \<Longrightarrow>
      fst (enq x s) \<and> items (snd (enq x s)) = items s @ [x] \<and> valid (snd (enq x s))"
    and enq_full: "valid s \<Longrightarrow> \<not> length (items s) < cap \<Longrightarrow>
      \<not> fst (enq x s) \<and> items (snd (enq x s)) = items s \<and> valid (snd (enq x s))"
    and deq_Nil: "valid s \<Longrightarrow> items s = [] \<Longrightarrow>
      fst (deq s) = None \<and> items (snd (deq s)) = [] \<and> valid (snd (deq s))"
    and deq_Cons: "valid s \<Longrightarrow> items s = x # xs \<Longrightarrow>
      fst (deq s) = Some x \<and> items (snd (deq s)) = xs \<and> valid (snd (deq s))"
    and isEmpty_iff: "valid s \<Longrightarrow> isEmpty s \<longleftrightarrow> items s = []"
begin

lemma queue_run_fifo:
  assumes "valid s" and "queue_run enq deq os s = (acc, got, t)"
  shows "items s @ acc = got @ items t \<and> valid t"
  using assms
proof (induction os arbitrary: s acc got t)
  case (Cons op os)
  show ?case
  proof (cases op)
    case (Enq x)
    obtain ok s1 where e: "enq x s = (ok, s1)" by fastforce
    obtain acc1 got1 t1 where r: "queue_run enq deq os s1 = (acc1, got1, t1)"
      by (cases "queue_run enq deq os s1") auto
    have "valid s1 \<and> items s1 = (if ok then items s @ [x] else items s)"
      using enq_room [OF Cons.prems(1), of x] enq_full [OF Cons.prems(1), of x] e
      by (cases "length (items s) < cap") auto
    with Cons.IH [OF _ r] Cons.prems(2) r e Enq show ?thesis
      by (auto simp: Let_def split: if_splits)
  next
    case Deq
    obtain r s1 where d: "deq s = (r, s1)" by fastforce
    obtain acc1 got1 t1 where q: "queue_run enq deq os s1 = (acc1, got1, t1)"
      by (cases "queue_run enq deq os s1") auto
    have "valid s1 \<and> (case r of None \<Rightarrow> items s = [] \<and> items s1 = [] | Some x \<Rightarrow> items s = x # items s1)"
      using deq_Nil [OF Cons.prems(1)] deq_Cons [OF Cons.prems(1)] d by (cases "items s") auto
    with Cons.IH [OF _ q] Cons.prems(2) q d Deq show ?thesis
      by (auto split: option.splits)
  qed
qed simp

lemma benqueue_room:
  "valid s \<Longrightarrow> length (items s) < cap \<Longrightarrow>
   \<exists>t. shmQueue_benqueue enq other k x s = Some (k, t) \<and> items t = items s @ [x] \<and> valid t"
  by (subst shmQueue_benqueue.simps) (use enq_room [of s x] in \<open>auto simp: shmQueue_enqueue_def split: prod.split\<close>)

lemma benqueue_retry:
  "valid s \<Longrightarrow> \<not> length (items s) < cap \<Longrightarrow>
   \<exists>s1. shmQueue_benqueue enq other k x s = shmQueue_benqueue enq other (k + 1) x (other k s1) \<and>
     items s1 = items s \<and> valid s1"
  by (subst shmQueue_benqueue.simps) (use enq_full [of s x] in \<open>auto simp: shmQueue_enqueue_def split: prod.split\<close>)

text \<open>The first consumed record makes room, and the record goes in behind the others.\<close>

lemma benqueue_returns:
  assumes "valid s" and "length (items s) = cap" and "0 < cap" and "acts j" and "k \<le> j"
  shows "\<exists>n t. shmQueue_benqueue enq (takes deq acts) k x s = Some (n, t) \<and> k < n \<and> n \<le> j + 1 \<and>
    items t = tl (items s) @ [x] \<and> valid t"
  using assms(1,2,5)
proof (induction "j - k" arbitrary: k s)
  case (Suc d)
  obtain s1 where s1: "shmQueue_benqueue enq (takes deq acts) k x s =
      shmQueue_benqueue enq (takes deq acts) (k + 1) x (takes deq acts k s1)" "items s1 = items s" "valid s1"
    using benqueue_retry [OF Suc.prems(1)] Suc.prems(2) by (metis less_irrefl)
  show ?case
  proof (cases "acts k")
    case True
    have "items s1 \<noteq> []" using s1(2) Suc.prems(2) assms(3) by auto
    then obtain y ys where y: "items s1 = y # ys" by (auto simp: neq_Nil_conv)
    from deq_Cons [OF s1(3) y] True have "items (takes deq acts k s1) = ys" "valid (takes deq acts k s1)"
      by (simp_all add: takes_def)
    moreover have "length ys < cap" "tl (items s) = ys" using y s1(2) Suc.prems(2) by auto
    ultimately show ?thesis
      using benqueue_room [of "takes deq acts k s1" "takes deq acts" "k + 1" x] s1(1) Suc.hyps(2) by auto
  next
    case False
    then have "takes deq acts k s1 = s1" by (simp add: takes_def)
    with Suc.hyps(1) [of "k + 1" s1] s1 Suc.hyps(2) Suc.prems(2) show ?thesis by fastforce
  qed
next
  case 0
  then have k: "k = j" by simp
  obtain s1 where s1: "shmQueue_benqueue enq (takes deq acts) k x s =
      shmQueue_benqueue enq (takes deq acts) (k + 1) x (takes deq acts k s1)" "items s1 = items s" "valid s1"
    using benqueue_retry [OF 0(2)] 0(3) by (metis less_irrefl)
  have "items s1 \<noteq> []" using s1(2) 0(3) assms(3) by auto
  then obtain y ys where y: "items s1 = y # ys" by (auto simp: neq_Nil_conv)
  from deq_Cons [OF s1(3) y] assms(4) k have "items (takes deq acts k s1) = ys" "valid (takes deq acts k s1)"
    by (simp_all add: takes_def)
  moreover have "length ys < cap" "tl (items s) = ys" using y s1(2) 0(3) by auto
  ultimately show ?case
    using benqueue_room [of "takes deq acts k s1" "takes deq acts" "k + 1" x] s1(1) k by auto
qed

lemma benqueue_blocks:
  assumes "valid s" and "length (items s) = cap" and "\<forall>j. \<not> acts j"
  shows "shmQueue_benqueue enq (takes deq acts) k x s = None"
proof -
  have blocked: "takes deq acts k q = q" for k q using assms(3) by (simp add: takes_def)
  have full: "\<not> ok \<and> items q1 = items q \<and> valid q1"
    if "enq y q = (ok, q1)" "valid q" "length (items q) = cap" for ok q q1 y
    using enq_full [of q y] that by simp
  have "e = enq \<longrightarrow> other = takes deq acts \<longrightarrow> \<not> (valid q \<and> length (items q) = cap)"
    if "shmQueue_benqueue e other k y q = Some r" for e other k y q r
    by (rule shmQueue_benqueue.raw_induct [where P = "\<lambda>e other k y q r. e = enq \<longrightarrow> other = takes deq acts \<longrightarrow>
        \<not> (valid q \<and> length (items q) = cap)", OF _ that])
      (auto simp: shmQueue_enqueue_def blocked dest!: full split: prod.splits if_splits, metis)
  with assms show ?thesis by (cases "shmQueue_benqueue enq (takes deq acts) k x s") auto
qed

end

locale spsc_queue =
  fixes push :: "'a \<Rightarrow> 'q \<Rightarrow> bool \<times> 'q"
    and pop :: "'q \<Rightarrow> 'a option \<times> 'q"
    and emptyq :: "'q \<Rightarrow> bool"
    and contents :: "'q \<Rightarrow> 'a list"
    and wf :: "'q \<Rightarrow> bool"
    and cap :: nat
  assumes push_room: "wf q \<Longrightarrow> length (contents q) < cap \<Longrightarrow>
      \<exists>q1. push x q = (True, q1) \<and> contents q1 = contents q @ [x] \<and> wf q1"
    and push_full: "wf q \<Longrightarrow> \<not> length (contents q) < cap \<Longrightarrow> push x q = (False, q)"
    and pop_Nil: "wf q \<Longrightarrow> contents q = [] \<Longrightarrow> pop q = (None, q)"
    and pop_Cons: "wf q \<Longrightarrow> contents q = x # xs \<Longrightarrow>
      \<exists>q1. pop q = (Some x, q1) \<and> contents q1 = xs \<and> wf q1"
    and emptyq_iff: "wf q \<Longrightarrow> emptyq q \<longleftrightarrow> contents q = []"

text \<open>The wrapper keeps the contract of the queue it wraps.\<close>

sublocale spsc_queue \<subseteq> shm: bounded_fifo "shmQueue1_enqueue push" "shmQueue1_dequeue pop"
    "shmQueue1_isEmpty emptyq" "\<lambda>s. contents (sqPtrQ s)" "\<lambda>s. wf (sqPtrQ s)" cap
proof unfold_locales
  fix s :: "'q shmQueue1" and x
  assume "wf (sqPtrQ s)" "length (contents (sqPtrQ s)) < cap"
  then obtain q1 where "push x (sqPtrQ s) = (True, q1)" "contents q1 = contents (sqPtrQ s) @ [x]" "wf q1"
    using push_room by blast
  then show "fst (shmQueue1_enqueue push x s) \<and>
      contents (sqPtrQ (snd (shmQueue1_enqueue push x s))) = contents (sqPtrQ s) @ [x] \<and>
      wf (sqPtrQ (snd (shmQueue1_enqueue push x s)))"
    by (simp add: shmQueue1_enqueue_def Let_def)
next
  fix s :: "'q shmQueue1" and x xs
  assume "wf (sqPtrQ s)" "contents (sqPtrQ s) = x # xs"
  then obtain q1 where "pop (sqPtrQ s) = (Some x, q1)" "contents q1 = xs" "wf q1"
    using pop_Cons by blast
  then show "fst (shmQueue1_dequeue pop s) = Some x \<and>
      contents (sqPtrQ (snd (shmQueue1_dequeue pop s))) = xs \<and>
      wf (sqPtrQ (snd (shmQueue1_dequeue pop s)))"
    by (simp add: shmQueue1_dequeue_def Let_def)
qed (simp_all add: shmQueue1_enqueue_def shmQueue1_dequeue_def shmQueue1_isEmpty_def Let_def
    push_full pop_Nil emptyq_iff)

context spsc_queue
begin

lemma interleaved:
  assumes "wf (sqPtrQ s)" and "queue_run (shmQueue1_enqueue push) (shmQueue1_dequeue pop) os s = (acc, got, t)"
  shows "contents (sqPtrQ s) @ acc = got @ contents (sqPtrQ t)"
  using shm.queue_run_fifo [OF assms] by blast

end

section \<open>A queue with this contract\<close>

text \<open>The contract is satisfiable: a list of at most \<open>cap\<close> elements.\<close>

definition list_push :: "nat \<Rightarrow> 'a \<Rightarrow> 'a list \<Rightarrow> bool \<times> 'a list" where
  "list_push cap x q = (if length q < cap then (True, q @ [x]) else (False, q))"

definition list_pop :: "'a list \<Rightarrow> 'a option \<times> 'a list" where
  "list_pop q = (case q of [] \<Rightarrow> (None, []) | x # xs \<Rightarrow> (Some x, xs))"

interpretation listq: spsc_queue "list_push cap" list_pop "\<lambda>q. q = []" "\<lambda>q. q" "\<lambda>q. length q \<le> cap" cap
  for cap
  by unfold_locales (auto simp: list_push_def list_pop_def)

section \<open>Properties\<close>

text \<open>
  The counter \<open>_Size\<close> does not count the records: a push that fails because the queue is full
  counts up, and a pop that finds the queue empty counts down, while the contents stay the same.
\<close>

lemma queue_size_drifts:
  assumes "spsc_queue push pop emptyq contents valid cap" and "valid (sqPtrQ s)"
  shows "(length (contents (sqPtrQ s)) \<ge> cap \<longrightarrow>
      shmQueue1_enqueue push x s = (False, s\<lparr>sqSize := wrap32 (sqSize s + 1)\<rparr>)) \<and>
    (contents (sqPtrQ s) = [] \<longrightarrow>
      shmQueue1_dequeue pop s = (None, s\<lparr>sqSize := wrap32 (sqSize s - 1)\<rparr>))"
  using spsc_queue.push_full [OF assms, of x] spsc_queue.pop_Nil [OF assms]
  by (auto simp: shmQueue1_enqueue_def shmQueue1_dequeue_def Let_def)

lemma queue_size_drifts_witness:
  "shmQueue1_enqueue (list_push 1) (9 :: nat) \<lparr>sqSize = 1, sqPtrQ = [7]\<rparr> = (False, \<lparr>sqSize = 2, sqPtrQ = [7]\<rparr>)"
  using queue_size_drifts [of "list_push 1" list_pop "\<lambda>q. q = []" "\<lambda>q. q" "\<lambda>q. length q \<le> 1" 1
      "\<lparr>sqSize = 1, sqPtrQ = [7 :: nat]\<rparr>" 9, OF listq.spsc_queue_axioms]
  by (simp add: wrap32_small)

text \<open>
  A program that passes \<open>exists = 0\<close>, as \<open>main\<close> does, never attaches to the records that are in
  the segment: it constructs a fresh queue over them, or exits. The class \<open>shmQueue\<close> ignores the
  argument and decides by whether the segment was there.
\<close>

lemma restart_empties_queue:
  "shmQueue1_new path 0 env fresh \<in> {AssertFails, ProcessExits, Attached fresh} \<and>
   shmMPSCQueue_new path 0 env fresh \<in> {AssertFails, ProcessExits, Attached fresh} \<and>
   shmQueue_new path x env fresh = shmQueue_new path y env fresh"
  by (auto simp: shmQueue1_new_def shmMPSCQueue_new_def shmQueue_new_def attach_segment_def
    split: option.split)

text \<open>
  \<open>benqueue\<close> on a full queue returns if and only if the consumer takes a record during one of
  its yields; then the new record is behind those that were left. The hypothesis is the contract
  of a bounded first-in first-out queue for the queue class that \<open>shmQueue\<close> wraps.
\<close>

lemma benqueue_waits:
  assumes "bounded_fifo enq deq isEmpty items valid cap" and "valid q" and "length (items q) = cap" and "0 < cap"
  shows "((\<exists>r. shmQueue_benqueue enq (takes deq acts) 0 x q = Some r) \<longleftrightarrow> (\<exists>j. acts j)) \<and>
    (\<forall>n t. shmQueue_benqueue enq (takes deq acts) 0 x q = Some (n, t) \<longrightarrow> items t = tl (items q) @ [x])"
proof (cases "\<exists>j. acts j")
  case True
  then obtain j where "acts j" ..
  from bounded_fifo.benqueue_returns [OF assms, of acts j 0 x] this True show ?thesis by fastforce
next
  case False
  with bounded_fifo.benqueue_blocks [OF assms(1-3), of acts 0 x] show ?thesis by simp
qed

end
