(* ===== verification/QueueLock.thy ===== *)
theory QueueLock
  imports ShmQueue
begin

text \<open>
  The calls of \<open>shmQueue1\<close> at the grain of their statements (\<^verbatim>\<open>src/shmQueue.h\<close>): any number of threads
  in any number of processes take the mutex, count, call the queue in the segment and release. The
  mutex and the counter are members of the object, so every process has its own; the segment holds
  only the queue.
\<close>

section \<open>Threads, calls and steps\<close>

text \<open>A thread is the number of its process and its number there.\<close>

datatype thread = Thread (process_of: nat) (number_of: nat)

text \<open>Where a thread is: before \<open>lock\<close>, before \<open>_Size++\<close>, before the call, inside it, before \<open>unlock\<close>.\<close>

datatype 'a lock_pc = LIdle | LLock "'a queue_op" | LCount "'a queue_op" | LCall "'a queue_op"
  | LIn "'a queue_op" | LUnlock

text \<open>
  The last four components are history, which no step reads but \<open>lsClash\<close>: the calls that returned,
  with their process, the records accepted and received, and whether two calls of the same operation
  of the queue were ever under way together.
\<close>

record ('a, 'q) lock_state =
  lsHolder :: "nat \<Rightarrow> thread option"
  lsSize :: "nat \<Rightarrow> int"
  lsPtrQ :: 'q
  lsPc :: "thread \<Rightarrow> 'a lock_pc"
  lsCalls :: "(nat \<times> 'a queue_op) list"
  lsAccepted :: "'a list"
  lsReceived :: "'a list"
  lsClash :: bool

definition lock_init :: "'q \<Rightarrow> ('a, 'q) lock_state" where
  "lock_init q = \<lparr>lsHolder = (\<lambda>p. None), lsSize = (\<lambda>p. 0), lsPtrQ = q, lsPc = (\<lambda>t. LIdle),
     lsCalls = [], lsAccepted = [], lsReceived = [], lsClash = False\<rparr>"

fun is_enq :: "'a queue_op \<Rightarrow> bool" where
  "is_enq (Enq x) = True"
| "is_enq Deq = False"

definition resize :: "'a queue_op \<Rightarrow> int \<Rightarrow> int" where
  "resize op n = wrap32 (if is_enq op then n + 1 else n - 1)"

text \<open>\<open>produces\<close> and \<open>consumes\<close> say which processes enqueue and which dequeue.\<close>

definition permitted :: "(nat \<Rightarrow> bool) \<Rightarrow> (nat \<Rightarrow> bool) \<Rightarrow> 'a queue_op \<Rightarrow> nat \<Rightarrow> bool" where
  "permitted produces consumes op p = (if is_enq op then produces p else consumes p)"

definition goto :: "thread \<Rightarrow> 'a lock_pc \<Rightarrow> ('a, 'q) lock_state \<Rightarrow> ('a, 'q) lock_state" where
  "goto t l s = s\<lparr>lsPc := (lsPc s)(t := l)\<rparr>"

text \<open>
  The queue of the segment is lock-free for one producer and one consumer: a push and a pop that
  overlap take effect one after the other. Two pushes or two pops that overlap break its
  requirement, and from then on a call leaves in the segment whatever it likes (\<open>ls_ruin\<close>).
\<close>

inductive lock_step ::
  "('a \<Rightarrow> 'q \<Rightarrow> bool \<times> 'q) \<Rightarrow> ('q \<Rightarrow> 'a option \<times> 'q) \<Rightarrow> (nat \<Rightarrow> bool) \<Rightarrow> (nat \<Rightarrow> bool) \<Rightarrow>
   ('a, 'q) lock_state \<Rightarrow> ('a, 'q) lock_state \<Rightarrow> bool"
  for push pop produces consumes
where
  ls_start: "lsPc s t = LIdle \<Longrightarrow> permitted produces consumes op (process_of t) \<Longrightarrow>
    lock_step push pop produces consumes s (goto t (LLock op) s)"
| ls_lock: "lsPc s t = LLock op \<Longrightarrow> lsHolder s (process_of t) = None \<Longrightarrow>
    lock_step push pop produces consumes s
      (goto t (LCount op) (s\<lparr>lsHolder := (lsHolder s)(process_of t := Some t)\<rparr>))"
| ls_count: "lsPc s t = LCount op \<Longrightarrow>
    lock_step push pop produces consumes s
      (goto t (LCall op) (s\<lparr>lsSize := (lsSize s)(process_of t := resize op (lsSize s (process_of t)))\<rparr>))"
| ls_call: "lsPc s t = LCall op \<Longrightarrow>
    lock_step push pop produces consumes s
      (goto t (LIn op) (s\<lparr>lsClash := lsClash s \<or>
        (\<exists>u op1. lsPc s u = LIn op1 \<and> is_enq op1 = is_enq op)\<rparr>))"
| ls_push: "lsPc s t = LIn (Enq x) \<Longrightarrow> \<not> lsClash s \<Longrightarrow> push x (lsPtrQ s) = (bRet, q) \<Longrightarrow>
    lock_step push pop produces consumes s
      (goto t LUnlock (s\<lparr>lsPtrQ := q, lsCalls := lsCalls s @ [(process_of t, Enq x)],
        lsAccepted := lsAccepted s @ (if bRet then [x] else [])\<rparr>))"
| ls_pop: "lsPc s t = LIn Deq \<Longrightarrow> \<not> lsClash s \<Longrightarrow> pop (lsPtrQ s) = (r, q) \<Longrightarrow>
    lock_step push pop produces consumes s
      (goto t LUnlock (s\<lparr>lsPtrQ := q, lsCalls := lsCalls s @ [(process_of t, Deq)],
        lsReceived := lsReceived s @ (case r of None \<Rightarrow> [] | Some x \<Rightarrow> [x])\<rparr>))"
| ls_ruin: "lsPc s t = LIn op \<Longrightarrow> lsClash s \<Longrightarrow>
    lock_step push pop produces consumes s
      (goto t LUnlock (s\<lparr>lsPtrQ := q, lsCalls := lsCalls s @ [(process_of t, op)]\<rparr>))"
| ls_unlock: "lsPc s t = LUnlock \<Longrightarrow>
    lock_step push pop produces consumes s
      (goto t LIdle (s\<lparr>lsHolder := (lsHolder s)(process_of t := None)\<rparr>))"

definition lock_reaches ::
  "('a \<Rightarrow> 'q \<Rightarrow> bool \<times> 'q) \<Rightarrow> ('q \<Rightarrow> 'a option \<times> 'q) \<Rightarrow> (nat \<Rightarrow> bool) \<Rightarrow> (nat \<Rightarrow> bool) \<Rightarrow> 'q \<Rightarrow>
   ('a, 'q) lock_state \<Rightarrow> bool" where
  "lock_reaches push pop produces consumes q = (lock_step push pop produces consumes)\<^sup>*\<^sup>* (lock_init q)"

section \<open>The invariant of the mutexes\<close>

fun call_of :: "'a lock_pc \<Rightarrow> 'a queue_op option" where
  "call_of (LLock op) = Some op"
| "call_of (LCount op) = Some op"
| "call_of (LCall op) = Some op"
| "call_of (LIn op) = Some op"
| "call_of _ = None"

fun locked :: "'a lock_pc \<Rightarrow> bool" where
  "locked LIdle = False"
| "locked (LLock op) = False"
| "locked _ = True"

text \<open>A thread between \<open>lock\<close> and \<open>unlock\<close> holds the mutex of its process and calls what the process may.\<close>

definition mutex_inv :: "(nat \<Rightarrow> bool) \<Rightarrow> (nat \<Rightarrow> bool) \<Rightarrow> ('a, 'q) lock_state \<Rightarrow> bool" where
  "mutex_inv produces consumes s \<longleftrightarrow>
    (\<forall>t. locked (lsPc s t) \<longrightarrow> lsHolder s (process_of t) = Some t) \<and>
    (\<forall>p t. lsHolder s p = Some t \<longrightarrow> process_of t = p \<and> locked (lsPc s t)) \<and>
    (\<forall>t op. call_of (lsPc s t) = Some op \<longrightarrow> permitted produces consumes op (process_of t))"

lemma mutex_inv_step:
  assumes "lock_step push pop produces consumes s s1" and "mutex_inv produces consumes s"
  shows "mutex_inv produces consumes s1"
proof -
  have own: "lsHolder s (process_of t) = Some t" if "locked (lsPc s t)" for t
    using assms(2) that unfolding mutex_inv_def by blast
  have home: "process_of t = p \<and> locked (lsPc s t)" if "lsHolder s p = Some t" for p t
    using assms(2) that unfolding mutex_inv_def by blast
  have may: "permitted produces consumes op (process_of t)" if "call_of (lsPc s t) = Some op" for t op
    using assms(2) that unfolding mutex_inv_def by blast
  from assms(1) have "locked (lsPc s1 t) \<longrightarrow> lsHolder s1 (process_of t) = Some t" for t
    by cases (auto simp: goto_def own dest: own)
  moreover from assms(1) have "lsHolder s1 p = Some t \<longrightarrow> process_of t = p \<and> locked (lsPc s1 t)" for p t
    by cases (auto simp: goto_def own dest: home)
  moreover from assms(1) have "call_of (lsPc s1 t) = Some op \<longrightarrow> permitted produces consumes op (process_of t)" for t op
    by cases (auto simp: goto_def may dest: may)
  ultimately show ?thesis unfolding mutex_inv_def by blast
qed

lemma mutex_inv_reaches:
  assumes "lock_reaches push pop produces consumes q s"
  shows "mutex_inv produces consumes s"
  using assms unfolding lock_reaches_def
proof (induction rule: rtranclp_induct)
  case base
  show ?case by (simp add: mutex_inv_def lock_init_def)
next
  case (step s s1)
  then show ?case by (blast intro: mutex_inv_step)
qed

text \<open>So two threads of one process are never between \<open>lock\<close> and \<open>unlock\<close> together.\<close>

lemma mutual_exclusion:
  assumes "mutex_inv produces consumes s" and "locked (lsPc s t)" and "locked (lsPc s u)" and "process_of t = process_of u"
  shows "t = u"
  using assms unfolding mutex_inv_def by (metis option.inject)

text \<open>Calls of one operation overlap only when two processes make them.\<close>

definition one_process_each :: "(nat \<Rightarrow> bool) \<Rightarrow> (nat \<Rightarrow> bool) \<Rightarrow> bool" where
  "one_process_each produces consumes \<longleftrightarrow>
    (\<forall>p p1. produces p \<longrightarrow> produces p1 \<longrightarrow> p = p1) \<and> (\<forall>p p1. consumes p \<longrightarrow> consumes p1 \<longrightarrow> p = p1)"

lemma one_process_no_clash:
  assumes "mutex_inv produces consumes s" and "one_process_each produces consumes"
    and "lsPc s t = LCall op" and "lsPc s u = LIn op1" and "is_enq op1 = is_enq op"
  shows False
proof -
  from assms(1,3,4) have "permitted produces consumes op (process_of t)" "permitted produces consumes op1 (process_of u)"
    unfolding mutex_inv_def by simp_all
  with assms(2,5) have "process_of t = process_of u" by (auto simp: permitted_def one_process_each_def split: if_splits)
  with mutual_exclusion [OF assms(1), of t u] assms(3,4) show False by simp
qed

lemma no_clash_reaches:
  assumes "lock_reaches push pop produces consumes q s" and "one_process_each produces consumes"
  shows "\<not> lsClash s"
  using assms(1) unfolding lock_reaches_def
proof (induction rule: rtranclp_induct)
  case base
  show ?case by (simp add: lock_init_def)
next
  case (step s s1)
  from step.hyps(1) have inv: "mutex_inv produces consumes s"
    by (auto simp: lock_reaches_def intro: mutex_inv_reaches)
  from step.hyps(2) step.IH show ?case
    by cases (auto simp: goto_def dest: one_process_no_clash [OF inv assms(2)])
qed

section \<open>The calls in the order of their returns\<close>

lemma queue_run_snoc:
  "queue_run enq deq (os @ [op]) s =
    (let (acc, got, t) = queue_run enq deq os s; (acc1, got1, t1) = queue_run enq deq [op] t
     in (acc @ acc1, got @ got1, t1))"
proof (induction os arbitrary: s)
  case (Cons o1 os)
  then show ?case by (cases o1) (auto split: prod.split option.split)
qed simp

text \<open>The calls, one after the other, on one object.\<close>

definition in_sequence ::
  "('a \<Rightarrow> 'q \<Rightarrow> bool \<times> 'q) \<Rightarrow> ('q \<Rightarrow> 'a option \<times> 'q) \<Rightarrow> 'q \<Rightarrow> ('a, 'q) lock_state \<Rightarrow> bool" where
  "in_sequence push pop q s \<longleftrightarrow> (\<exists>n.
    queue_run (shmQueue1_enqueue push) (shmQueue1_dequeue pop) (map snd (lsCalls s)) \<lparr>sqSize = 0, sqPtrQ = q\<rparr> =
      (lsAccepted s, lsReceived s, \<lparr>sqSize = n, sqPtrQ = lsPtrQ s\<rparr>))"

lemma in_sequence_step:
  assumes "lock_step push pop produces consumes s s1" and "\<not> lsClash s" and "in_sequence push pop q s"
  shows "in_sequence push pop q s1"
  using assms
proof (induction rule: lock_step.induct)
  case (ls_push s t x bRet q1)
  then show ?case
    by (auto simp: in_sequence_def goto_def queue_run_snoc shmQueue1_enqueue_def Let_def)
next
  case (ls_pop s t r q1)
  then show ?case
    by (cases r) (auto simp: in_sequence_def goto_def queue_run_snoc shmQueue1_dequeue_def Let_def)
qed (auto simp: in_sequence_def goto_def)

lemma in_sequence_reaches:
  assumes "lock_reaches push pop produces consumes q s" and "one_process_each produces consumes"
  shows "in_sequence push pop q s"
  using assms(1) unfolding lock_reaches_def
proof (induction rule: rtranclp_induct)
  case base
  show ?case by (simp add: in_sequence_def lock_init_def)
next
  case (step s s1)
  from step.hyps(1) have "\<not> lsClash s"
    by (rule no_clash_reaches [OF _ assms(2), unfolded lock_reaches_def])
  with step show ?case by (blast intro: in_sequence_step)
qed

section \<open>The counters\<close>

definition count_calls :: "nat \<Rightarrow> (nat \<times> 'a queue_op) list \<Rightarrow> int" where
  "count_calls p calls = foldl (\<lambda>n c. resize (snd c) n) 0 (filter (\<lambda>c. fst c = p) calls)"

lemma count_calls_Nil [simp]: "count_calls p [] = 0"
  by (simp add: count_calls_def)

lemma count_calls_snoc [simp]:
  "count_calls p (calls @ [(p1, op)]) = (if p1 = p then resize op (count_calls p calls) else count_calls p calls)"
  by (simp add: count_calls_def)

text \<open>A counter is ahead of the calls that returned by the call that is counted and not back yet.\<close>

fun counted :: "'a lock_pc \<Rightarrow> int \<Rightarrow> int" where
  "counted (LCall op) n = resize op n"
| "counted (LIn op) n = resize op n"
| "counted _ n = n"

definition size_inv :: "('a, 'q) lock_state \<Rightarrow> bool" where
  "size_inv s \<longleftrightarrow> (\<forall>p. lsSize s p =
    (case lsHolder s p of None \<Rightarrow> count_calls p (lsCalls s)
     | Some t \<Rightarrow> counted (lsPc s t) (count_calls p (lsCalls s))))"

lemma size_inv_step:
  assumes "lock_step push pop produces consumes s s1" and "mutex_inv produces consumes s" and "size_inv s"
  shows "size_inv s1"
proof -
  have own: "lsHolder s (process_of t) = Some t" if "locked (lsPc s t)" for t
    using assms(2) that unfolding mutex_inv_def by blast
  have home: "process_of t = p \<and> locked (lsPc s t)" if "lsHolder s p = Some t" for p t
    using assms(2) that unfolding mutex_inv_def by blast
  from assms(1,3) own home show ?thesis
    by cases (fastforce simp: size_inv_def goto_def split: option.splits if_splits)+
qed

lemma size_inv_reaches:
  assumes "lock_reaches push pop produces consumes q s"
  shows "size_inv s"
  using assms unfolding lock_reaches_def
proof (induction rule: rtranclp_induct)
  case base
  show ?case by (simp add: size_inv_def lock_init_def)
next
  case (step s s1)
  from step.hyps(1) have "mutex_inv produces consumes s"
    by (rule mutex_inv_reaches [unfolded lock_reaches_def])
  with step show ?case by (blast intro: size_inv_step)
qed

section \<open>Calls that overlap\<close>

lemma one_call:
  assumes "lsPc s t = LIdle" and "lsHolder s (process_of t) = None"
    and "permitted produces consumes op (process_of t)"
  shows "\<exists>s1. (lock_step push pop produces consumes)\<^sup>*\<^sup>* s s1 \<and> lsPc s1 = (lsPc s)(t := LIn op) \<and>
    lsHolder s1 = (lsHolder s)(process_of t := Some t) \<and>
    lsPtrQ s1 = lsPtrQ s \<and> lsAccepted s1 = lsAccepted s \<and> lsReceived s1 = lsReceived s \<and>
    (lsClash s1 \<longleftrightarrow> lsClash s \<or> (\<exists>u op1. lsPc s u = LIn op1 \<and> is_enq op1 = is_enq op))"
proof -
  let ?step = "lock_step push pop produces consumes" and ?p = "process_of t"
  let ?s1 = "goto t (LLock op) s"
  let ?s2 = "goto t (LCount op) (?s1\<lparr>lsHolder := (lsHolder ?s1)(?p := Some t)\<rparr>)"
  let ?s3 = "goto t (LCall op) (?s2\<lparr>lsSize := (lsSize ?s2)(?p := resize op (lsSize ?s2 ?p))\<rparr>)"
  let ?s4 = "goto t (LIn op) (?s3\<lparr>lsClash := lsClash ?s3 \<or>
    (\<exists>u op1. lsPc ?s3 u = LIn op1 \<and> is_enq op1 = is_enq op)\<rparr>)"
  have "?step s ?s1" by (rule ls_start [OF assms(1,3)])
  moreover have "?step ?s1 ?s2" by (rule ls_lock) (simp_all add: goto_def assms(2))
  moreover have "?step ?s2 ?s3" by (rule ls_count) (simp add: goto_def)
  moreover have "?step ?s3 ?s4" by (rule ls_call) (simp add: goto_def)
  ultimately have "?step\<^sup>*\<^sup>* s ?s4" by (meson converse_rtranclp_into_rtranclp rtranclp.rtrancl_refl)
  moreover have "lsPc ?s3 u = LIn op1 \<longleftrightarrow> lsPc s u = LIn op1" for u op1
    using assms(1) by (simp add: goto_def)
  ultimately show ?thesis by (intro exI [of _ ?s4]) (simp add: goto_def)
qed

lemma two_processes_clash:
  fixes op :: "'a queue_op" and push :: "'a \<Rightarrow> 'q \<Rightarrow> bool \<times> 'q"
  assumes "p \<noteq> p1" and "permitted produces consumes op p" and "permitted produces consumes op p1"
  shows "\<exists>s. lock_reaches push pop produces consumes q s \<and> lsClash s \<and> lsPtrQ s = q1"
proof -
  let ?step = "lock_step push pop produces consumes"
  let ?t = "Thread p 0" and ?u = "Thread p1 0"
  obtain s1 :: "('a, 'q) lock_state" where s1: "?step\<^sup>*\<^sup>* (lock_init q) s1" "lsPc s1 = (lsPc (lock_init q))(?t := LIn op)"
      "lsHolder s1 = (lsHolder (lock_init q))(p := Some ?t)"
    using one_call [of "lock_init q" ?t produces consumes op push pop] assms(2) by (auto simp: lock_init_def)
  have idle: "lsPc s1 ?u = LIdle" "lsHolder s1 (process_of ?u) = None"
    using s1(2,3) assms(1) by (simp_all add: lock_init_def)
  from one_call [OF idle, of produces consumes op push pop] assms(3)
  obtain s2 :: "('a, 'q) lock_state" where s2: "?step\<^sup>*\<^sup>* s1 s2" "lsPc s2 = (lsPc s1)(?u := LIn op)"
      "lsClash s2 \<longleftrightarrow> lsClash s1 \<or> (\<exists>u op1. lsPc s1 u = LIn op1 \<and> is_enq op1 = is_enq op)"
    by auto
  have "lsPc s1 ?t = LIn op" using s1(2) by simp
  then have clash: "lsClash s2" using s2(3) by blast
  have "lsPc s2 ?u = LIn op" using s2(2) by simp
  from ls_ruin [OF this clash, of push pop produces consumes q1] obtain s3 where
      "?step s2 s3" "lsClash s3" "lsPtrQ s3 = q1"
    using clash by (auto simp: goto_def)
  moreover from s1(1) s2(1) have "?step\<^sup>*\<^sup>* (lock_init q) s2" by (rule rtranclp_trans)
  ultimately show ?thesis
    unfolding lock_reaches_def by (blast intro: rtranclp.rtrancl_into_rtrancl)
qed

section \<open>Properties\<close>

text \<open>
  C19. However the threads of a producing and of a consuming process interleave their calls of
  \<open>shmQueue1\<close>, statement by statement, no two calls of the same operation of the queue overlap; the
  calls have the effect of \<open>shmQueue1_enqueue\<close> and \<open>shmQueue1_dequeue\<close> one after the other, in the
  order of their returns; what was received, followed by what is in the queue, is what was there at
  first, followed by the records that were accepted; and every counter \<open>_Size\<close> whose mutex is free
  counts the enqueues of its own process up and its dequeues down. The hypothesis on \<open>push\<close> and
  \<open>pop\<close> is the documented contract of the lock-free queue.
\<close>

lemma locked_queue_fifo:
  assumes "spsc_queue push pop emptyq contents valid cap" and "valid q"
    and "one_process_each produces consumes" and "lock_reaches push pop produces consumes q s"
  shows "\<not> lsClash s \<and> in_sequence push pop q s \<and>
    contents q @ lsAccepted s = lsReceived s @ contents (lsPtrQ s) \<and>
    (\<forall>p. lsHolder s p = None \<longrightarrow> lsSize s p = count_calls p (lsCalls s))"
proof (intro conjI)
  show "\<not> lsClash s" using no_clash_reaches [OF assms(4,3)] .
  show seq: "in_sequence push pop q s" using in_sequence_reaches [OF assms(4,3)] .
  then obtain n where "queue_run (shmQueue1_enqueue push) (shmQueue1_dequeue pop) (map snd (lsCalls s))
      \<lparr>sqSize = 0, sqPtrQ = q\<rparr> = (lsAccepted s, lsReceived s, \<lparr>sqSize = n, sqPtrQ = lsPtrQ s\<rparr>)"
    by (auto simp: in_sequence_def)
  from spsc_queue.interleaved [OF assms(1) _ this] assms(2)
  show "contents q @ lsAccepted s = lsReceived s @ contents (lsPtrQ s)" by simp
  show "\<forall>p. lsHolder s p = None \<longrightarrow> lsSize s p = count_calls p (lsCalls s)"
    using size_inv_reaches [OF assms(4)] by (simp add: size_inv_def)
qed

lemma locked_queue_fifo_witness:
  "\<exists>s. lock_reaches (list_push 2) list_pop (\<lambda>p. p = 0) (\<lambda>p. p = 1) [8] s \<and>
    lsPc s = (\<lambda>t. LIdle)(Thread 0 0 := LUnlock, Thread 1 0 := LUnlock) \<and>
    lsAccepted s = [7 :: nat] \<and> lsReceived s = [8] \<and> lsPtrQ s = [7]"
proof -
  let ?step = "lock_step (list_push 2) list_pop (\<lambda>p. p = 0) (\<lambda>p. p = 1) ::
    (nat, nat list) lock_state \<Rightarrow> (nat, nat list) lock_state \<Rightarrow> bool"
  let ?i = "lock_init [8] :: (nat, nat list) lock_state" and ?t = "Thread 0 0" and ?u = "Thread 1 0"
  obtain s1 where s1: "?step\<^sup>*\<^sup>* ?i s1" "lsPc s1 = (\<lambda>t. LIdle)(?t := LIn (Enq 7))"
      "lsHolder s1 = (\<lambda>p. None)(0 := Some ?t)" "lsPtrQ s1 = [8]" "lsAccepted s1 = []" "lsReceived s1 = []"
      "\<not> lsClash s1"
    using one_call [of ?i ?t "\<lambda>p. p = 0" "\<lambda>p. p = 1" "Enq 7" "list_push 2" list_pop]
    by (auto simp: lock_init_def permitted_def)
  have "lsPc s1 ?u = LIdle" "lsHolder s1 (process_of ?u) = None" "\<And>u op. lsPc s1 u = LIn op \<Longrightarrow> is_enq op"
    using s1(2,3) by (auto split: if_splits)
  with one_call [of s1 ?u "\<lambda>p. p = 0" "\<lambda>p. p = 1" Deq "list_push 2" list_pop] s1
  obtain s2 where s2: "?step\<^sup>*\<^sup>* s1 s2" "lsPc s2 = (lsPc s1)(?u := LIn Deq)"
      "lsPtrQ s2 = [8]" "lsAccepted s2 = []" "lsReceived s2 = []" "\<not> lsClash s2"
    by (fastforce simp: permitted_def)
  obtain s3 where s3: "?step s2 s3" "lsPc s3 = (lsPc s2)(?u := LUnlock)" "lsPtrQ s3 = []"
      "lsAccepted s3 = []" "lsReceived s3 = [8]" "\<not> lsClash s3"
    by (rule that [OF ls_pop [of s2 ?u list_pop "Some 8" "[]"]]) (use s2 in \<open>simp_all add: goto_def list_pop_def\<close>)
  obtain s4 where s4: "?step s3 s4" "lsPc s4 = (lsPc s3)(?t := LUnlock)" "lsAccepted s4 = [7]" "lsReceived s4 = [8]"
    by (rule that [OF ls_push [of s3 ?t 7 "list_push 2" True "[7]"]])
      (use s3 s2(2) s1(2) in \<open>simp_all add: goto_def list_push_def\<close>)
  have reach: "lock_reaches (list_push 2) list_pop (\<lambda>p. p = 0) (\<lambda>p. p = 1) [8] s4"
    unfolding lock_reaches_def using s1(1) s2(1) s3(1) s4(1)
    by (meson rtranclp.rtrancl_into_rtrancl rtranclp_trans)
  have "one_process_each (\<lambda>p. p = 0) (\<lambda>p. p = 1)" by (simp add: one_process_each_def)
  from locked_queue_fifo [OF listq.spsc_queue_axioms _ this reach] s4(3,4) have "lsPtrQ s4 = [7]" by simp
  with reach s4 s3(2) s2(2) s1(2) show ?thesis by (auto simp: fun_upd_twist)
qed

text \<open>
  C24. The mutex of \<open>shmQueue1\<close> is a member of the object, not in the segment: two calls of the same
  operation of the queue can overlap if and only if two processes enqueue or two processes dequeue,
  whatever threads they have; and then the segment can hold anything.
\<close>

lemma mutex_is_process_local:
  "((\<exists>s. lock_reaches push pop produces consumes q s \<and> lsClash s) \<longleftrightarrow> \<not> one_process_each produces consumes) \<and>
   ((\<forall>q1. \<exists>s. lock_reaches push pop produces consumes q s \<and> lsClash s \<and> lsPtrQ s = q1) \<longleftrightarrow>
      \<not> one_process_each produces consumes)"
proof -
  have "\<exists>s. lock_reaches push pop produces consumes q s \<and> lsClash s \<and> lsPtrQ s = q1"
    if two: "\<not> one_process_each produces consumes" for q1
  proof -
    from two consider p p1 where "p \<noteq> p1" "produces p" "produces p1" | p p1 where "p \<noteq> p1" "consumes p" "consumes p1"
      by (auto simp: one_process_each_def)
    then show ?thesis
    proof cases
      case 1
      with two_processes_clash [of p p1 produces consumes "Enq undefined"] show ?thesis by (simp add: permitted_def)
    next
      case 2
      with two_processes_clash [of p p1 produces consumes Deq] show ?thesis by (simp add: permitted_def)
    qed
  qed
  then show ?thesis using no_clash_reaches by metis
qed

end
