(* ===== verification/ConRev.thy ===== *)
theory ConRev
  imports Split ShmQueue
begin

text \<open>
  \<open>WriteDataInFile\<close> of \<^verbatim>\<open>src/main.cpp\<close>, the handler of every market data message: a
  one-sided trade is stored; any order message (or a spread trade) ends the burst of trades, which
  is validated, split into groups and published, one record per accepted group, on the shared
  queue. The records are those of \<^verbatim>\<open>src/struct_conrevtrade.h\<close>. The lines printed to standard
  output, with the contract name and local time computed for them, are in \<open>Report\<close>.
\<close>

section \<open>Records\<close>

record tagConRevTradeDetails =
  nTimestamp :: int
  nTotalTradeLot :: int
  nExpirayDate :: int
  nSpread :: int
  nStrikePrice :: int
  nExchangeSequenceNo :: int
  nStreamId :: int
  nStrategyIndentifier :: int
  cSymbol :: string

record tagTradeDetails =
  nTradedValue1 :: int
  nTradedValue2 :: int
  nTradedValue3 :: int
  nTotalTradeLot :: int
  nTradedVolume1 :: int
  nTradedVolume2 :: int
  nTradedVolume3 :: int
  nAvgTradePrice1 :: int
  nAvgTradePrice2 :: int
  nAvgTradePrice3 :: int
  nSpread :: int
  nStrikePrice :: int
  nStrategyIndentifier :: int
  cSymbol :: string

definition tagConRevTradeDetails_zero :: tagConRevTradeDetails where
  "tagConRevTradeDetails_zero = \<lparr>tagConRevTradeDetails.nTimestamp = 0, nTotalTradeLot = 0,
     nExpirayDate = 0, nSpread = 0, nStrikePrice = 0, nExchangeSequenceNo = 0, nStreamId = 0,
     nStrategyIndentifier = 0, cSymbol = []\<rparr>"

definition tagTradeDetails_zero :: tagTradeDetails where
  "tagTradeDetails_zero = \<lparr>nTradedValue1 = 0, nTradedValue2 = 0, nTradedValue3 = 0,
     nTotalTradeLot = 0, nTradedVolume1 = 0, nTradedVolume2 = 0, nTradedVolume3 = 0,
     nAvgTradePrice1 = 0, nAvgTradePrice2 = 0, nAvgTradePrice3 = 0, nSpread = 0, nStrikePrice = 0,
     nStrategyIndentifier = 0, cSymbol = []\<rparr>"

text \<open>The locals of \<open>WriteDataInFile\<close> that live across the groups.\<close>

record group_locals =
  glTrade :: tagTradeDetails
  glFirstSeqNo :: int
  glLastSeqNo :: int
  glTimestamp :: int
  glExpiryDate1 :: int
  glInfo :: "OMSScripInfo option"
  glConRev :: tagConRevTradeDetails

definition group_locals_init :: group_locals where
  "group_locals_init = \<lparr>glTrade = tagTradeDetails_zero, glFirstSeqNo = 0, glLastSeqNo = 0,
     glTimestamp = 0, glExpiryDate1 = 0, glInfo = None, glConRev = tagConRevTradeDetails_zero\<rparr>"

section \<open>One group\<close>

definition seqNo :: "CompositeBcastMsg \<Rightarrow> int" where
  "seqNo m = STREAM_HEADER.nSeqNo (TRD_MSG.header (trd m))"

text \<open>\<open>(int64_t)nTradeQty * nTradePrice\<close>, for options with the strike added to the price.\<close>

definition trade_value :: "OMSScripInfo \<Rightarrow> CompositeBcastMsg \<Rightarrow> int" where
  "trade_value i m =
    (if nCustomInstrumentType i = 1 then wrap64 (qty m * nTradePrice (trd m))
     else wrap64 (qty m * wrap32 (nTradePrice (trd m) + OMSScripInfo.nStrikePrice i)))"

definition strategy_of :: "CompositeBcastMsg \<Rightarrow> int \<Rightarrow> int" where
  "strategy_of m s =
    (let s1 = (if buyId m = 0 then 1 else s) in if sellId m = 0 then 2 else s1)"

definition trade_leg :: "OMSScripInfo \<Rightarrow> CompositeBcastMsg \<Rightarrow> group_locals \<Rightarrow> group_locals" where
  "trade_leg i m l =
    (let t = glTrade l in
     if nCustomInstrumentType i = 1 then
       l\<lparr>glExpiryDate1 := nExpiryDate i,
         glTrade := t\<lparr>nStrategyIndentifier := strategy_of m (tagTradeDetails.nStrategyIndentifier t),
           nTradedVolume1 := wrap32 (nTradedVolume1 t + qty m),
           nTradedValue1 := wrap64 (nTradedValue1 t + trade_value i m)\<rparr>\<rparr>
     else if nCustomInstrumentType i = 2 then
       l\<lparr>glTrade := t\<lparr>nStrikePrice := OMSScripInfo.nStrikePrice i,
           nTradedVolume3 := wrap32 (nTradedVolume3 t + qty m),
           nTradedValue3 := wrap64 (nTradedValue3 t + trade_value i m)\<rparr>\<rparr>
     else if nCustomInstrumentType i = 3 then
       l\<lparr>glTrade := t\<lparr>nStrikePrice := OMSScripInfo.nStrikePrice i,
           nTradedVolume2 := wrap32 (nTradedVolume2 t + qty m),
           nTradedValue2 := wrap64 (nTradedValue2 t + trade_value i m)\<rparr>\<rparr>
     else l)"

definition trade_step :: "TOKENDATA_STORE \<Rightarrow> CompositeBcastMsg \<Rightarrow> group_locals \<Rightarrow> group_locals" where
  "trade_step tbl m l =
    (let l1 = l\<lparr>glFirstSeqNo := (if glFirstSeqNo l = 0 then seqNo m else glFirstSeqNo l),
         glLastSeqNo := seqNo m, glTimestamp := lTimestamp (trd m)\<rparr>
     in case tbl (tok m) of None \<Rightarrow> l1 | Some i \<Rightarrow> trade_leg i m (l1\<lparr>glInfo := Some i\<rparr>))"

text \<open>The average prices, then the record of a conversion (1) or a reversal (2).\<close>

definition group_averages :: "tagTradeDetails \<Rightarrow> tagTradeDetails res" where
  "group_averages t =
    bindR (cdiv 64 (nTradedValue1 t) (nTradedVolume1 t)) (\<lambda>a1.
    bindR (cdiv 64 (nTradedValue2 t) (nTradedVolume2 t)) (\<lambda>a2.
    bindR (cdiv 64 (nTradedValue3 t) (nTradedVolume3 t)) (\<lambda>a3.
      Inr (t\<lparr>nAvgTradePrice1 := wrap32 a1, nAvgTradePrice2 := wrap32 a2,
             nAvgTradePrice3 := wrap32 a3\<rparr>))))"

definition group_spread :: "tagTradeDetails \<Rightarrow> int" where
  "group_spread t =
    (let synthetic = nAvgTradePrice3 t - nAvgTradePrice2 t + tagTradeDetails.nStrikePrice t
     in if tagTradeDetails.nStrategyIndentifier t = 1 then wrap32 (synthetic - nAvgTradePrice1 t)
        else wrap32 (nAvgTradePrice1 t - synthetic))"

definition fill_conrev ::
  "int \<Rightarrow> group_locals \<Rightarrow> OMSScripInfo \<Rightarrow> int \<Rightarrow> tagConRevTradeDetails \<Rightarrow> tagConRevTradeDetails" where
  "fill_conrev streamId l i lots r =
     r\<lparr>tagConRevTradeDetails.cSymbol := take SCRIP_SYMBOL_LEN (OMSScripInfo.cSymbol i),
       tagConRevTradeDetails.nSpread := tagTradeDetails.nSpread (glTrade l),
       tagConRevTradeDetails.nTotalTradeLot := lots, tagConRevTradeDetails.nTimestamp := glTimestamp l,
       tagConRevTradeDetails.nStrikePrice := tagTradeDetails.nStrikePrice (glTrade l),
       tagConRevTradeDetails.nStrategyIndentifier := tagTradeDetails.nStrategyIndentifier (glTrade l),
       tagConRevTradeDetails.nExpirayDate := wrap32 (glExpiryDate1 l), tagConRevTradeDetails.nExchangeSequenceNo := glLastSeqNo l,
       tagConRevTradeDetails.nStreamId := streamId\<rparr>"

definition publish_group ::
  "(tagConRevTradeDetails \<Rightarrow> 'q \<Rightarrow> bool \<times> 'q) \<Rightarrow> int \<Rightarrow> group_locals \<Rightarrow> 'q shmQueue1 \<Rightarrow>
   (group_locals \<times> 'q shmQueue1) res" where
  "publish_group push streamId l q =
    (if tagTradeDetails.nStrategyIndentifier (glTrade l) \<in> {1, 2} then
       (let l1 = l\<lparr>glTrade := (glTrade l)\<lparr>nSpread := group_spread (glTrade l)\<rparr>\<rparr>
        in bindR (deref (glInfo l)) (\<lambda>i.
           bindR (cdiv 32 (nTradedVolume1 (glTrade l)) (nBoardLotQty i)) (\<lambda>lots.
             let r = fill_conrev streamId l1 i lots (glConRev l1)
             in Inr (l1\<lparr>glConRev := r\<rparr>, snd (shmQueue1_enqueue push r q)))))
     else Inr (l, q))"

definition group_step ::
  "(tagConRevTradeDetails \<Rightarrow> 'q \<Rightarrow> bool \<times> 'q) \<Rightarrow> int \<Rightarrow> TOKENDATA_STORE \<Rightarrow> TRADE_MSG_STORE \<Rightarrow>
   group_locals \<times> 'q shmQueue1 \<Rightarrow> (group_locals \<times> 'q shmQueue1) res" where
  "group_step push streamId tbl g st =
    (case st of (l, q) \<Rightarrow>
      let l0 = l\<lparr>glTrade := tagTradeDetails_zero, glFirstSeqNo := 0\<rparr>
      in bindR (IsValidateConRev g tbl) (\<lambda>ok.
         if \<not> ok then Inr (l0, q)
         else
           (let l1 = fold (trade_step tbl) g (l0\<lparr>glInfo := None\<rparr>)
            in bindR (group_averages (glTrade l1)) (\<lambda>t.
               publish_group push streamId (l1\<lparr>glTrade := t\<rparr>) q))))"

section \<open>The handler\<close>

text \<open>The objects the globals point to.\<close>

record 'q trade_state =
  g_pcTradeMsgStore :: TRADE_MSG_STORE
  g_pccTokenStore :: TOKEN_STORE
  g_pcTokenDataStore :: TOKENDATA_STORE
  g_pcConRevQ :: "'q shmQueue1"

definition is_order_event :: "byte \<Rightarrow> bool" where
  "is_order_event t \<longleftrightarrow>
     t = NEW_ORDER \<or> t = ORDER_MODIFICATION \<or> t = ORDER_CANCELLATION \<or> t = SPREAD_NEW_ORDER \<or>
     t = SPREAD_ORDER_MODIFICATION \<or> t = SPREAD_ORDER_CANCELLATION \<or> t = SPREAD_TRADE_MESSAGE"

definition clear_stores :: "'q trade_state \<Rightarrow> 'q trade_state" where
  "clear_stores s = s\<lparr>g_pcTradeMsgStore := [], g_pccTokenStore := {}\<rparr>"

definition on_order_event ::
  "(tagConRevTradeDetails \<Rightarrow> 'q \<Rightarrow> bool \<times> 'q) \<Rightarrow> CompositeBcastMsg \<Rightarrow> 'q trade_state \<Rightarrow> 'q trade_state res" where
  "on_order_event push m s =
    bindR (ValidateTradeMsgRecords (g_pcTradeMsgStore s) (g_pccTokenStore s) (g_pcTokenDataStore s)) (\<lambda>ok.
      if \<not> ok then Inr (clear_stores s)
      else
        bindR (SplitTrade (g_pcTradeMsgStore s) (g_pccTokenStore s) (g_pcTokenDataStore s)) (\<lambda>groups.
        bindR (foldR (group_step push (STREAM_HEADER.wStremID (stHeader (stBcastMsg m))) (g_pcTokenDataStore s)) groups
                 (group_locals_init, g_pcConRevQ s)) (\<lambda>(l, q).
          Inr (clear_stores (s\<lparr>g_pcConRevQ := q\<rparr>)))))"

definition on_trade ::
  "CompositeBcastMsg \<Rightarrow> 'q trade_state \<Rightarrow> 'q trade_state res" where
  "on_trade m s =
    bindR (case g_pcTokenDataStore s (tok m) of
             None \<Rightarrow> Inr s
           | Some i \<Rightarrow>
               bindR (cdiv 32 (qty m) (nBoardLotQty i)) (\<lambda>lclot.
                 Inr (s\<lparr>g_pcTokenDataStore := (g_pcTokenDataStore s)
                   (tok m \<mapsto> i\<lparr>nTotalTraded := wrap64 (nTotalTraded i + lclot)\<rparr>)\<rparr>)))
      (\<lambda>s1.
        if not_one_sided m then Inr s1
        else Inr (s1\<lparr>g_pccTokenStore := insert (tok m) (g_pccTokenStore s1),
                     g_pcTradeMsgStore := g_pcTradeMsgStore s1 @ [m]\<rparr>))"

definition WriteDataInFile ::
  "(tagConRevTradeDetails \<Rightarrow> 'q \<Rightarrow> bool \<times> 'q) \<Rightarrow> CompositeBcastMsg \<Rightarrow> 'q trade_state \<Rightarrow> 'q trade_state res" where
  "WriteDataInFile push m s =
    (if is_order_event (msgType m) then on_order_event push m s
     else if msgType m = TRADE_MESSAGE then on_trade m s
     else Inr s)"

text \<open>\<open>WriteDataInFile1\<close> calls it on the globals, which are these objects.\<close>

definition WriteDataInFile1 ::
  "(tagConRevTradeDetails \<Rightarrow> 'q \<Rightarrow> bool \<times> 'q) \<Rightarrow> CompositeBcastMsg \<Rightarrow> 'q trade_state \<Rightarrow> 'q trade_state res" where
  "WriteDataInFile1 push m s = WriteDataInFile push m s"

section \<open>The record of a group\<close>

text \<open>
  The specification of what is published for one group, as a function of the group alone: the
  locals that the loop of the handler carries from group to group do not show in it.
\<close>

definition leg_value :: "TOKENDATA_STORE \<Rightarrow> int \<Rightarrow> TRADE_MSG_STORE \<Rightarrow> int" where
  "leg_value tbl ty g = wrap64 (sum_list (map (\<lambda>m. trade_value (info_of tbl m) m) (leg tbl ty g)))"

definition options_of :: "TOKENDATA_STORE \<Rightarrow> TRADE_MSG_STORE \<Rightarrow> TRADE_MSG_STORE" where
  "options_of tbl g = filter (\<lambda>m. itype tbl m \<in> {2, 3}) g"

definition group_strategy :: "TOKENDATA_STORE \<Rightarrow> TRADE_MSG_STORE \<Rightarrow> int" where
  "group_strategy tbl g = (if sellId (last (leg tbl 1 g)) = 0 then 2 else 1)"

definition group_record ::
  "TOKENDATA_STORE \<Rightarrow> int \<Rightarrow> TRADE_MSG_STORE \<Rightarrow> tagConRevTradeDetails res" where
  "group_record tbl streamId g =
    (let i = info_of tbl (last g); k = strike tbl (last (options_of tbl g)); s = group_strategy tbl g
     in bindR (cdiv 64 (leg_value tbl 1 g) (leg_qty tbl 1 g)) (\<lambda>a1.
        bindR (cdiv 64 (leg_value tbl 3 g) (leg_qty tbl 3 g)) (\<lambda>a2.
        bindR (cdiv 64 (leg_value tbl 2 g) (leg_qty tbl 2 g)) (\<lambda>a3.
        bindR (cdiv 32 (leg_qty tbl 1 g) (nBoardLotQty i)) (\<lambda>lots.
          Inr \<lparr>tagConRevTradeDetails.nTimestamp = lTimestamp (trd (last g)), nTotalTradeLot = lots,
             nExpirayDate = wrap32 (expiry tbl (last (leg tbl 1 g))),
             nSpread = (let synthetic = wrap32 a3 - wrap32 a2 + k
                        in if s = 1 then wrap32 (synthetic - wrap32 a1)
                           else wrap32 (wrap32 a1 - synthetic)),
             nStrikePrice = k, nExchangeSequenceNo = seqNo (last g), nStreamId = streamId,
             nStrategyIndentifier = s, cSymbol = take SCRIP_SYMBOL_LEN (OMSScripInfo.cSymbol i)\<rparr>)))))"

definition publish_one ::
  "(tagConRevTradeDetails \<Rightarrow> 'q \<Rightarrow> bool \<times> 'q) \<Rightarrow> int \<Rightarrow> TOKENDATA_STORE \<Rightarrow> TRADE_MSG_STORE \<Rightarrow>
   'q shmQueue1 \<Rightarrow> 'q shmQueue1 res" where
  "publish_one push streamId tbl g q =
    bindR (IsValidateConRev g tbl) (\<lambda>ok.
      if ok then bindR (group_record tbl streamId g) (\<lambda>r. Inr (snd (shmQueue1_enqueue push r q)))
      else Inr q)"

text \<open>What the locals hold after the messages \<open>u\<close> of a group.\<close>

definition traded :: "TOKENDATA_STORE \<Rightarrow> TRADE_MSG_STORE \<Rightarrow> group_locals \<Rightarrow> bool" where
  "traded tbl u l \<longleftrightarrow>
     nTradedVolume1 (glTrade l) = leg_qty tbl 1 u \<and> nTradedValue1 (glTrade l) = leg_value tbl 1 u \<and>
     nTradedVolume2 (glTrade l) = leg_qty tbl 3 u \<and> nTradedValue2 (glTrade l) = leg_value tbl 3 u \<and>
     nTradedVolume3 (glTrade l) = leg_qty tbl 2 u \<and> nTradedValue3 (glTrade l) = leg_value tbl 2 u \<and>
     (leg tbl 1 u \<noteq> [] \<longrightarrow> glExpiryDate1 l = expiry tbl (last (leg tbl 1 u)) \<and>
        tagTradeDetails.nStrategyIndentifier (glTrade l) = group_strategy tbl u) \<and>
     (options_of tbl u \<noteq> [] \<longrightarrow>
        tagTradeDetails.nStrikePrice (glTrade l) = strike tbl (last (options_of tbl u))) \<and>
     (u \<noteq> [] \<longrightarrow> glLastSeqNo l = seqNo (last u) \<and> glTimestamp l = lTimestamp (trd (last u)) \<and>
        glInfo l = Some (info_of tbl (last u)))"

lemma leg_value_snoc:
  "leg_value tbl ty (u @ [m]) =
    (if itype tbl m = ty then wrap64 (leg_value tbl ty u + trade_value (info_of tbl m) m)
     else leg_value tbl ty u)"
  by (simp add: leg_value_def leg_single wrap_add_left)

lemma options_snoc:
  "options_of tbl (u @ [m]) = (if itype tbl m \<in> {2, 3} then options_of tbl u @ [m] else options_of tbl u)"
  by (simp add: options_of_def)

lemma strategy_of_one_sided: "\<not> not_one_sided m \<Longrightarrow> strategy_of m s = (if sellId m = 0 then 2 else 1)"
  by (auto simp: strategy_of_def not_one_sided_def)

lemma traded_step:
  assumes "traded tbl u l" and "tbl (tok m) \<noteq> None" and "\<not> not_one_sided m"
  shows "traded tbl (u @ [m]) (trade_step tbl m l)"
proof -
  have t: "trade_step tbl m l = trade_leg (info_of tbl m) m (l\<lparr>
      glFirstSeqNo := (if glFirstSeqNo l = 0 then seqNo m else glFirstSeqNo l),
      glLastSeqNo := seqNo m, glTimestamp := lTimestamp (trd m), glInfo := Some (info_of tbl m)\<rparr>)"
    using assms(2) by (simp add: trade_step_def known_lookup Let_def)
  consider "itype tbl m = 1" | "itype tbl m = 2" | "itype tbl m = 3" | "itype tbl m \<notin> {1, 2, 3}"
    by blast
  then show ?thesis
    by cases (use assms(1,3) in \<open>simp_all add: t traded_def trade_leg_def Let_def leg_qty_snoc
      leg_value_snoc leg_single options_snoc group_strategy_def strategy_of_one_sided\<close>)
qed

lemma traded_fold:
  assumes "known tbl g" and "\<forall>m \<in> set g. \<not> not_one_sided m" and "glTrade l = tagTradeDetails_zero"
  shows "traded tbl g (fold (trade_step tbl) g l)"
  using assms(1,2)
proof (induction g rule: rev_induct)
  case Nil
  then show ?case
    by (simp add: traded_def assms(3) tagTradeDetails_zero_def leg_qty_def leg_value_def leg_def
      options_of_def wrap32_small wrap64_small)
next
  case (snoc m g)
  then show ?case by (simp add: traded_step)
qed

lemma trade_step_conrev [simp]: "glConRev (trade_step tbl m l) = glConRev l"
  by (simp add: trade_step_def trade_leg_def Let_def split: option.splits)

text \<open>Every field of the published record is written anew, whatever record came before.\<close>

lemma fill_conrev_eq:
  "fill_conrev streamId l i lots r =
     \<lparr>tagConRevTradeDetails.nTimestamp = glTimestamp l, nTotalTradeLot = lots,
       nExpirayDate = wrap32 (glExpiryDate1 l), nSpread = tagTradeDetails.nSpread (glTrade l),
       nStrikePrice = tagTradeDetails.nStrikePrice (glTrade l), nExchangeSequenceNo = glLastSeqNo l,
       nStreamId = streamId,
       nStrategyIndentifier = tagTradeDetails.nStrategyIndentifier (glTrade l),
       cSymbol = take SCRIP_SYMBOL_LEN (OMSScripInfo.cSymbol i)\<rparr>"
  by (cases r) (simp add: fill_conrev_def)

lemma group_step_publishes:
  assumes "known tbl g"
  shows "bindR (group_step push streamId tbl g (l, q)) (\<lambda>st. Inr (snd st)) =
    publish_one push streamId tbl g q"
proof -
  obtain ok where ok: "IsValidateConRev g tbl = Inr ok"
    using IsValidateConRev_returns [OF assms] by blast
  show ?thesis
  proof (cases ok)
    case False
    with ok show ?thesis by (simp add: group_step_def publish_one_def Let_def)
  next
    case True
    with ok have bal: "balanced tbl g" using IsValidateConRev_accepts(1) [OF assms] by simp
    define L where "L = fold (trade_step tbl) g (l\<lparr>glTrade := tagTradeDetails_zero, glFirstSeqNo := 0, glInfo := None\<rparr>)"
    have tr: "traded tbl g L"
      unfolding L_def using bal by (intro traded_fold assms) (simp_all add: balanced_def)
    have ne: "leg tbl 1 g \<noteq> []" "options_of tbl g \<noteq> []" "g \<noteq> []"
      using bal by (auto simp: balanced_def options_of_def leg_def filter_empty_conv)
    have s: "group_strategy tbl g \<in> {1, 2}" by (simp add: group_strategy_def)
    have LQ: "fold (trade_step tbl) g (l\<lparr>glTrade := tagTradeDetails_zero, glFirstSeqNo := 0,
        glInfo := None\<rparr>) = L"
      by (simp add: L_def)
    show ?thesis
      using tr ne s ok True
      by (cases "cdiv 64 (leg_value tbl 1 g) (leg_qty tbl 1 g)";
          cases "cdiv 64 (leg_value tbl 3 g) (leg_qty tbl 3 g)";
          cases "cdiv 64 (leg_value tbl 2 g) (leg_qty tbl 2 g)";
          cases "cdiv 32 (leg_qty tbl 1 g) (nBoardLotQty (info_of tbl (last g)))")
        (simp_all add: LQ group_step_def publish_one_def Let_def traded_def group_averages_def
          publish_group_def group_record_def fill_conrev_eq group_spread_def)
  qed
qed

lemma group_step_published:
  assumes "known tbl g"
  shows "publish_one push streamId tbl g q = Inr q1 \<Longrightarrow> \<exists>l1. group_step push streamId tbl g (l, q) = Inr (l1, q1)"
    and "publish_one push streamId tbl g q = Inl e \<Longrightarrow> group_step push streamId tbl g (l, q) = Inl e"
  unfolding group_step_publishes [OF assms, of push streamId l q, symmetric]
  by (cases "group_step push streamId tbl g (l, q)"; auto)+

section \<open>The burst of trades on known contracts\<close>

lemma foldR_group_step:
  assumes "\<forall>g \<in> set gs. known tbl g"
  shows "bindR (foldR (group_step push streamId tbl) gs (l, q)) (\<lambda>st. Inr (snd st)) =
    foldR (publish_one push streamId tbl) gs q"
  using assms
proof (induction gs arbitrary: l q)
  case (Cons g gs)
  then have h: "publish_one push streamId tbl g q =
      bindR (group_step push streamId tbl g (l, q)) (\<lambda>st. Inr (snd st))"
    by (simp add: group_step_publishes)
  show ?case
    by (cases "group_step push streamId tbl g (l, q)") (use Cons in \<open>auto simp: h\<close>)
qed simp

text \<open>
  The specification of an order event: if the stored trades look like a conversion or reversal,
  every group of the split that validates is published as its own record; the stores are
  cleared in any case.
\<close>

definition burst_accepted :: "'q trade_state \<Rightarrow> bool" where
  "burst_accepted s \<longleftrightarrow>
     3 \<le> card (g_pccTokenStore s) \<and> g_pcTradeMsgStore s \<noteq> [] \<and>
     token_status (g_pcTokenDataStore s) (g_pccTokenStore s) \<and>
     sides_match (store_sides (g_pcTokenDataStore s) (g_pcTradeMsgStore s))"

definition publish_burst ::
  "(tagConRevTradeDetails \<Rightarrow> 'q \<Rightarrow> bool \<times> 'q) \<Rightarrow> int \<Rightarrow> 'q trade_state \<Rightarrow> 'q shmQueue1 res" where
  "publish_burst push streamId s =
    (if burst_accepted s then
       bindR (SplitTrade (g_pcTradeMsgStore s) (g_pccTokenStore s) (g_pcTokenDataStore s)) (\<lambda>gs.
         foldR (publish_one push streamId (g_pcTokenDataStore s)) gs (g_pcConRevQ s))
     else Inr (g_pcConRevQ s))"

definition store_ok :: "'q trade_state \<Rightarrow> bool" where
  "store_ok s \<longleftrightarrow> known (g_pcTokenDataStore s) (g_pcTradeMsgStore s) \<and>
     g_pccTokenStore s = tok ` set (g_pcTradeMsgStore s)"

lemma store_ok_finite: "store_ok s \<Longrightarrow> finite (g_pccTokenStore s)"
  by (simp add: store_ok_def)

lemma on_order_event_publishes:
  assumes "store_ok s"
  shows "on_order_event push m s =
    bindR (publish_burst push (STREAM_HEADER.wStremID (stHeader (stBcastMsg m))) s) (\<lambda>q.
      Inr (s\<lparr>g_pcConRevQ := q, g_pcTradeMsgStore := [], g_pccTokenStore := {}\<rparr>))"
proof -
  let ?tbl = "g_pcTokenDataStore s" and ?v = "g_pcTradeMsgStore s" and ?ts = "g_pccTokenStore s"
  let ?f = "group_step push (STREAM_HEADER.wStremID (stHeader (stBcastMsg m))) ?tbl"
  from assms have k: "known ?tbl ?v" by (simp add: store_ok_def)
  obtain gs where gs: "SplitTrade ?v ?ts ?tbl = Inr gs" "\<forall>g \<in> set gs. set g \<subseteq> set ?v"
    using SplitTrade_returns [OF k] by blast
  then have "\<forall>g \<in> set gs. known ?tbl g" using known_subset [OF k] by blast
  then have p: "foldR (publish_one push (STREAM_HEADER.wStremID (stHeader (stBcastMsg m))) ?tbl) gs (g_pcConRevQ s)
      = bindR (foldR ?f gs (group_locals_init, g_pcConRevQ s)) (\<lambda>st. Inr (snd st))"
    by (simp add: foldR_group_step)
  show ?thesis
    by (cases "foldR ?f gs (group_locals_init, g_pcConRevQ s)")
      (simp_all add: on_order_event_def ValidateTradeMsgRecords_known [OF k store_ok_finite [OF assms]]
        publish_burst_def burst_accepted_def clear_stores_def gs(1) p split: prod.split)
qed

subsection \<open>Faults\<close>

lemma group_record_wpost: "wpost {Sigfpe} (group_record tbl streamId g) (\<lambda>_. True)"
  unfolding group_record_def Let_def
  by (intro wpost_bindR [OF cdiv_wpost]) simp

lemma publish_one_wpost:
  assumes "known tbl g"
  shows "wpost {Sigfpe} (publish_one push streamId tbl g q) (\<lambda>_. True)"
proof -
  obtain ok where "IsValidateConRev g tbl = Inr ok" using IsValidateConRev_returns [OF assms] by blast
  then show ?thesis
    by (cases ok) (auto simp: publish_one_def intro: wpost_bindR [OF group_record_wpost])
qed

lemma publish_burst_wpost:
  assumes "store_ok s"
  shows "wpost {Sigfpe} (publish_burst push streamId s) (\<lambda>_. True)"
proof -
  from assms have k: "known (g_pcTokenDataStore s) (g_pcTradeMsgStore s)" by (simp add: store_ok_def)
  obtain gs where gs: "SplitTrade (g_pcTradeMsgStore s) (g_pccTokenStore s) (g_pcTokenDataStore s) = Inr gs"
      "\<forall>g \<in> set gs. set g \<subseteq> set (g_pcTradeMsgStore s)"
    using SplitTrade_returns [OF k] by blast
  have "wpost {Sigfpe} (foldR (publish_one push streamId (g_pcTokenDataStore s)) gs (g_pcConRevQ s)) (\<lambda>_. True)"
    using gs(2) by (intro foldR_wpost publish_one_wpost) (auto intro: known_subset [OF k])
  with gs(1) show ?thesis by (simp add: publish_burst_def)
qed

definition trade_known :: "int set \<Rightarrow> CompositeBcastMsg \<Rightarrow> bool" where
  "trade_known D m \<longleftrightarrow> (msgType m = TRADE_MESSAGE \<longrightarrow> tok m \<in> D)"

definition handler_inv :: "int set \<Rightarrow> 'q trade_state \<Rightarrow> bool" where
  "handler_inv D s \<longleftrightarrow> store_ok s \<and> dom (g_pcTokenDataStore s) = D"

lemma known_upd: "known (tbl(t \<mapsto> i)) v \<longleftrightarrow> (\<forall>m \<in> set v. tok m = t \<or> tbl (tok m) \<noteq> None)"
  by (auto simp: known_def)

lemma on_trade_wpost:
  assumes "handler_inv D s" and "tok m \<in> D"
  shows "wpost {Sigfpe} (on_trade m s) (handler_inv D)"
proof -
  obtain i where i: "g_pcTokenDataStore s (tok m) = Some i"
    using assms by (auto simp: handler_inv_def)
  show ?thesis
    by (cases "cdiv 32 (qty m) (nBoardLotQty i)"; use assms i cdiv_wpost [of 32 "qty m" "nBoardLotQty i"] in
      \<open>auto simp: on_trade_def handler_inv_def store_ok_def known_upd known_def\<close>)
qed

lemma on_order_event_wpost:
  assumes "handler_inv D s"
  shows "wpost {Sigfpe} (on_order_event push m s) (handler_inv D)"
proof -
  from assms have s: "store_ok s" by (simp add: handler_inv_def)
  show ?thesis
    unfolding on_order_event_publishes [OF s]
    by (rule wpost_bindR [OF publish_burst_wpost [OF s]])
      (use assms in \<open>simp add: handler_inv_def store_ok_def\<close>)
qed

lemma WriteDataInFile_wpost:
  assumes "handler_inv D s" and "trade_known D m"
  shows "wpost {Sigfpe} (WriteDataInFile push m s) (handler_inv D)"
  using assms on_order_event_wpost on_trade_wpost
  by (auto simp: WriteDataInFile_def trade_known_def simp del: msg_codes)

interpretation handler: message_sink "WriteDataInFile1 push" "handler_inv D" "trade_known D" "{Sigfpe}"
  by unfold_locales (simp add: WriteDataInFile1_def WriteDataInFile_wpost)

section \<open>The spread\<close>

text \<open>The price that a trade counts with: for options the strike is added to the premium.\<close>

definition unit_price :: "TOKENDATA_STORE \<Rightarrow> CompositeBcastMsg \<Rightarrow> int" where
  "unit_price tbl m = (if itype tbl m = 1 then nTradePrice (trd m)
     else wrap32 (nTradePrice (trd m) + strike tbl m))"

text \<open>A leg that traded a non-zero quantity, all of it at one price.\<close>

definition leg_priced :: "TOKENDATA_STORE \<Rightarrow> int \<Rightarrow> TRADE_MSG_STORE \<Rightarrow> int \<Rightarrow> bool" where
  "leg_priced tbl ty g x \<longleftrightarrow> in_range 32 x \<and> (\<forall>m \<in> set (leg tbl ty g). unit_price tbl m = x \<and> in_range 32 (qty m)) \<and>
     in_range 32 (sum_list (map qty (leg tbl ty g))) \<and> sum_list (map qty (leg tbl ty g)) \<noteq> 0"

lemma trade_value_unit: "trade_value (info_of tbl m) m = wrap64 (qty m * unit_price tbl m)"
  by (simp add: trade_value_def unit_price_def)

lemma leg_average:
  assumes "leg_priced tbl ty g x"
  shows "cdiv 64 (leg_value tbl ty g) (leg_qty tbl ty g) = Inr x"
proof -
  let ?q = "sum_list (map qty (leg tbl ty g))"
  have x: "in_range 32 x" and q: "in_range 32 ?q" "?q \<noteq> 0"
    and m: "\<forall>m \<in> set (leg tbl ty g). unit_price tbl m = x \<and> in_range 32 (qty m)"
    using assms by (auto simp: leg_priced_def)
  have "map (\<lambda>m. trade_value (info_of tbl m) m) (leg tbl ty g) = map (\<lambda>m. x * qty m) (leg tbl ty g)"
    using m x by (auto simp: trade_value_unit wrap_id in_range_mult mult.commute)
  then have "leg_value tbl ty g = wrap64 (x * ?q)"
    unfolding leg_value_def by (simp only: sum_list_const_mult)
  then have "leg_value tbl ty g = x * ?q" "leg_qty tbl ty g = ?q"
    using x q by (simp_all add: wrap_id in_range_mult leg_qty_def)
  then show ?thesis using cdiv_mult [OF q(2) x] by simp
qed

lemma group_record_spread:
  assumes "leg_priced tbl 1 g f" and "leg_priced tbl 2 g (c + k)" and "leg_priced tbl 3 g (p + k)"
    and "strike tbl (last (options_of tbl g)) = k" and "0 < nBoardLotQty (info_of tbl (last g))"
  shows "\<exists>r. group_record tbl streamId g = Inr r \<and>
    tagConRevTradeDetails.nSpread r =
      wrap32 (if sellId (last (leg tbl 1 g)) = 0 then f - (c - p + k) else c - p + k - f) \<and>
    tagConRevTradeDetails.nStrikePrice r = k \<and>
    tagConRevTradeDetails.nTotalTradeLot r = cquot (leg_qty tbl 1 g) (nBoardLotQty (info_of tbl (last g)))"
proof -
  have "wrap32 f = f" "wrap32 (c + k) = c + k" "wrap32 (p + k) = p + k"
    using assms(1-3) by (simp_all add: leg_priced_def wrap_id)
  then show ?thesis
    by (simp add: group_record_def group_strategy_def Let_def leg_average [OF assms(1)] leg_average [OF assms(2)]
      leg_average [OF assms(3)] cdiv_pos [OF assms(5)] assms(4) algebra_simps)
qed

lemma foldR_side_unknown:
  "\<exists>m \<in> set v. tbl (tok m) = None \<Longrightarrow> foldR (side_step tbl) v s = Inl NullDeref"
proof (induction v arbitrary: s)
  case (Cons m v)
  then show ?case
    by (cases "tbl (tok m)") (auto simp: side_step_def find_into_def)
qed simp

section \<open>A burst for evaluation\<close>

definition sample_state :: "TRADE_MSG_STORE \<Rightarrow> tagConRevTradeDetails list trade_state" where
  "sample_state v = \<lparr>g_pcTradeMsgStore = v, g_pccTokenStore = tok ` set v,
     g_pcTokenDataStore = sample_table, g_pcConRevQ = \<lparr>sqSize = 0, sqPtrQ = []\<rparr>\<rparr>"

definition sample_order :: CompositeBcastMsg where
  "sample_order = packet_of (GENERIC_ORD_MSG_bytes (order_msg 15))"

lemma sample_order_simps [simp]:
  "msgType sample_order = 78" "STREAM_HEADER.wStremID (stHeader (stBcastMsg sample_order)) = 1"
proof -
  have o: "stGegenricOrdMsg (stBcastMsg sample_order) = order_msg 15"
    by (simp add: sample_order_def order_packet small_def)
  then show "msgType sample_order = 78" "STREAM_HEADER.wStremID (stHeader (stBcastMsg sample_order)) = 1"
    unfolding msgType_def common_prefix(2) common_prefix(9) [symmetric] by (simp_all add: order_msg_def)
qed

lemma sample_types [simp]: "msgType (sample_future 10) = 84" "msgType (sample_put 10) = 84" "msgType (sample_call 10) = 84"
  by (simp_all add: sample_defs sample_trade_simps small_def)

lemma sample_seqs [simp]:
  "seqNo (sample_future 10) = 11" "seqNo (sample_put 10) = 12" "seqNo (sample_call 10) = 13"
  "lTimestamp (trd (sample_call 10)) = 0"
  by (simp_all add: seqNo_def sample_defs sample_trade_simps small_def sample_trade_trd)
    (simp_all add: trade_msg_def)

lemma sample_burst_record:
  "group_record sample_table 1 sample_burst =
    Inr \<lparr>tagConRevTradeDetails.nTimestamp = 0, nTotalTradeLot = 2, nExpirayDate = 1000,
      nSpread = 150 - 50 + 100 - 24100, nStrikePrice = 100, nExchangeSequenceNo = 13, nStreamId = 1,
      nStrategyIndentifier = 1, cSymbol = ''NIFTY''\<rparr>"
  by (simp add: group_record_def sample_burst_def leg_def leg_value_def leg_qty_def options_of_def
    group_strategy_def trade_value_def wrap32_small wrap64_small cdiv_def cquot_def array_lengths Let_def)

lemma sample_burst_published:
  "publish_burst (list_push 9) 1 (sample_state sample_burst) =
    Inr \<lparr>sqSize = 1, sqPtrQ = [\<lparr>tagConRevTradeDetails.nTimestamp = 0, nTotalTradeLot = 2,
      nExpirayDate = 1000, nSpread = 150 - 50 + 100 - 24100, nStrikePrice = 100, nExchangeSequenceNo = 13,
      nStreamId = 1, nStrategyIndentifier = 1, cSymbol = ''NIFTY''\<rparr>]\<rparr>"
proof -
  have t: "tok ` set sample_burst = {1, 2, 3}" by (auto simp: sample_burst_def)
  have b: "burst_accepted (sample_state sample_burst)"
    using sample_token_status sample_burst_sides
    by (simp add: burst_accepted_def sample_state_def t) (simp add: sample_burst_def)
  have "SplitTrade sample_burst {1, 2, 3} sample_table = Inr [sample_burst]"
    by (simp add: SplitTrade_def sample_burst_def)
  with b show ?thesis
    by (simp add: publish_burst_def sample_state_def t publish_one_def sample_burst_accepted
      sample_burst_record shmQueue1_enqueue_def list_push_def wrap32_small Let_def)
qed

lemma sample_state_ok: "store_ok (sample_state sample_burst)"
  using sample_burst_known by (simp add: store_ok_def sample_state_def)

section \<open>Properties\<close>

text \<open>
  C4. An order message, on a store of trades of known contracts, does what the specification
  \<open>publish_burst\<close> says and clears both stores: it publishes one record for each group of the
  split that validates, computed from the trades of that group alone, although the code
  accumulates it in locals that live across the groups and reuses one output record.
\<close>

lemma order_event_refines:
  assumes "store_ok s" and "is_order_event (msgType m)"
  shows "WriteDataInFile push m s =
    bindR (publish_burst push (STREAM_HEADER.wStremID (stHeader (stBcastMsg m))) s) (\<lambda>q.
      Inr (s\<lparr>g_pcConRevQ := q, g_pcTradeMsgStore := [], g_pccTokenStore := {}\<rparr>))"
  using on_order_event_publishes [OF assms(1), of push m] assms(2) by (simp add: WriteDataInFile_def)

lemma order_event_refines_witness:
  "WriteDataInFile (list_push 9) sample_order (sample_state sample_burst) =
    Inr ((sample_state [])\<lparr>g_pcConRevQ := \<lparr>sqSize = 1, sqPtrQ = [\<lparr>tagConRevTradeDetails.nTimestamp = 0,
      nTotalTradeLot = 2, nExpirayDate = 1000, nSpread = 150 - 50 + 100 - 24100, nStrikePrice = 100,
      nExchangeSequenceNo = 13, nStreamId = 1, nStrategyIndentifier = 1, cSymbol = ''NIFTY''\<rparr>]\<rparr>\<rparr>)"
  using order_event_refines [OF sample_state_ok, of sample_order "list_push 9"]
  by (simp add: is_order_event_def sample_burst_published) (simp add: sample_state_def)

text \<open>
  C5. Over any sequence of messages whose trades are of contracts of the table, the handler keeps
  its invariant (all stored trades of known contracts, the token set the tokens of the store, the
  table with the same contracts); the only fault it can end in is a division trap.
\<close>

lemma handler_safe:
  assumes "handler_inv D s" and "\<forall>m \<in> set ms. trade_known D m"
  shows "wpost {Sigfpe} (foldR (WriteDataInFile1 push) ms s) (handler_inv D)"
  by (rule handler.handle_all [OF assms])

lemma handler_safe_witness:
  "wpost {Sigfpe} (foldR (WriteDataInFile1 (list_push 9))
     [sample_future 10, sample_put 10, sample_call 10, sample_order] (sample_state [])) (handler_inv {1, 2, 3, 4})"
  by (rule handler_safe) (simp_all add: handler_inv_def store_ok_def sample_state_def trade_known_def)

text \<open>
  C6. The published spread: if each leg of a group that validates traded at one price, with future
  price \<open>f\<close>, call premium \<open>c\<close> and put premium \<open>p\<close> of strike \<open>k\<close>, the record that goes to the queue
  has the spread \<open>f - (c - p + k)\<close> when the seller of the last future trade is absent and
  \<open>(c - p + k) - f\<close> otherwise, the strike \<open>k\<close>, and the future quantity in lots.
\<close>

lemma spread_is_parity_gap:
  assumes "known tbl g" and "IsValidateConRev g tbl = Inr True"
    and "leg_priced tbl 1 g f" and "leg_priced tbl 2 g (c + k)" and "leg_priced tbl 3 g (p + k)"
    and "strike tbl (last (options_of tbl g)) = k" and "0 < nBoardLotQty (info_of tbl (last g))"
  shows "\<exists>l1 r. group_step push streamId tbl g (l, q) = Inr (l1, snd (shmQueue1_enqueue push r q)) \<and>
    tagConRevTradeDetails.nSpread r =
      wrap32 (if sellId (last (leg tbl 1 g)) = 0 then f - (c - p + k) else c - p + k - f) \<and>
    tagConRevTradeDetails.nStrikePrice r = k \<and>
    tagConRevTradeDetails.nTotalTradeLot r = cquot (leg_qty tbl 1 g) (nBoardLotQty (info_of tbl (last g)))"
proof -
  obtain r where r: "group_record tbl streamId g = Inr r" "tagConRevTradeDetails.nSpread r =
      wrap32 (if sellId (last (leg tbl 1 g)) = 0 then f - (c - p + k) else c - p + k - f)"
      "tagConRevTradeDetails.nStrikePrice r = k"
      "tagConRevTradeDetails.nTotalTradeLot r = cquot (leg_qty tbl 1 g) (nBoardLotQty (info_of tbl (last g)))"
    using group_record_spread [OF assms(3-7)] by blast
  with assms(2) have "publish_one push streamId tbl g q = Inr (snd (shmQueue1_enqueue push r q))"
    by (simp add: publish_one_def)
  with r show ?thesis using group_step_published [OF assms(1)] by blast
qed

lemma spread_is_parity_gap_witness:
  "\<exists>l1 r. group_step (list_push 9) 1 sample_table sample_burst (group_locals_init, \<lparr>sqSize = 0, sqPtrQ = []\<rparr>) =
      Inr (l1, \<lparr>sqSize = 1, sqPtrQ = [r]\<rparr>) \<and> tagConRevTradeDetails.nSpread r = 150 - 50 + 100 - 24100"
proof -
  have p: "leg_priced sample_table 1 sample_burst 24100" "leg_priced sample_table 2 sample_burst (150 + 100)"
      "leg_priced sample_table 3 sample_burst (50 + 100)"
    by (simp_all add: leg_priced_def unit_price_def sample_burst_def leg_def in_range_def wrap32_small)
  have "strike sample_table (last (options_of sample_table sample_burst)) = 100"
    "0 < nBoardLotQty (info_of sample_table (last sample_burst))"
    "sellId (last (leg sample_table 1 sample_burst)) \<noteq> 0"
    by (simp_all add: sample_burst_def options_of_def leg_def)
  with spread_is_parity_gap [OF sample_burst_known sample_burst_accepted p, of "list_push 9" 1
      group_locals_init "\<lparr>sqSize = 0, sqPtrQ = []\<rparr>"]
  show ?thesis by (auto simp: shmQueue1_enqueue_def list_push_def wrap32_small Let_def)
qed

text \<open>
  C22. A trade of a known contract with a positive lot size is added to the contract's traded lots,
  and is stored, with its token, if and only if exactly one of its two order ids is present.
\<close>

lemma trade_stored_iff_one_sided:
  assumes "msgType m = TRADE_MESSAGE" and "g_pcTokenDataStore s (tok m) = Some i" and "0 < nBoardLotQty i"
  shows "WriteDataInFile push m s =
    (let tbl = (g_pcTokenDataStore s)(tok m \<mapsto> i\<lparr>nTotalTraded :=
           wrap64 (nTotalTraded i + cquot (qty m) (nBoardLotQty i))\<rparr>)
     in if (buyId m = 0) = (sellId m = 0) then Inr (s\<lparr>g_pcTokenDataStore := tbl\<rparr>)
        else Inr (s\<lparr>g_pcTokenDataStore := tbl, g_pccTokenStore := insert (tok m) (g_pccTokenStore s),
                   g_pcTradeMsgStore := g_pcTradeMsgStore s @ [m]\<rparr>))"
  using assms(1,2) cdiv_pos [OF assms(3), of 32 "qty m"]
  by (auto simp: WriteDataInFile_def is_order_event_def on_trade_def not_one_sided_def Let_def)

lemma trade_stored_iff_one_sided_witness:
  "WriteDataInFile (list_push 9) (sample_put 10) (sample_state []) =
    Inr ((sample_state [sample_put 10])\<lparr>g_pcTokenDataStore := sample_table(3 \<mapsto> (sample_scrip 3 3 100)\<lparr>nTotalTraded := 2\<rparr>)\<rparr>)"
  using trade_stored_iff_one_sided [of "sample_put 10" "sample_state []" "sample_scrip 3 3 100" "list_push 9"]
  by (simp add: sample_state_def) (simp add: sample_scrip_def OMSScripInfo_zero_def cquot_def wrap64_small)

text \<open>
  C23. After any order message (or spread trade) that the handler completes, both stores are empty,
  whether the burst was accepted or not: trades of different bursts never meet in one group.
\<close>

lemma order_event_clears:
  assumes "is_order_event (msgType m)" and "WriteDataInFile push m s = Inr s1"
  shows "g_pcTradeMsgStore s1 = [] \<and> g_pccTokenStore s1 = {} \<and> g_pcTokenDataStore s1 = g_pcTokenDataStore s"
  using assms
  by (auto simp: WriteDataInFile_def on_order_event_def clear_stores_def bindR_eq_Inr split: if_splits prod.splits)

lemma order_event_clears_witness:
  "\<exists>s1. WriteDataInFile (list_push 9) sample_order (sample_state [sample_put 10]) = Inr s1 \<and>
    g_pcTradeMsgStore s1 = [] \<and> g_pccTokenStore s1 = {}"
proof -
  have "WriteDataInFile (list_push 9) sample_order (sample_state [sample_put 10]) =
      Inr (clear_stores (sample_state [sample_put 10]))"
    by (simp add: WriteDataInFile_def is_order_event_def on_order_event_def ValidateTradeMsgRecords_def sample_state_def)
  then show ?thesis
    using order_event_clears [of sample_order "list_push 9" "sample_state [sample_put 10]"]
    by (auto simp: is_order_event_def)
qed

text \<open>
  C29. A stored trade of a token that is not in the contract table, which the trade branch stores all
  the same, makes the next order message dereference a null pointer, when at least three tokens
  are stored (with fewer the order message only clears the stores).
\<close>

lemma unknown_token_faults:
  assumes "\<exists>x \<in> set (g_pcTradeMsgStore s). g_pcTokenDataStore s (tok x) = None"
    and "3 \<le> card (g_pccTokenStore s)" and "is_order_event (msgType m)"
  shows "WriteDataInFile push m s = Inl NullDeref"
proof -
  obtain x v where v: "g_pcTradeMsgStore s = x # v"
    using assms(1) by (cases "g_pcTradeMsgStore s") auto
  have "g_pccTokenStore s \<noteq> {}" using assms(2) by auto
  moreover have "validate_loop (g_pcTokenDataStore s) (x # v) st (x # v) c = Inl NullDeref" for st c
    using foldR_side_unknown [of "x # v" "g_pcTokenDataStore s"] assms(1) v
    by (cases "side_step (g_pcTokenDataStore s) x c") (auto simp: side_step_def find_into_def split: option.splits)
  ultimately show ?thesis
    using assms(2,3) v by (simp add: WriteDataInFile_def on_order_event_def ValidateTradeMsgRecords_def)
qed

lemma unknown_token_faults_witness:
  "WriteDataInFile (list_push 9) sample_order (sample_state [sample_trade 10 9 True 1 10, sample_put 10, sample_call 10])
    = Inl NullDeref"
  by (rule unknown_token_faults)
    (simp_all add: sample_state_def sample_trade_simps small_def is_order_event_def)

text \<open>
  C30. A group whose future leg traded a total of zero, which the validation accepts because it only
  compares the legs with each other, traps: the averages are divisions by the traded quantities.
\<close>

lemma zero_quantity_traps:
  assumes "known tbl g" and "IsValidateConRev g tbl = Inr True" and "leg_qty tbl 1 g = 0"
  shows "group_step push streamId tbl g (l, q) = Inl Sigfpe"
proof -
  have "publish_one push streamId tbl g q = Inl Sigfpe"
    using assms(2,3) by (simp add: publish_one_def group_record_def cdiv_def Let_def)
  then show ?thesis using group_step_published [OF assms(1)] by blast
qed

lemma zero_quantity_traps_witness:
  "group_step (list_push 9) 1 sample_table [sample_future 0, sample_put 0, sample_call 0]
     (group_locals_init, \<lparr>sqSize = 0, sqPtrQ = []\<rparr>) = Inl Sigfpe"
proof (rule zero_quantity_traps)
  show "known sample_table [sample_future 0, sample_put 0, sample_call 0]"
    by (simp add: known_def)
  show "IsValidateConRev [sample_future 0, sample_put 0, sample_call 0] sample_table = Inr True"
    by (simp add: IsValidateConRev_def conrev_scan_init_def conrev_leg_def not_one_sided_def
      Let_def side_leg_def sides_init_def side_of_def conrev_accept_def sides_match_def find_into_def wrap32_small)
  show "leg_qty sample_table 1 [sample_future 0, sample_put 0, sample_call 0] = 0"
    by (simp add: leg_qty_def leg_def wrap32_small)
qed

end
