(* ===== verification/Typed.thy ===== *)
theory Typed
  imports ConRev
begin

text \<open>
  Values stay within their C types. The model computes with unbounded integers and strings and
  reduces them where the source's types do; this theory shows that the contract table, from the
  contract file on, and every record that \<open>WriteDataInFile\<close> publishes hold only values that the
  fields of \<^verbatim>\<open>src/struct_conrevtrade.h\<close> can hold.
\<close>

section \<open>Conformance\<close>

text \<open>A text that fits an array of \<open>n + 1\<close> characters with its terminator.\<close>

definition fits :: "nat \<Rightarrow> string \<Rightarrow> bool" where
  "fits n z \<longleftrightarrow> length z \<le> n \<and> CHR 0x00 \<notin> set z"

definition scrip_typed :: "OMSScripInfo \<Rightarrow> bool" where
  "scrip_typed i \<longleftrightarrow>
     in_range 32 (nExpiryDate i) \<and> in_range 32 (OMSScripInfo.nStrikePrice i) \<and> in_range 32 (nToken i) \<and>
     in_range 32 (nBoardLotQty i) \<and> in_range 32 (nMinLotQty i) \<and> in_range 32 (nTickSize i) \<and>
     in_range 16 (nCustomInstrumentType i) \<and> fits SCRIP_SYMBOL_LEN (OMSScripInfo.cSymbol i) \<and>
     fits SERIES_ID_LEN (cSeries i) \<and> fits TRADING_SYMBOL_NAME (cSymbolName i) \<and>
     in_range 32 (nBoardLotQty2 i) \<and> in_range 64 (nTotalTraded i)"

definition table_typed :: "TOKENDATA_STORE \<Rightarrow> bool" where
  "table_typed tbl \<longleftrightarrow> (\<forall>t i. tbl t = Some i \<longrightarrow> scrip_typed i \<and> nToken i = t)"

definition record_typed :: "tagConRevTradeDetails \<Rightarrow> bool" where
  "record_typed r \<longleftrightarrow>
     in_range 64 (tagConRevTradeDetails.nTimestamp r) \<and> in_range 32 (tagConRevTradeDetails.nTotalTradeLot r) \<and>
     in_range 32 (nExpirayDate r) \<and> in_range 32 (tagConRevTradeDetails.nSpread r) \<and>
     in_range 32 (tagConRevTradeDetails.nStrikePrice r) \<and> in_range 32 (nExchangeSequenceNo r) \<and>
     in_range 16 (nStreamId r) \<and> tagConRevTradeDetails.nStrategyIndentifier r \<in> {1, 2} \<and>
     fits SCRIP_SYMBOL_LEN (tagConRevTradeDetails.cSymbol r)"

named_theorems typed \<open>values within their types\<close>

declare wrap_in_range [typed]

lemma fits_take: "CHR 0x00 \<notin> set z \<Longrightarrow> fits n (take n z)" "fits n z \<Longrightarrow> fits n (take n z)"
  by (auto simp: fits_def dest: in_set_takeD)

lemma in_range_consts [typed]: "in_range 16 0" "in_range 16 1" "in_range 16 2" "in_range 16 3" "in_range 32 0" "in_range 64 0"
  by (simp_all add: in_range_def)

lemma cdiv_typed:
  assumes "cdiv n a b = Inr c" and "in_range n a"
  shows "in_range n c"
proof (cases "\<bar>b\<bar> = 1")
  case True
  then have "c = a \<and> b = 1 \<or> c = - a \<and> b = - 1"
    using assms(1) by (cases "b = 1") (auto simp: cdiv_def cquot_def mult_sgn_abs mult.commute [of "sgn a"] split: if_splits)
  with assms show ?thesis by (auto simp: cdiv_def in_range_def split: if_splits)
next
  case False
  from assms(1) have b: "b \<noteq> 0" "c = cquot a b" by (auto simp: cdiv_def split: if_splits)
  with False have "2 \<le> \<bar>b\<bar>" by linarith
  then have "\<bar>a\<bar> div \<bar>b\<bar> \<le> \<bar>a\<bar> div 2" by (intro zdiv_mono2) simp_all
  moreover have "0 \<le> \<bar>a\<bar> div \<bar>b\<bar>" using b(1) by (simp add: pos_imp_zdiv_nonneg_iff)
  then have "\<bar>c\<bar> \<le> \<bar>a\<bar> div \<bar>b\<bar>"
    by (simp add: b(2) cquot_def abs_mult abs_sgn_eq del: abs_div)
  moreover have "\<bar>a\<bar> \<le> 2 ^ (n - 1)" using assms(2) by (auto simp: in_range_def abs_le_iff)
  moreover have "(1::int) \<le> 2 ^ (n - 1)" by simp
  ultimately have "\<bar>c\<bar> < 2 ^ (n - 1)" by linarith
  then show ?thesis by (auto simp: in_range_def abs_less_iff)
qed

lemma trade_fields_typed [typed]:
  "in_range 64 (lTimestamp (trd m))" "in_range 32 (seqNo m)" "in_range 32 (qty m)" "in_range 32 (tok m)"
  by (simp_all add: trd_def seqNo_def qty_def tok_def stTrdMsg_def TRD_MSG_of_def STREAM_HEADER_of_def
    i16_def i32_def i64_def wrap_in_range)

lemma stream_id_typed [typed]: "in_range 16 (STREAM_HEADER.wStremID (stHeader b))"
  by (simp add: stHeader_def STREAM_HEADER_of_def i16_def wrap_in_range)

section \<open>The contract table\<close>

lemma scrip_typed_update:
  assumes "scrip_typed sc"
  shows "in_range 32 n \<Longrightarrow> scrip_typed (sc\<lparr>nToken := n\<rparr>)"
    and "in_range 32 n \<Longrightarrow> scrip_typed (sc\<lparr>nExpiryDate := n\<rparr>)"
    and "in_range 32 n \<Longrightarrow> scrip_typed (sc\<lparr>OMSScripInfo.nStrikePrice := n\<rparr>)"
    and "in_range 32 n \<Longrightarrow> scrip_typed (sc\<lparr>nMinLotQty := n\<rparr>)"
    and "in_range 32 n \<Longrightarrow> scrip_typed (sc\<lparr>nBoardLotQty := n\<rparr>)"
    and "in_range 32 n \<Longrightarrow> scrip_typed (sc\<lparr>nTickSize := n\<rparr>)"
    and "in_range 16 n \<Longrightarrow> scrip_typed (sc\<lparr>nCustomInstrumentType := n\<rparr>)"
    and "in_range 64 n \<Longrightarrow> scrip_typed (sc\<lparr>nTotalTraded := n\<rparr>)"
    and "fits SCRIP_SYMBOL_LEN z \<Longrightarrow> scrip_typed (sc\<lparr>OMSScripInfo.cSymbol := z\<rparr>)"
    and "fits SERIES_ID_LEN z \<Longrightarrow> scrip_typed (sc\<lparr>cSeries := z\<rparr>)"
    and "fits TRADING_SYMBOL_NAME z \<Longrightarrow> scrip_typed (sc\<lparr>cSymbolName := z\<rparr>)"
  using assms unfolding scrip_typed_def by simp_all

lemma set_strike_typed: "scrip_typed sc \<Longrightarrow> scrip_typed (set_strike f sc)"
  unfolding set_strike_def Let_def
  by (simp add: scrip_typed_update atoi_def typed)

lemma set_series_typed: "CHR 0x00 \<notin> set f \<Longrightarrow> scrip_typed sc \<Longrightarrow> scrip_typed (set_series f sc)"
  using fits_take(1) [of f SERIES_ID_LEN]
  unfolding set_series_def Let_def by (auto simp add: scrip_typed_update typed array_lengths fits_def)

lemma set_column_typed: "CHR 0x00 \<notin> set f \<Longrightarrow> scrip_typed sc \<Longrightarrow> scrip_typed (set_column i f sc)"
  using fits_take(1) [of f SCRIP_SYMBOL_LEN] fits_take(1) [of f TRADING_SYMBOL_NAME]
  unfolding set_column_def
  by (simp add: scrip_typed_update set_strike_typed set_series_typed atoi_def typed array_lengths)

lemma substr_text: "CHR 0x00 \<notin> set s \<Longrightarrow> CHR 0x00 \<notin> set (substr s a n)"
  by (auto simp: substr_def dest: in_set_takeD in_set_dropD)

lemma digest_line_typed: "scrip_typed (digest_line l)"
proof -
  have "scrip_typed (snd (fold (digest_column s) xs st))" if s: "CHR 0x00 \<notin> set s" and st: "scrip_typed (snd st)" for s xs st
    using st
  proof (induction xs arbitrary: st)
    case (Cons x xs)
    show ?case
      unfolding fold_simps comp_apply
      by (rule Cons.IH) (use Cons.prems in
        \<open>auto simp: digest_column_def set_column_typed substr_text [OF s] split: prod.split option.split\<close>)
  qed simp
  moreover have "CHR 0x00 \<notin> set (takeWhile (\<lambda>c. c \<noteq> CHR 0x00) l)" by (auto dest: set_takeWhileD)
  moreover have "scrip_typed OMSScripInfo_zero"
    by (simp add: scrip_typed_def fits_def OMSScripInfo_zero_def typed)
  ultimately show ?thesis by (simp add: digest_line_def Let_def)
qed

lemma FileDigester_typed: "table_typed tbl \<Longrightarrow> table_typed (snd (FileDigester file tbl))"
proof -
  assume tbl: "table_typed tbl"
  have "table_typed (insert_scrip (digest_line l) t)" if "table_typed t" for l t
    using that digest_line_typed [of l] by (simp add: table_typed_def insert_scrip_def)
  then have "table_typed (fold (\<lambda>l. insert_scrip (digest_line l)) ls tbl)" for ls
    using tbl by (induction ls arbitrary: tbl) simp_all
  with tbl show ?thesis by (simp add: FileDigester_def split: option.split)
qed

section \<open>Published records\<close>

lemma info_of_typed: "table_typed tbl \<Longrightarrow> tbl (tok m) \<noteq> None \<Longrightarrow> scrip_typed (info_of tbl m)"
  by (auto simp: table_typed_def info_of_def)

lemma group_record_typed:
  assumes tbl: "table_typed tbl" and k: "known tbl g" and bal: "balanced tbl g"
    and sid: "in_range 16 streamId"
  shows "wpost {Sigfpe} (group_record tbl streamId g) record_typed"
proof -
  have ne: "leg tbl 1 g \<noteq> []" "options_of tbl g \<noteq> []" "g \<noteq> []"
    using bal by (auto simp: balanced_def options_of_def leg_def filter_empty_conv)
  have "last (options_of tbl g) \<in> set g" "last g \<in> set g"
    using last_in_set [OF ne(2)] ne(3) by (auto simp: options_of_def)
  then have strike: "in_range 32 (strike tbl (last (options_of tbl g)))"
    using k info_of_typed [OF tbl] by (auto simp: known_def scrip_typed_def)
  have symbol: "fits SCRIP_SYMBOL_LEN (OMSScripInfo.cSymbol (info_of tbl (last g)))"
    using k info_of_typed [OF tbl] \<open>last g \<in> set g\<close> by (simp add: known_def scrip_typed_def)
  have lots: "cdiv 32 (leg_qty tbl 1 g) b = Inr x \<Longrightarrow> in_range 32 x" for b x
    by (erule cdiv_typed) (simp add: leg_qty_def typed)
  show ?thesis
    unfolding group_record_def Let_def
    by (intro wpost_bindR [OF cdiv_wpost])
      (auto simp: record_typed_def typed strike sid group_strategy_def fits_take(2) [OF symbol] dest: lots)
qed

text \<open>What the queue must keep: a push of a well-typed record keeps \<open>J\<close>.\<close>

definition pushes_typed :: "(tagConRevTradeDetails \<Rightarrow> 'q \<Rightarrow> bool \<times> 'q) \<Rightarrow> ('q \<Rightarrow> bool) \<Rightarrow> bool" where
  "pushes_typed push J \<longleftrightarrow> (\<forall>r q. record_typed r \<longrightarrow> J q \<longrightarrow> J (snd (push r q)))"

lemma publish_one_typed:
  assumes "pushes_typed push J" and "table_typed tbl" and "known tbl g" and "in_range 16 streamId"
    and "J (sqPtrQ q)"
  shows "wpost {Sigfpe} (publish_one push streamId tbl g q) (\<lambda>q. J (sqPtrQ q))"
proof -
  obtain ok where ok: "IsValidateConRev g tbl = Inr ok" using IsValidateConRev_returns [OF assms(3)] by blast
  show ?thesis
  proof (cases ok)
    case True
    with ok have "balanced tbl g" using IsValidateConRev_accepts(1) [OF assms(3)] by simp
    from group_record_typed [OF assms(2,3) this assms(4)] ok True show ?thesis
      unfolding publish_one_def
      by (auto intro!: wpost_bindR simp: shmQueue1_enqueue_def Let_def split: prod.split)
        (use assms(1,5) in \<open>auto simp: pushes_typed_def dest!: spec\<close>)
  qed (use ok assms(5) in \<open>simp add: publish_one_def\<close>)
qed

definition typed_inv ::
  "(tagConRevTradeDetails \<Rightarrow> 'q \<Rightarrow> bool \<times> 'q) \<Rightarrow> ('q \<Rightarrow> bool) \<Rightarrow> int set \<Rightarrow> 'q trade_state \<Rightarrow> bool" where
  "typed_inv push J D s \<longleftrightarrow> pushes_typed push J \<and> handler_inv D s \<and>
     table_typed (g_pcTokenDataStore s) \<and> J (sqPtrQ (g_pcConRevQ s))"

lemma publish_burst_typed:
  assumes "typed_inv push J D s" and "in_range 16 streamId"
  shows "wpost {Sigfpe} (publish_burst push streamId s) (\<lambda>q. J (sqPtrQ q))"
proof -
  let ?tbl = "g_pcTokenDataStore s"
  from assms have k: "known ?tbl (g_pcTradeMsgStore s)" and p: "pushes_typed push J" and t: "table_typed ?tbl"
      and q: "J (sqPtrQ (g_pcConRevQ s))"
    by (simp_all add: typed_inv_def handler_inv_def store_ok_def)
  obtain gs where gs: "SplitTrade (g_pcTradeMsgStore s) (g_pccTokenStore s) ?tbl = Inr gs"
      "\<forall>g \<in> set gs. set g \<subseteq> set (g_pcTradeMsgStore s)"
    using SplitTrade_returns [OF k] by blast
  have "wpost {Sigfpe} (foldR (publish_one push streamId ?tbl) gs (g_pcConRevQ s)) (\<lambda>q. J (sqPtrQ q))"
    using gs(2) by (intro foldR_wpost [where I = "\<lambda>q. J (sqPtrQ q)"] q publish_one_typed [OF p t _ assms(2)])
      (auto intro: known_subset [OF k])
  with gs(1) q show ?thesis by (simp add: publish_burst_def)
qed

lemma on_order_event_typed:
  assumes "typed_inv push J D s"
  shows "wpost {Sigfpe} (on_order_event push m s) (typed_inv push J D)"
proof -
  from assms have s: "store_ok s" by (simp add: typed_inv_def handler_inv_def)
  show ?thesis
    unfolding on_order_event_publishes [OF s]
    by (rule wpost_bindR [OF publish_burst_typed [OF assms stream_id_typed]])
      (use assms in \<open>simp add: typed_inv_def handler_inv_def store_ok_def\<close>)
qed

lemma on_trade_typed:
  assumes "typed_inv push J D s" and "tok m \<in> D"
  shows "wpost {Sigfpe} (on_trade m s) (typed_inv push J D)"
proof -
  have inv: "handler_inv D s" and t: "table_typed (g_pcTokenDataStore s)"
    using assms(1) by (simp_all add: typed_inv_def)
  obtain i where i: "g_pcTokenDataStore s (tok m) = Some i"
    using inv assms(2) by (auto simp: handler_inv_def)
  then have "scrip_typed (i\<lparr>nTotalTraded := wrap64 x\<rparr>)" "nToken i = tok m" for x
    using t by (auto simp: table_typed_def scrip_typed_update typed)
  then have tbl: "table_typed ((g_pcTokenDataStore s)(tok m \<mapsto> i\<lparr>nTotalTraded := wrap64 x\<rparr>))" for x
    using t by (auto simp: table_typed_def)
  show ?thesis
    using on_trade_wpost [OF inv assms(2)] assms(1) i tbl
    by (cases "cdiv 32 (qty m) (nBoardLotQty i)") (auto simp: on_trade_def typed_inv_def split: if_splits)
qed

lemma WriteDataInFile_typed:
  assumes "typed_inv push J D s" and "trade_known D m"
  shows "wpost {Sigfpe} (WriteDataInFile push m s) (typed_inv push J D)"
  using assms on_order_event_typed on_trade_typed
  by (auto simp: WriteDataInFile_def trade_known_def simp del: msg_codes)

interpretation typed_handler: message_sink "WriteDataInFile1 push" "typed_inv push J D" "trade_known D" "{Sigfpe}"
  by unfold_locales (simp add: WriteDataInFile1_def WriteDataInFile_typed)

lemma list_push_typed: "pushes_typed (list_push n) (\<lambda>q. \<forall>r \<in> set q. record_typed r)"
  by (simp add: pushes_typed_def list_push_def)

end
