(* ===== verification/Report.thy ===== *)
theory Report
  imports Typed
begin

text \<open>
  The line that \<open>WriteDataInFile\<close> of \<^verbatim>\<open>src/main.cpp\<close> prints for every group it publishes, with the
  contract name it formats. \<open>localtime_r\<close> and the text of a \<open>double\<close> (the spread in units of 100) are
  parameters. Reading the printed fields back gives the fields of the published record.
\<close>

section \<open>Numbers as text\<close>

fun digits :: "nat \<Rightarrow> string" where
  "digits n = (if n < 10 then [char_of (48 + n)] else digits (n div 10) @ [char_of (48 + n mod 10)])"

declare digits.simps [simp del]

definition show_int :: "int \<Rightarrow> string" where
  "show_int n = (if n < 0 then CHR ''-'' # digits (nat (- n)) else digits (nat n))"

text \<open>\<open>std::setfill('0') << std::setw(2)\<close>\<close>

definition setw2 :: "int \<Rightarrow> string" where
  "setw2 n = replicate (2 - length (show_int n)) CHR ''0'' @ show_int n"

lemma digit_char:
  assumes "k < 10"
  shows "is_digit (char_of (48 + k))" and "(of_char (char_of (48 + k)) :: int) = 48 + int k"
proof -
  have "(of_char (char_of (48 + k)) :: nat) = 48 + k" using assms by simp
  moreover have "(of_char c :: int) = int (of_char c)" for c by (rule of_nat_of_char [symmetric])
  ultimately show "is_digit (char_of (48 + k))" "(of_char (char_of (48 + k)) :: int) = 48 + int k"
    using assms by (simp_all only: is_digit_def Let_def) simp_all
qed

lemma digits_all: "list_all is_digit (digits n)"
proof (induction n rule: digits.induct)
  case (1 n)
  then show ?case
    using digit_char(1) [of n] digit_char(1) [of "n mod 10"] by (subst digits.simps) auto
qed

lemma digits_value_snoc: "digits_value (ds @ [c]) = 10 * digits_value ds + (of_char c - 48)"
  by (simp add: digits_value_def)

lemma digits_value_digits: "digits_value (digits n) = int n"
proof (induction n rule: digits.induct)
  case (1 n)
  show ?case
  proof (cases "n < 10")
    case True
    then show ?thesis
      using digit_char(2) [of n] by (subst digits.simps) (simp add: digits_value_def)
  next
    case False
    have "digits_value (digits n) = 10 * digits_value (digits (n div 10)) + int (n mod 10)"
      using False digit_char(2) [of "n mod 10"] by (subst digits.simps) (simp add: digits_value_snoc)
    with 1 False show ?thesis by (simp add: zdiv_int zmod_int)
  qed
qed

lemma digits_nonempty: "digits n \<noteq> []"
  by (subst digits.simps) simp

lemma digit_not_space: "is_digit c \<Longrightarrow> \<not> is_space c \<and> c \<noteq> CHR ''-'' \<and> c \<noteq> CHR ''+'' \<and> c \<noteq> CHR '',''"
  by (auto simp: is_digit_def is_space_def Let_def)

lemma digits_hd: "\<exists>c ds. digits n = c # ds \<and> \<not> is_space c \<and> c \<noteq> CHR ''-'' \<and> c \<noteq> CHR ''+''"
  using digits_nonempty [of n] digits_all [of n] digit_not_space by (cases "digits n") auto

lemma digits_takeWhile: "takeWhile is_digit (digits n) = digits n"
  using digits_all [of n] by (simp add: takeWhile_eq_all_conv list_all_iff)

lemma atol_show_int:
  assumes "in_range 64 n"
  shows "atol (show_int n) = n"
proof (cases "n < 0")
  case True
  have "\<not> is_space CHR ''-''" by (simp add: is_space_def)
  with True assms show ?thesis
    by (simp add: atol_def show_int_def Let_def digits_takeWhile digits_value_digits in_range_def)
next
  case False
  obtain c ds where c: "digits (nat n) = c # ds" "\<not> is_space c" "c \<noteq> CHR ''-''" "c \<noteq> CHR ''+''"
    using digits_hd by blast
  have v: "digits_value (takeWhile is_digit (c # ds)) = n"
    using False c(1) digits_takeWhile [of "nat n"] digits_value_digits [of "nat n"] by simp
  show ?thesis
    using False assms c(2-4) v
    by (simp add: atol_def show_int_def Let_def c(1) in_range_def del: takeWhile.simps)
qed

section \<open>Fields between commas\<close>

fun commas :: "string list \<Rightarrow> string" where
  "commas [] = []"
| "commas [f] = f"
| "commas (f # fs) = f @ CHR '','' # commas fs"

fun split_commas :: "string \<Rightarrow> string list" where
  "split_commas [] = [[]]"
| "split_commas (c # s) =
     (if c = CHR '','' then [] # split_commas s
      else (case split_commas s of f # fs \<Rightarrow> (c # f) # fs | [] \<Rightarrow> []))"

abbreviation comma_free :: "string \<Rightarrow> bool" where
  "comma_free f \<equiv> CHR '','' \<notin> set f"

lemma split_commas_field: "comma_free f \<Longrightarrow> split_commas f = [f]"
  by (induction f) auto

lemma split_commas_append: "comma_free f \<Longrightarrow> split_commas (f @ CHR '','' # s) = f # split_commas s"
  by (induction f) auto

lemma split_commas_commas: "fs \<noteq> [] \<Longrightarrow> list_all comma_free fs \<Longrightarrow> split_commas (commas fs) = fs"
  by (induction fs rule: commas.induct) (simp_all add: split_commas_field split_commas_append)

lemma show_int_comma_free: "comma_free (show_int n)" "comma_free (setw2 n)"
proof -
  have "comma_free (digits k)" for k
    using digits_all [of k] digit_not_space by (auto simp: list_all_iff)
  then show "comma_free (show_int n)" "comma_free (setw2 n)"
    by (simp_all add: show_int_def setw2_def)
qed

section \<open>The line of a group\<close>

record tm =
  tm_sec :: int
  tm_min :: int
  tm_hour :: int
  tm_mday :: int
  tm_mon :: int
  tm_year :: int

definition MONTH :: "string list" where
  "MONTH = [''JAN'', ''FEB'', ''MAR'', ''APR'', ''MAY'', ''JUN'', ''JUL'', ''AUG'', ''SEP'', ''OCT'', ''NOV'', ''DEC'']"

definition month_name :: "int \<Rightarrow> string res" where
  "month_name mon = (if mon < 0 then Inl OutOfRange else vec_get MONTH (nat mon))"

text \<open>
  \<open>snprintf\<close> into \<open>lcScripOrContractName\<close> with \<^verbatim>\<open>"%s%hd%s-%d(C)"\<close>; \<open>t\<close> is the local time of
  the expiry date, whose origin is 1980.
\<close>

definition contract_name :: "tm \<Rightarrow> OMSScripInfo \<Rightarrow> tagTradeDetails \<Rightarrow> string \<Rightarrow> string res" where
  "contract_name t i d letter =
    bindR (month_name (tm_mon t)) (\<lambda>mon.
      let year = tm_year t + 1900
      in Inr (take 64 (OMSScripInfo.cSymbol i @ show_int (wrap 16 (year - cquot year 100 * 100)) @ mon @ ''-'' @
           show_int (cquot (tagTradeDetails.nStrikePrice d) 100) @ letter)))"

definition clock_text :: "tm \<Rightarrow> string" where
  "clock_text t = setw2 (tm_hour t) @ '':'' @ setw2 (tm_min t) @ '':'' @ setw2 (tm_sec t)"

definition average_text :: "tagTradeDetails \<Rightarrow> string" where
  "average_text d = show_int (cquot (wrap32 (nAvgTradePrice1 d + nAvgTradePrice2 d + nAvgTradePrice3 d)) 3)"

text \<open>
  The two statements that print. The second lacks the comma between the time and the time stamp.
\<close>

definition conversion_line ::
  "(int \<Rightarrow> string) \<Rightarrow> string \<Rightarrow> tm \<Rightarrow> OMSScripInfo \<Rightarrow> int \<Rightarrow> group_locals \<Rightarrow> int \<Rightarrow> string" where
  "conversion_line money name t i lots l lnTradeCount =
    (let d = glTrade l
     in OMSScripInfo.cSymbol i @ '','' @ name @ '','' @ money (tagTradeDetails.nSpread d) @ '','' @ show_int lots @ '','' @
        show_int (cquot (tagTradeDetails.nStrikePrice d) 100) @ '','' @ average_text d @ '','' @ show_int (glFirstSeqNo l) @
        '','' @ show_int (glLastSeqNo l) @ '','' @ clock_text t @ '','' @ show_int (glTimestamp l) @ ''1000000'' @ '','' @
        show_int lnTradeCount)"

definition reversal_line ::
  "(int \<Rightarrow> string) \<Rightarrow> string \<Rightarrow> tm \<Rightarrow> OMSScripInfo \<Rightarrow> int \<Rightarrow> group_locals \<Rightarrow> int \<Rightarrow> string" where
  "reversal_line money name t i lots l lnTradeCount =
    (let d = glTrade l
     in OMSScripInfo.cSymbol i @ '','' @ name @ '','' @ money (tagTradeDetails.nSpread d) @ '','' @ show_int lots @ '','' @
        show_int (cquot (tagTradeDetails.nStrikePrice d) 100) @ '','' @ average_text d @ '','' @ show_int (glFirstSeqNo l) @
        '','' @ show_int (glLastSeqNo l) @ '','' @ clock_text t @ show_int (glTimestamp l) @ ''1000000'' @ '','' @
        show_int lnTradeCount)"

text \<open>
  What \<open>publish_group\<close> prints: \<open>l\<close> are the locals after the averages, \<open>lt\<close> is \<open>localtime_r\<close>. Nothing is
  printed for another strategy.
\<close>

definition print_group ::
  "(int \<Rightarrow> tm) \<Rightarrow> (int \<Rightarrow> string) \<Rightarrow> int \<Rightarrow> group_locals \<Rightarrow> string option res" where
  "print_group lt money lnTradeCount l =
    (let t = lt (glExpiryDate1 l + 315532800); t1 = lt (cquot (glTimestamp l) 1000 + 315513000);
         l1 = l\<lparr>glTrade := (glTrade l)\<lparr>nSpread := group_spread (glTrade l)\<rparr>\<rparr>;
         s = tagTradeDetails.nStrategyIndentifier (glTrade l)
     in if s = 1 then
          bindR (deref (glInfo l)) (\<lambda>i.
          bindR (contract_name t i (glTrade l1) ''(C)'') (\<lambda>name.
          bindR (cdiv 32 (nTradedVolume1 (glTrade l1)) (nBoardLotQty i)) (\<lambda>lots.
            Inr (Some (conversion_line money name t1 i lots l1 lnTradeCount)))))
        else if s = 2 then
          bindR (deref (glInfo l)) (\<lambda>i.
          bindR (contract_name t i (glTrade l1) ''(R)'') (\<lambda>name.
          bindR (cdiv 32 (nTradedVolume1 (glTrade l1)) (nBoardLotQty i)) (\<lambda>lots.
            Inr (Some (reversal_line money name t1 i lots l1 lnTradeCount)))))
        else Inr None)"

text \<open>The trace of a vector of trades; nothing calls it.\<close>

definition printTrade :: "TRADE_MSG_STORE \<Rightarrow> string" where
  "printTrade lvTradeStore =
    concat (map (\<lambda>m. ''TRADE INFO|'' @ ''|'' @ show_int (tok m) @ '','' @ show_int (seqNo m)) lvTradeStore)"

section \<open>Reading a line back\<close>

lemma conversion_line_commas:
  "conversion_line money name t i lots l n =
    commas [OMSScripInfo.cSymbol i, name, money (tagTradeDetails.nSpread (glTrade l)), show_int lots,
      show_int (cquot (tagTradeDetails.nStrikePrice (glTrade l)) 100), average_text (glTrade l),
      show_int (glFirstSeqNo l), show_int (glLastSeqNo l), clock_text t,
      show_int (glTimestamp l) @ ''1000000'', show_int n]"
  by (simp add: conversion_line_def Let_def)

lemma reversal_line_commas:
  "reversal_line money name t i lots l n =
    commas [OMSScripInfo.cSymbol i, name, money (tagTradeDetails.nSpread (glTrade l)), show_int lots,
      show_int (cquot (tagTradeDetails.nStrikePrice (glTrade l)) 100), average_text (glTrade l),
      show_int (glFirstSeqNo l), show_int (glLastSeqNo l),
      clock_text t @ show_int (glTimestamp l) @ ''1000000'', show_int n]"
  by (simp add: reversal_line_def Let_def)

lemma contract_name_comma_free:
  assumes "contract_name t i d letter = Inr name" and "comma_free (OMSScripInfo.cSymbol i)" and "comma_free letter"
  shows "comma_free name"
proof -
  have "month_name k = Inr mon \<Longrightarrow> comma_free mon" for k mon
    by (auto simp: month_name_def vec_get_def MONTH_def less_Suc_eq numeral_eq_Suc split: if_splits)
  then show ?thesis
    using assms show_int_comma_free
    by (auto simp: contract_name_def Let_def bindR_eq_Inr dest!: in_set_takeD)
qed

lemmas text_comma_free = show_int_comma_free contract_name_comma_free

lemma in_range_64: "in_range 32 a \<Longrightarrow> in_range 64 a"
  by (simp add: in_range_def)

lemma cquot_in_range: "in_range 32 a \<Longrightarrow> in_range 32 (cquot a 100)"
  by (rule cdiv_typed [of 32 a 100]) (simp_all add: cdiv_def)

text \<open>The fields of a printed line that the published record has, in their positions.\<close>

definition line_shows :: "(int \<Rightarrow> string) \<Rightarrow> string list \<Rightarrow> tagConRevTradeDetails \<Rightarrow> bool" where
  "line_shows money fs r \<longleftrightarrow>
     take SCRIP_SYMBOL_LEN (fs ! 0) = tagConRevTradeDetails.cSymbol r \<and>
     fs ! 2 = money (tagConRevTradeDetails.nSpread r) \<and>
     atol (fs ! 3) = tagConRevTradeDetails.nTotalTradeLot r \<and>
     atol (fs ! 4) = cquot (tagConRevTradeDetails.nStrikePrice r) 100 \<and>
     atol (fs ! 7) = nExchangeSequenceNo r"

section \<open>Properties\<close>

text \<open>
  C38. The printed line agrees with the published record: cut at its commas it gives back symbol,
  spread, lots, strike in units of 100 and exchange sequence number. A conversion's line has eleven
  fields, a reversal's only ten, since the comma between time and time stamp is missing.
\<close>

lemma printed_line_reads_back:
  assumes "publish_group push streamId l q = Inr (l1, q1)" and "print_group lt money n l = Inr (Some line)"
    and "record_typed (glConRev l1)" and "glInfo l = Some i" and "comma_free (OMSScripInfo.cSymbol i)"
    and "comma_free (money (group_spread (glTrade l)))"
  shows "length (split_commas line) =
      (if tagConRevTradeDetails.nStrategyIndentifier (glConRev l1) = 1 then 11 else 10) \<and>
    line_shows money (split_commas line) (glConRev l1)"
proof -
  let ?d = "(glTrade l)\<lparr>nSpread := group_spread (glTrade l)\<rparr>"
  let ?l = "l\<lparr>glTrade := ?d\<rparr>" and ?s = "tagTradeDetails.nStrategyIndentifier (glTrade l)"
  have s: "?s = 1 \<or> ?s = 2"
    using assms(2) by (auto simp: print_group_def Let_def split: if_splits)
  then obtain lots where lots: "cdiv 32 (nTradedVolume1 (glTrade l)) (nBoardLotQty i) = Inr lots"
      "glConRev l1 = fill_conrev streamId ?l i lots (glConRev l)"
    using assms(1,4) by (auto simp: publish_group_def Let_def bindR_eq_Inr)
  then have typed: "in_range 64 lots" "in_range 64 (cquot (tagTradeDetails.nStrikePrice (glTrade l)) 100)"
      "in_range 64 (glLastSeqNo l)"
    using assms(3) by (simp_all add: record_typed_def fill_conrev_def in_range_64 cquot_in_range)
  have free: "comma_free (average_text ?d)" "comma_free (clock_text t)" for t
    using show_int_comma_free by (simp_all add: average_text_def clock_text_def)
  obtain name t1 where name: "comma_free name" and
      "line = (if ?s = 1 then conversion_line money name t1 i lots ?l n else reversal_line money name t1 i lots ?l n)"
    using assms(2,4,5) lots(1) s contract_name_comma_free
    by (fastforce simp: print_group_def Let_def bindR_eq_Inr split: if_splits)
  then show ?thesis
    using s assms(5,6) free show_int_comma_free typed
    by (auto simp: conversion_line_commas reversal_line_commas split_commas_commas line_shows_def lots(2)
      fill_conrev_def atol_show_int simp del: commas.simps)
qed

definition sample_locals :: group_locals where
  "sample_locals = group_locals_init\<lparr>glTrade := tagTradeDetails_zero\<lparr>nTradedVolume1 := 10,
     tagTradeDetails.nStrategyIndentifier := 2\<rparr>, glInfo := Some (sample_scrip 1 1 0)\<rparr>"

lemma printed_line_reads_back_witness:
  "\<exists>line. print_group (\<lambda>_. \<lparr>tm_sec = 0, tm_min = 0, tm_hour = 0, tm_mday = 1, tm_mon = 8, tm_year = 117\<rparr>) show_int 3 sample_locals =
      Inr (Some line) \<and> length (split_commas line) = 10"
proof -
  obtain l1 q1 where p: "publish_group (list_push 9) 1 sample_locals \<lparr>sqSize = 0, sqPtrQ = []\<rparr> = Inr (l1, q1)"
      and r: "record_typed (glConRev l1)" "tagConRevTradeDetails.nStrategyIndentifier (glConRev l1) = 2"
    using cdiv_typed [of 32 10 5 "cquot 10 5"]
    by (simp add: in_range_def [of 32 10] publish_group_def sample_locals_def Let_def group_locals_init_def tagTradeDetails_zero_def
      sample_scrip_def cdiv_def fill_conrev_def record_typed_def typed group_spread_def OMSScripInfo_zero_def fits_def array_lengths)
  obtain line where l: "print_group (\<lambda>_. \<lparr>tm_sec = 0, tm_min = 0, tm_hour = 0, tm_mday = 1, tm_mon = 8, tm_year = 117\<rparr>)
      show_int 3 sample_locals = Inr (Some line)"
    by (simp add: print_group_def sample_locals_def Let_def group_locals_init_def tagTradeDetails_zero_def
      sample_scrip_def cdiv_def contract_name_def month_name_def vec_get_def MONTH_def OMSScripInfo_zero_def)
  have i: "glInfo sample_locals = Some (sample_scrip 1 1 0)" "comma_free (OMSScripInfo.cSymbol (sample_scrip 1 1 0))"
    by (simp_all add: sample_locals_def sample_scrip_def OMSScripInfo_zero_def)
  from printed_line_reads_back [OF p l r(1) i show_int_comma_free(1)] l r(2) show ?thesis by simp
qed

end
