(* ===== verification/Recovery.thy ===== *)
theory Recovery
  imports Wire
begin

text \<open>
  The recovery manager, \<^verbatim>\<open>src/recoverymgr.h\<close>: what \<open>GetPacketFromMessage\<close> makes of the
  bytes received over TCP, one recovery session (\<open>RecoveryPackets\<close>: rate limit, connect, request,
  receive until the server closes), the retry loop \<open>ForceRecoveryPackets\<close>, and the division of a
  gap into requests, \<open>SplitRecoveryDataRequest\<close>. Loops that may run for ever are partial
  functions: \<open>None\<close> is a call that does not return. The message handler, the clock and the
  answers of the operating system and of the server are parameters.
\<close>

section \<open>Computations that may not return\<close>

type_synonym 'a run = "'a res option"

definition bindO :: "'a run \<Rightarrow> ('a \<Rightarrow> 'b run) \<Rightarrow> 'b run" where
  "bindO r f = Option.bind r (\<lambda>x. case x of Inl e \<Rightarrow> Some (Inl e) | Inr y \<Rightarrow> f y)"

lemma bindO_simps [simp]:
  "bindO None f = None"
  "bindO (Some (Inl e)) f = Some (Inl e)"
  "bindO (Some (Inr x)) f = f x"
  by (simp_all add: bindO_def)

lemma run_cases:
  obtains (diverges) "r = None" | (fault) e where "r = Some (Inl e)" | (returns) x where "r = Some (Inr x)"
  by (cases r) (auto split: sum.splits elim: sumE)

lemma bindO_mono [partial_function_mono]:
  assumes "mono_option B" and "\<And>y. mono_option (\<lambda>f. C y f)"
  shows "mono_option (\<lambda>f. bindO (B f) (\<lambda>y. C y f))"
  unfolding bindO_def
proof (rule bind_mono [OF assms(1)])
  show "mono_option (\<lambda>f. case x of Inl e \<Rightarrow> Some (Inl e) | Inr y \<Rightarrow> C y f)" for x :: "'c res"
    by (cases x) (simp_all add: assms(2) option.const_mono)
qed

lemma bindO_eq_Some:
  "bindO r f = Some y \<longleftrightarrow> (\<exists>e. r = Some (Inl e) \<and> y = Inl e) \<or> (\<exists>x. r = Some (Inr x) \<and> f x = Some y)"
  by (cases r rule: run_cases) auto

lemma bindO_cong [fundef_cong]:
  "r = r' \<Longrightarrow> (\<And>x. r' = Some (Inr x) \<Longrightarrow> f x = g x) \<Longrightarrow> bindO r f = bindO r' g"
  by (cases r' rule: run_cases) auto

section \<open>GetPacketFromMessage\<close>

text \<open>
  The locals of the loop and its reference parameters. \<open>gpTick\<close> counts the clock readings made
  so far, \<open>clock k\<close> is the reading number \<open>k\<close>. \<open>gpApp\<close> is the state the handler works on.
\<close>

record 's packet_scan =
  gpBuffer :: "byte list"
  gpAvailable :: nat
  gpMsg :: CompositeBcastMsg
  gpTv0 :: timespec
  gpTick :: nat
  gpPending :: nat
  gpLastSeqNo :: int
  gpCount :: int
  gpApp :: 's

text \<open>
  The cases of the switch that copy a message: the size of the struct, whether the clock is read
  again, and whether the message goes to \<open>WriteDataInFile1\<close>.
\<close>

definition packet_case :: "byte \<Rightarrow> (nat \<times> bool \<times> bool) option" where
  "packet_case t =
    (if t = NEW_ORDER \<or> t = ORDER_MODIFICATION \<or> t = ORDER_CANCELLATION \<or> t = SPREAD_NEW_ORDER \<or>
        t = SPREAD_ORDER_MODIFICATION \<or> t = SPREAD_ORDER_CANCELLATION
       then Some (sizeof_GENERIC_ORD_MSG, True, True)
     else if t = TRADE_MESSAGE then Some (sizeof_TRD_MSG, True, True)
     else if t = SPREAD_TRADE_MESSAGE then Some (sizeof_TRD_MSG, True, True)
     else if t = BEGIN_OF_MASTER then Some (sizeof_MST_DATA_HEADER, False, True)
     else if t = CONTRACT_INFORMATION then Some (sizeof_CONTRACT_INFO, False, True)
     else if t = SPREAD_INFORMATION then Some (sizeof_SPRD_CONTRACT_INFO, False, True)
     else if t = END_OF_MASTER then Some (sizeof_MST_DATA_TRAILER, False, False)
     else None)"

text \<open>The body of such a case, once the whole struct is in the buffer.\<close>

definition copy_packet ::
  "(nat \<Rightarrow> timespec) \<Rightarrow> (CompositeBcastMsg \<Rightarrow> 's \<Rightarrow> 's res) \<Rightarrow> nat \<times> bool \<times> bool \<Rightarrow>
   's packet_scan \<Rightarrow> 's packet_scan res" where
  "copy_packet clock handle c p =
    (case c of (sz, fresh, handled) \<Rightarrow>
      let p1 = (if fresh then p\<lparr>gpTv0 := clock (gpTick p), gpTick := gpTick p + 1\<rparr> else p);
          m = \<lparr>stBcastMsg = overlay (field_at (gpAvailable p) sz (gpBuffer p)) (stBcastMsg (gpMsg p)),
               tv = gpTv0 p1\<rparr>
      in bindR (if handled then handle m (gpApp p1) else Inr (gpApp p1)) (\<lambda>s.
           Inr (p1\<lparr>gpMsg := m, gpApp := s, gpLastSeqNo := msgSeqNo m,
                  gpAvailable := gpAvailable p1 + sz, gpCount := wrap32 (gpCount p1 + 1)\<rparr>)))"

text \<open>\<open>nPendingData = nTotalSize - lnAvailable; memcpy(pcBuffer, pcBuffer + lnAvailable, nPendingData)\<close>\<close>

definition keep_rest :: "nat \<Rightarrow> 's packet_scan \<Rightarrow> 's packet_scan" where
  "keep_rest nTotal p =
    p\<lparr>gpPending := nTotal - gpAvailable p,
      gpBuffer := overlay (field_at (gpAvailable p) (nTotal - gpAvailable p) (gpBuffer p)) (gpBuffer p)\<rparr>"

text \<open>One iteration: it goes on, or returns a code.\<close>

definition packet_step ::
  "(nat \<Rightarrow> timespec) \<Rightarrow> (CompositeBcastMsg \<Rightarrow> 's \<Rightarrow> 's res) \<Rightarrow> nat \<Rightarrow> 's packet_scan \<Rightarrow>
   (int option \<times> 's packet_scan) res" where
  "packet_step clock handle nTotal p =
    (if nTotal - gpAvailable p < sizeof_MSG_HEADER then Inr (Some 0, keep_rest nTotal p)
     else
      (let bs = drop (gpAvailable p) (gpBuffer p); t = MSG_HEADER.cMsgType (MSG_HEADER_of bs)
       in if t = RECOVERY_RESPONSE then
            (if gpAvailable p + sizeof_RECOVERY_RESP \<le> nTotal then
               (let r = RECOVERY_RESP_of bs
                in if cReqStatus r = RECOVERY_RESPONSE \<and> cReqStatus r \<noteq> REQUEST_SUCCESS
                     then Inr (Some (- 1), p)
                   else Inr (None, p\<lparr>gpAvailable := gpAvailable p + sizeof_RECOVERY_RESP\<rparr>))
             else Inr (None, p))
          else
            (case packet_case t of
               None \<Rightarrow> Inr (None, p)
             | Some c \<Rightarrow>
                 if gpAvailable p + fst c \<le> nTotal
                   then bindR (copy_packet clock handle c p) (\<lambda>p1. Inr (None, p1))
                 else Inr (Some 0, keep_rest nTotal p))))"

partial_function (option) packet_loop ::
  "(nat \<Rightarrow> timespec) \<Rightarrow> (CompositeBcastMsg \<Rightarrow> 's \<Rightarrow> 's res) \<Rightarrow> nat \<Rightarrow> 's packet_scan \<Rightarrow>
   (int \<times> 's packet_scan) run" where
  "packet_loop clock handle nTotal p =
    (if gpAvailable p < nTotal then
       bindO (Some (packet_step clock handle nTotal p)) (\<lambda>r.
         case fst r of
           Some code \<Rightarrow> Some (Inr (code, snd r))
         | None \<Rightarrow> packet_loop clock handle nTotal (snd r))
     else Some (Inr (0, p)))"

text \<open>
  The call: \<open>u\<close> is what the uninitialised local message holds, \<open>k\<close> the number of clock
  readings before the call.
\<close>

definition GetPacketFromMessage ::
  "(nat \<Rightarrow> timespec) \<Rightarrow> (CompositeBcastMsg \<Rightarrow> 's \<Rightarrow> 's res) \<Rightarrow> CompositeBcastMsg \<Rightarrow> nat \<Rightarrow>
   byte list \<Rightarrow> nat \<Rightarrow> nat \<Rightarrow> int \<Rightarrow> int \<Rightarrow> 's \<Rightarrow> (int \<times> 's packet_scan) run" where
  "GetPacketFromMessage clock handle u k buf nTotal nPending nLast nCount s =
    packet_loop clock handle nTotal
      \<lparr>gpBuffer = buf, gpAvailable = 0, gpMsg = u, gpTv0 = clock k, gpTick = k + 1,
       gpPending = nPending, gpLastSeqNo = nLast, gpCount = nCount, gpApp = s\<rparr>"

section \<open>The messages of a recovery stream\<close>

text \<open>What the server sends: a response, then market data messages, each in its own struct.\<close>

datatype packet =
  Response RECOVERY_RESP
| OrderPacket GENERIC_ORD_MSG
| TradePacket TRD_MSG
| BeginPacket MST_DATA_HEADER
| ContractPacket CONTRACT_INFO
| SpreadPacket SPRD_CONTRACT_INFO
| EndPacket MST_DATA_TRAILER

fun packet_bytes :: "packet \<Rightarrow> byte list" where
  "packet_bytes (Response r) = RECOVERY_RESP_bytes r"
| "packet_bytes (OrderPacket g) = GENERIC_ORD_MSG_bytes g"
| "packet_bytes (TradePacket t) = TRD_MSG_bytes t"
| "packet_bytes (BeginPacket h) = MST_DATA_HEADER_bytes h"
| "packet_bytes (ContractPacket c) = CONTRACT_INFO_bytes c"
| "packet_bytes (SpreadPacket c) = SPRD_CONTRACT_INFO_bytes c"
| "packet_bytes (EndPacket t) = MST_DATA_TRAILER_bytes t"

fun packet_ok :: "packet \<Rightarrow> bool" where
  "packet_ok (Response r) \<longleftrightarrow> RECOVERY_RESP_ok r \<and> RECOVERY_RESP.cMsgType r = RECOVERY_RESPONSE \<and>
     cReqStatus r \<noteq> RECOVERY_RESPONSE"
| "packet_ok (OrderPacket g) \<longleftrightarrow> GENERIC_ORD_MSG_ok g \<and> GENERIC_ORD_MSG.cMsgType g \<in>
     {NEW_ORDER, ORDER_MODIFICATION, ORDER_CANCELLATION, SPREAD_NEW_ORDER, SPREAD_ORDER_MODIFICATION,
      SPREAD_ORDER_CANCELLATION}"
| "packet_ok (TradePacket t) \<longleftrightarrow> TRD_MSG_ok t \<and>
     TRD_MSG.cMsgType t \<in> {TRADE_MESSAGE, SPREAD_TRADE_MESSAGE}"
| "packet_ok (BeginPacket h) \<longleftrightarrow> MST_DATA_HEADER_ok h \<and> MST_DATA_HEADER.cMsgType h = BEGIN_OF_MASTER"
| "packet_ok (ContractPacket c) \<longleftrightarrow> CONTRACT_INFO_ok c \<and> CONTRACT_INFO.cMsgType c = CONTRACT_INFORMATION"
| "packet_ok (SpreadPacket c) \<longleftrightarrow> SPRD_CONTRACT_INFO_ok c \<and>
     SPRD_CONTRACT_INFO.cMsgType c = SPREAD_INFORMATION"
| "packet_ok (EndPacket t) \<longleftrightarrow> MST_DATA_TRAILER_ok t \<and> MST_DATA_TRAILER.cMsgType t = END_OF_MASTER"

fun is_response :: "packet \<Rightarrow> bool" where
  "is_response (Response r) = True"
| "is_response _ = False"

text \<open>The packets that reach the handler: neither the response nor the end of the master data.\<close>

fun is_handled :: "packet \<Rightarrow> bool" where
  "is_handled (Response r) = False"
| "is_handled (EndPacket t) = False"
| "is_handled _ = True"

fun packet_seq :: "packet \<Rightarrow> int" where
  "packet_seq (Response r) = STREAM_HEADER.nSeqNo (RECOVERY_RESP.header r)"
| "packet_seq (OrderPacket g) = STREAM_HEADER.nSeqNo (GENERIC_ORD_MSG.header g)"
| "packet_seq (TradePacket t) = STREAM_HEADER.nSeqNo (TRD_MSG.header t)"
| "packet_seq (BeginPacket h) = STREAM_HEADER.nSeqNo (MST_DATA_HEADER.header h)"
| "packet_seq (ContractPacket c) = STREAM_HEADER.nSeqNo (CONTRACT_INFO.header c)"
| "packet_seq (SpreadPacket c) = STREAM_HEADER.nSeqNo (SPRD_CONTRACT_INFO.header c)"
| "packet_seq (EndPacket t) = STREAM_HEADER.nSeqNo (MST_DATA_TRAILER.header t)"

text \<open>The union of a delivered message begins with the bytes of the packet.\<close>

definition carries :: "packet \<Rightarrow> CompositeBcastMsg \<Rightarrow> bool" where
  "carries x m \<longleftrightarrow> take (length (packet_bytes x)) (stBcastMsg m) = packet_bytes x"

lemmas struct_sizes = sizeof_STREAM_HEADER_def sizeof_MSG_HEADER_def sizeof_GENERIC_ORD_MSG_def
  sizeof_TRD_MSG_def sizeof_MST_DATA_HEADER_def sizeof_CONTRACT_INFO_def
  sizeof_SPRD_CONTRACT_INFO_def sizeof_MST_DATA_TRAILER_def sizeof_RECOVERY_RESP_def

lemmas struct_decodes = gom.dec_enc tm.dec_enc mdh.dec_enc ci.dec_enc sci.dec_enc mdt.dec_enc rr.dec_enc

lemmas struct_lengths = gom.length_enc tm.length_enc mdh.length_enc ci.length_enc sci.length_enc
  mdt.length_enc rr.length_enc

lemmas member_defs = stTrdMsg_def stGegenricOrdMsg_def stMSTDataHeader_def stContractInfo_def
  stSprdContractInfo_def stMSTDataTrailer_def stRecoveryResp_def

fun packet_type :: "packet \<Rightarrow> byte" where
  "packet_type (Response r) = RECOVERY_RESP.cMsgType r"
| "packet_type (OrderPacket g) = GENERIC_ORD_MSG.cMsgType g"
| "packet_type (TradePacket t) = TRD_MSG.cMsgType t"
| "packet_type (BeginPacket h) = MST_DATA_HEADER.cMsgType h"
| "packet_type (ContractPacket c) = CONTRACT_INFO.cMsgType c"
| "packet_type (SpreadPacket c) = SPRD_CONTRACT_INFO.cMsgType c"
| "packet_type (EndPacket t) = MST_DATA_TRAILER.cMsgType t"

lemma packet_view:
  assumes "packet_ok x"
  shows "MSG_HEADER.cMsgType (MSG_HEADER_of (packet_bytes x @ bs)) = packet_type x"
    and "STREAM_HEADER.nSeqNo (STREAM_HEADER_of (packet_bytes x @ bs)) = packet_seq x"
proof -
  show "MSG_HEADER.cMsgType (MSG_HEADER_of (packet_bytes x @ bs)) = packet_type x"
    using assms common_prefix(1-7) [of "packet_bytes x @ bs"]
    by (cases x) (simp_all add: stMsgHeader_def member_defs struct_decodes del: msg_codes)
  show "STREAM_HEADER.nSeqNo (STREAM_HEADER_of (packet_bytes x @ bs)) = packet_seq x"
    using assms common_prefix(8-14) [of "packet_bytes x @ bs"]
    by (cases x) (simp_all add: stHeader_def member_defs struct_decodes del: msg_codes)
qed

lemma packet_case_ok:
  "packet_ok x \<Longrightarrow> \<not> is_response x \<Longrightarrow>
   \<exists>fresh. packet_case (packet_type x) = Some (length (packet_bytes x), fresh, is_handled x)"
  by (cases x) (auto simp: packet_case_def struct_lengths)

lemma packet_type_response: "packet_ok x \<Longrightarrow> packet_type x = RECOVERY_RESPONSE \<longleftrightarrow> is_response x"
  by (cases x) auto

lemma packet_length: "packet_ok x \<Longrightarrow> sizeof_MSG_HEADER \<le> length (packet_bytes x) \<and> length (packet_bytes x) \<le> 45"
  by (cases x) (auto simp: struct_lengths struct_sizes)

text \<open>
  What can be left at the end of a chunk: a proper prefix of a packet, which the parser recognises
  as incomplete when it is shorter than a message header or of a type that is not the response.
\<close>

definition incomplete :: "byte list \<Rightarrow> bool" where
  "incomplete bs \<longleftrightarrow> length bs < sizeof_MSG_HEADER \<or>
    (\<exists>c. packet_case (MSG_HEADER.cMsgType (MSG_HEADER_of bs)) = Some c \<and> length bs < fst c)"

definition packets_bytes :: "packet list \<Rightarrow> byte list" where
  "packets_bytes xs = concat (map packet_bytes xs)"

lemma packets_bytes_simps [simp]:
  "packets_bytes [] = []" "packets_bytes (x # xs) = packet_bytes x @ packets_bytes xs"
  "packets_bytes (xs @ ys) = packets_bytes xs @ packets_bytes ys"
  by (simp_all add: packets_bytes_def)

definition delivered :: "packet list \<Rightarrow> CompositeBcastMsg list \<Rightarrow> bool" where
  "delivered xs ms \<longleftrightarrow> list_all2 carries (filter is_handled xs) ms"

fun last_seq :: "packet list \<Rightarrow> int \<Rightarrow> int" where
  "last_seq [] q = q"
| "last_seq (x # xs) q = last_seq xs (if is_response x then q else packet_seq x)"

fun recount :: "packet list \<Rightarrow> int \<Rightarrow> int" where
  "recount [] c = c"
| "recount (x # xs) c = recount xs (if is_response x then c else wrap32 (c + 1))"

text \<open>One packet that is completely in the buffer.\<close>

lemma packet_step_copies:
  assumes x: "packet_ok x" and buf: "drop (gpAvailable p) (gpBuffer p) = packet_bytes x @ bs"
    and fits: "gpAvailable p + length (packet_bytes x) \<le> nTotal"
  obtains (response) "is_response x" "packet_step clock handle nTotal p =
      Inr (None, p\<lparr>gpAvailable := gpAvailable p + length (packet_bytes x)\<rparr>)"
  | (message) m p1 where "\<not> is_response x" "carries x m" "packet_step clock handle nTotal p =
      bindR (if is_handled x then handle m (gpApp p) else Inr (gpApp p)) (\<lambda>s.
        Inr (None, p1\<lparr>gpApp := s\<rparr>))"
      "gpBuffer p1 = gpBuffer p" "gpAvailable p1 = gpAvailable p + length (packet_bytes x)"
      "gpPending p1 = gpPending p" "gpLastSeqNo p1 = packet_seq x" "gpCount p1 = wrap32 (gpCount p + 1)"
proof (cases "is_response x")
  case True
  then obtain r where r: "x = Response r" by (cases x) auto
  have "\<not> nTotal - gpAvailable p < sizeof_MSG_HEADER"
    using fits packet_length [OF x] by linarith
  moreover have "RECOVERY_RESP_of (packet_bytes x @ bs) = r"
    using x r by (simp add: rr.dec_enc)
  ultimately show thesis
    using x r fits packet_view(1) [OF x, of bs]
    by (intro response) (simp_all add: packet_step_def buf struct_lengths del: msg_codes)
next
  case False
  obtain fresh where c: "packet_case (packet_type x) = Some (length (packet_bytes x), fresh, is_handled x)"
    using packet_case_ok [OF x False] by blast
  define p0 where "p0 = (if fresh then p\<lparr>gpTv0 := clock (gpTick p), gpTick := gpTick p + 1\<rparr> else p)"
  define m where "m = \<lparr>stBcastMsg = overlay (packet_bytes x) (stBcastMsg (gpMsg p)), tv = gpTv0 p0\<rparr>"
  define p1 where "p1 = p0\<lparr>gpMsg := m, gpLastSeqNo := packet_seq x,
    gpAvailable := gpAvailable p + length (packet_bytes x), gpCount := wrap32 (gpCount p + 1)\<rparr>"
  have f: "field_at (gpAvailable p) (length (packet_bytes x)) (gpBuffer p) = packet_bytes x"
    by (simp add: field_at_def buf)
  have q: "msgSeqNo m = packet_seq x"
    using packet_view(2) [OF x] by (simp add: msgSeqNo_def m_def overlay_def stHeader_def)
  have n: "\<not> nTotal - gpAvailable p < sizeof_MSG_HEADER"
    using fits packet_length [OF x] by linarith
  have t: "MSG_HEADER.cMsgType (MSG_HEADER_of (drop (gpAvailable p) (gpBuffer p))) = packet_type x"
    using packet_view(1) [OF x] buf by simp
  have y: "packet_type x \<noteq> RECOVERY_RESPONSE"
    using packet_type_response [OF x] False by simp
  have 0: "gpApp p0 = gpApp p" "gpAvailable p0 = gpAvailable p" "gpCount p0 = gpCount p"
      "gpBuffer p0 = gpBuffer p" "gpPending p0 = gpPending p"
    by (simp_all add: p0_def)
  have u: "p0\<lparr>gpMsg := m, gpApp := s, gpLastSeqNo := packet_seq x,
      gpAvailable := gpAvailable p + length (packet_bytes x), gpCount := wrap32 (gpCount p + 1)\<rparr>
    = p1\<lparr>gpApp := s\<rparr>" for s
    by (cases p0) (simp add: p1_def)
  have "packet_step clock handle nTotal p =
      bindR (copy_packet clock handle (length (packet_bytes x), fresh, is_handled x) p) (\<lambda>p1. Inr (None, p1))"
    using n t y c fits by (simp add: packet_step_def Let_def del: msg_codes)
  also have "\<dots> = bindR (if is_handled x then handle m (gpApp p) else Inr (gpApp p)) (\<lambda>s.
        Inr (None, p1\<lparr>gpApp := s\<rparr>))"
    by (simp add: copy_packet_def f p0_def [symmetric] m_def [symmetric] q bindR_assoc u 0 Let_def)
  finally have st: "packet_step clock handle nTotal p = \<dots>" .
  have "carries x m" by (simp add: m_def carries_def overlay_def)
  then show thesis
    by (rule message [OF False _ st]) (simp_all add: p1_def 0)
qed

text \<open>The loop over a buffer that holds whole packets and an incomplete one.\<close>

lemma packet_loop_returns_rest:
  assumes buf: "drop (gpAvailable p) (gpBuffer p) = rest @ junk"
    and n: "nTotal = gpAvailable p + length rest" and rest: "incomplete rest"
  shows "packet_loop clock handle nTotal p =
    Some (Inr (0, if rest = [] then p
                  else p\<lparr>gpPending := length rest, gpBuffer := overlay rest (gpBuffer p)\<rparr>))"
proof (cases "rest = []")
  case False
  have k: "keep_rest nTotal p = p\<lparr>gpPending := length rest, gpBuffer := overlay rest (gpBuffer p)\<rparr>"
    by (simp add: keep_rest_def n field_at_def buf)
  have "packet_step clock handle nTotal p = Inr (Some 0, keep_rest nTotal p)"
  proof (cases "length rest < sizeof_MSG_HEADER")
    case False
    then have "MSG_HEADER_of (drop (gpAvailable p) (gpBuffer p)) = MSG_HEADER_of rest"
      by (simp add: buf mh.dec_local)
    moreover obtain c where "packet_case (MSG_HEADER.cMsgType (MSG_HEADER_of rest)) = Some c"
        "length rest < fst c"
      using rest False by (auto simp: incomplete_def)
    moreover from this have "MSG_HEADER.cMsgType (MSG_HEADER_of rest) \<noteq> RECOVERY_RESPONSE"
      by (auto simp: packet_case_def)
    ultimately show ?thesis
      using False by (simp add: packet_step_def n Let_def del: msg_codes)
  qed (simp add: packet_step_def n)
  with False show ?thesis
    by (subst packet_loop.simps) (simp add: n k [unfolded n])
qed (simp add: n packet_loop.simps)

lemma packet_loop_delivers:
  assumes "\<forall>x \<in> set xs. packet_ok x" and "incomplete rest"
    and "drop (gpAvailable p) (gpBuffer p) = packets_bytes xs @ rest @ junk"
    and "nTotal = gpAvailable p + length (packets_bytes xs) + length rest"
  shows "\<exists>ms q. delivered xs ms \<and>
    packet_loop clock handle nTotal p =
      bindO (Some (foldR handle ms (gpApp p))) (\<lambda>s. Some (Inr (0, q\<lparr>gpApp := s\<rparr>))) \<and>
    take (length rest) (gpBuffer q) = rest \<and> length (gpBuffer q) = length (gpBuffer p) \<and>
    gpPending q = (if rest = [] then gpPending p else length rest) \<and>
    gpLastSeqNo q = last_seq xs (gpLastSeqNo p) \<and> gpCount q = recount xs (gpCount p)"
  using assms
proof (induction xs arbitrary: p)
  case Nil
  let ?q = "if rest = [] then p else p\<lparr>gpPending := length rest, gpBuffer := overlay rest (gpBuffer p)\<rparr>"
  have "length rest \<le> length (gpBuffer p)"
    using arg_cong [OF Nil.prems(3), of length] by simp
  then show ?case
    using Nil.prems packet_loop_returns_rest [of p rest junk nTotal clock handle]
    by (intro exI [of _ "[]"] exI [of _ ?q]) (auto simp: delivered_def overlay_def)
next
  case (Cons x xs)
  let ?n = "length (packet_bytes x)"
  have x: "packet_ok x" and xs: "\<forall>x \<in> set xs. packet_ok x" using Cons.prems(1) by auto
  have buf: "drop (gpAvailable p) (gpBuffer p) = packet_bytes x @ packets_bytes xs @ rest @ junk"
    using Cons.prems(3) by simp
  have next_buf: "drop (gpAvailable p + ?n) (gpBuffer p) = packets_bytes xs @ rest @ junk"
    using buf by (metis append_eq_conv_conj drop_drop add.commute)
  have fits: "gpAvailable p + ?n \<le> nTotal" using Cons.prems(4) by simp
  have on: "gpAvailable p < nTotal"
    using fits packet_length [OF x] by (simp add: struct_sizes)
  show ?case
  proof (cases rule: packet_step_copies [OF x buf fits, of clock handle, case_names response message])
    case response
    define p1 where "p1 = p\<lparr>gpAvailable := gpAvailable p + ?n\<rparr>"
    from response(2) have "packet_loop clock handle nTotal p = packet_loop clock handle nTotal p1"
      by (subst packet_loop.simps) (simp add: on p1_def)
    moreover have "\<not> is_handled x" using response(1) by (cases x) auto
    ultimately show ?thesis
      using Cons.IH [OF xs Cons.prems(2), of p1] next_buf Cons.prems(4) response(1)
      by (cases "rest = []") (simp_all add: p1_def delivered_def)
  next
    case (message m p1)
    let ?h = "if is_handled x then handle m (gpApp p) else Inr (gpApp p)"
    have step: "packet_loop clock handle nTotal p =
        bindO (Some ?h) (\<lambda>s. packet_loop clock handle nTotal (p1\<lparr>gpApp := s\<rparr>))"
      by (subst packet_loop.simps, cases ?h) (simp_all add: on message(3))
    have IH: "\<exists>ms q. delivered xs ms \<and> packet_loop clock handle nTotal (p1\<lparr>gpApp := s\<rparr>) =
        bindO (Some (foldR handle ms s)) (\<lambda>s. Some (Inr (0, q\<lparr>gpApp := s\<rparr>))) \<and>
        take (length rest) (gpBuffer q) = rest \<and> length (gpBuffer q) = length (gpBuffer p) \<and>
        gpPending q = (if rest = [] then gpPending p else length rest) \<and>
        gpLastSeqNo q = last_seq xs (packet_seq x) \<and> gpCount q = recount xs (wrap32 (gpCount p + 1))" for s
      using Cons.IH [OF xs Cons.prems(2), of "p1\<lparr>gpApp := s\<rparr>"] next_buf Cons.prems(4) message(4-8)
      by (cases "rest = []") simp_all
    have d: "delivered xs ms \<Longrightarrow> delivered (x # xs) (if is_handled x then m # ms else ms)" for ms
      using message(2) by (simp add: delivered_def)
    obtain s where s: "s = gpApp p \<or> ?h = Inr s" "\<And>s1. ?h = Inr s1 \<Longrightarrow> s1 = s"
      by (cases ?h) auto
    obtain ms q where "delivered xs ms" and q: "packet_loop clock handle nTotal (p1\<lparr>gpApp := s\<rparr>) =
        bindO (Some (foldR handle ms s)) (\<lambda>s. Some (Inr (0, q\<lparr>gpApp := s\<rparr>)))"
        "take (length rest) (gpBuffer q) = rest" "length (gpBuffer q) = length (gpBuffer p)"
        "gpPending q = (if rest = [] then gpPending p else length rest)"
        "gpLastSeqNo q = last_seq xs (packet_seq x)" "gpCount q = recount xs (wrap32 (gpCount p + 1))"
      using IH [of s] by blast
    have "packet_loop clock handle nTotal p =
        bindO (Some (foldR handle (if is_handled x then m # ms else ms) (gpApp p)))
          (\<lambda>s. Some (Inr (0, q\<lparr>gpApp := s\<rparr>)))"
      unfolding step using s(2) q(1) by (cases ?h) (auto split: if_splits)
    with d [OF \<open>delivered xs ms\<close>] q(2-6) message(1) show ?thesis
      by (intro exI [of _ "if is_handled x then m # ms else ms"] exI [of _ q]) simp
  qed
qed

section \<open>Messages that stop the parser\<close>

text \<open>An iteration that changes nothing is repeated for ever.\<close>

lemma packet_loop_stuck:
  assumes "gpAvailable p < nTotal" and "packet_step clock handle nTotal p = Inr (None, p)"
  shows "packet_loop clock handle nTotal p = None"
proof -
  have False if "packet_loop clock handle nTotal p = Some y" for y
  proof -
    have "c = clock \<and> h = handle \<and> n = nTotal \<longrightarrow> q \<noteq> p" if "packet_loop c h n q = Some y" for c h n q y
      by (rule packet_loop.raw_induct
          [where P = "\<lambda>c h n q y. c = clock \<and> h = handle \<and> n = nTotal \<longrightarrow> q \<noteq> p", OF _ that])
        (use assms in fastforce)
    with that show False by blast
  qed
  then show ?thesis by (cases "packet_loop clock handle nTotal p") auto
qed

section \<open>The manager and its environment\<close>

record CRecoveryMgr =
  m_stRecoverySeq :: RECOVERY_REQ
  m_nRecoverySock :: int
  m_nPortNumber :: int
  m_nMaxPacketCount :: int
  m_cRecoveryIPAddr :: string
  m_nConnectionDelay :: int
  m_nLastRecoveryTime :: int

text \<open>\<open>ipLen\<close> is \<open>IP_ADDRESS_LEN\<close>, whose definition is not among the sources.\<close>

definition CRecoveryMgr_new :: "nat \<Rightarrow> int \<Rightarrow> string \<Rightarrow> int \<Rightarrow> int \<Rightarrow> int \<Rightarrow> CRecoveryMgr" where
  "CRecoveryMgr_new ipLen nPortNumber pcRecoveryIP nStremId nMaxPacketCountInRecovery nConnectionDelay =
    \<lparr>m_stRecoverySeq = \<lparr>RECOVERY_REQ.cMsgType = RECOVERY_REQUEST, wStreamID = nStremId,
       nBegSeqNo = 0, nEndSeqNo = 0\<rparr>,
     m_nRecoverySock = - 1, m_nPortNumber = nPortNumber,
     m_nMaxPacketCount = nMaxPacketCountInRecovery,
     m_cRecoveryIPAddr = take ipLen pcRecoveryIP, m_nConnectionDelay = nConnectionDelay,
     m_nLastRecoveryTime = 2147483647\<rparr>"

text \<open>
  One session as the operating system and the server answer it: the results of \<open>socket\<close>,
  \<open>connect\<close> and \<open>send\<close>, and of each \<open>recv\<close> (the bytes it returned, which are never more than
  the room it was given, or \<open>None\<close> for an error; at the end of the list the server has closed).
  The session number \<open>k\<close> depends on the request it makes.
\<close>

record session =
  ssSocket :: int
  ssConnect :: int
  ssSend :: int
  ssRecv :: "byte list option list"

record 's recovery_env =
  reClock :: "nat \<Rightarrow> timespec"
  reLocal :: "nat \<Rightarrow> CompositeBcastMsg"
  reSession :: "nat \<Rightarrow> RECOVERY_REQ \<Rightarrow> session"
  reHandle :: "CompositeBcastMsg \<Rightarrow> 's \<Rightarrow> 's res"

text \<open>
  The manager, the number of clock readings and of sessions so far, the open descriptors, the
  requests sent, the arguments of \<open>usleep\<close>, and the state of the message handler.
\<close>

record 's recovery_world =
  rwMgr :: CRecoveryMgr
  rwTick :: nat
  rwSession :: nat
  rwOpen :: "int set"
  rwSent :: "RECOVERY_REQ list"
  rwSlept :: "int list"
  rwApp :: 's

section \<open>RecoveryPackets\<close>

definition micros :: "timespec \<Rightarrow> int" where
  "micros t = cquot (wrap64 (tv_sec t * 1000000000 + tv_nsec t)) 1000"

text \<open>The exchange's minimal delay between two requests; \<open>__useconds_t\<close> has 32 bits.\<close>

definition wait_delay :: "'s recovery_env \<Rightarrow> 's recovery_world \<Rightarrow> 's recovery_world" where
  "wait_delay E w =
    (let lnDelay = wrap64 (micros (reClock E (rwTick w)) - m_nLastRecoveryTime (rwMgr w));
         w1 = w\<lparr>rwTick := rwTick w + 1\<rparr>
     in if lnDelay < m_nConnectionDelay (rwMgr w) then
          w1\<lparr>rwSlept := rwSlept w @ [wrap64 (m_nConnectionDelay (rwMgr w) - lnDelay) mod 2 ^ 32]\<rparr>
        else w1)"

definition set_request :: "int \<Rightarrow> int \<Rightarrow> 's recovery_world \<Rightarrow> 's recovery_world" where
  "set_request nFrom nTo w =
    w\<lparr>rwMgr := (rwMgr w)\<lparr>m_stRecoverySeq := (m_stRecoverySeq (rwMgr w))
       \<lparr>nBegSeqNo := nFrom, nEndSeqNo := nTo\<rparr>\<rparr>\<rparr>"

definition CreateSocket :: "session \<Rightarrow> 's recovery_world \<Rightarrow> int \<times> 's recovery_world" where
  "CreateSocket ss w =
    (let w1 = w\<lparr>rwMgr := (rwMgr w)\<lparr>m_nRecoverySock := ssSocket ss\<rparr>\<rparr>
     in if ssSocket ss \<le> - 1 then (- 1, w1)
        else (0, w1\<lparr>rwOpen := insert (ssSocket ss) (rwOpen w1)\<rparr>))"

definition ConnectServer :: "session \<Rightarrow> int" where
  "ConnectServer ss = (if ssConnect ss = - 1 then - 1 else 0)"

definition close_socket :: "'s recovery_world \<Rightarrow> 's recovery_world" where
  "close_socket w = w\<lparr>rwOpen := rwOpen w - {m_nRecoverySock (rwMgr w)}\<rparr>"

text \<open>The receive loop; the result tells whether it ended without \<open>GetPacketFromMessage\<close> failing.\<close>

fun receive_loop ::
  "'s recovery_env \<Rightarrow> byte list option list \<Rightarrow> byte list \<Rightarrow> nat \<Rightarrow> int \<Rightarrow> int \<Rightarrow> 's recovery_world \<Rightarrow>
   (bool \<times> int \<times> int \<times> 's recovery_world) run" where
  "receive_loop E [] buf nPending nLast nCount w = Some (Inr (True, nLast, nCount, close_socket w))"
| "receive_loop E (None # rs) buf nPending nLast nCount w =
     Some (Inr (True, nLast, nCount, close_socket w))"
| "receive_loop E (Some bs # rs) buf nPending nLast nCount w =
     (if bs = [] then Some (Inr (True, nLast, nCount, close_socket w))
      else
        (let buf1 = take nPending buf @ bs @ drop (nPending + length bs) buf
         in bindO (GetPacketFromMessage (reClock E) (reHandle E) (reLocal E (rwTick w)) (rwTick w)
                     buf1 (length bs + nPending) 0 nLast nCount (rwApp w)) (\<lambda>(code, p).
              let w1 = w\<lparr>rwTick := gpTick p, rwApp := gpApp p\<rparr>
              in if code = - 1 then Some (Inr (False, gpLastSeqNo p, gpCount p, close_socket w1))
                 else receive_loop E rs (gpBuffer p) (gpPending p) (gpLastSeqNo p) (gpCount p) w1)))"

text \<open>The chunks that such a loop reads before the server closes or \<open>recv\<close> fails.\<close>

fun answer :: "byte list option list \<Rightarrow> byte list list" where
  "answer [] = []"
| "answer (None # rs) = []"
| "answer (Some bs # rs) = (if bs = [] then [] else bs # answer rs)"

lemma answer_chunks [simp]: "[] \<notin> set cs \<Longrightarrow> answer (map Some cs) = cs"
  by (induction cs) auto

lemma receive_loop_answer:
  "receive_loop E rs buf nPending nLast nCount w = receive_loop E (map Some (answer rs)) buf nPending nLast nCount w"
proof (induction rs arbitrary: buf nPending nLast nCount w)
  case (Cons r rs)
  show ?case by (cases r) (simp_all add: Cons.IH [symmetric] cong: if_cong)
qed simp

text \<open>The result: the return value, the two reference parameters, the world.\<close>

definition RecoveryPackets ::
  "'s recovery_env \<Rightarrow> int \<Rightarrow> int \<Rightarrow> int \<Rightarrow> int \<Rightarrow> 's recovery_world \<Rightarrow>
   (int \<times> int \<times> int \<times> 's recovery_world) run" where
  "RecoveryPackets E nFrom nTo nCount nLast w =
    (let w1 = set_request nFrom nTo (wait_delay E w);
         req = m_stRecoverySeq (rwMgr w1);
         ss = reSession E (rwSession w1) req;
         (r, w2) = CreateSocket ss (w1\<lparr>rwSession := rwSession w1 + 1\<rparr>)
     in if r \<noteq> 0 then Some (Inr (- 1, nCount, nLast, w2))
        else if ConnectServer ss \<noteq> 0 then Some (Inr (- 1, nCount, nLast, w2))
        else if ssSend ss \<le> 0 then Some (Inr (- 1, nCount, nLast, close_socket w2))
        else
          (let w3 = w2\<lparr>rwSent := rwSent w2 @ [req], rwTick := rwTick w2 + 1,
                 rwMgr := (rwMgr w2)\<lparr>m_nLastRecoveryTime := micros (reClock E (rwTick w2))\<rparr>\<rparr>
           in bindO (receive_loop E (ssRecv ss) (replicate 8192 0) 0 nLast nCount w3)
                (\<lambda>(fine, nLast1, nCount1, w4).
                   Some (Inr (if fine \<and> nTo = nLast1 then 0 else - 1, nCount1, nLast1, w4)))))"

section \<open>ForceRecoveryPackets and SplitRecoveryDataRequest\<close>

partial_function (option) force_loop ::
  "'s recovery_env \<Rightarrow> int \<Rightarrow> int \<Rightarrow> int \<Rightarrow> int \<Rightarrow> 's recovery_world \<Rightarrow>
   (int \<times> int \<times> 's recovery_world) run" where
  "force_loop E nFrom nTo nCount nLast w =
    (if nLast \<noteq> nTo then
       bindO (RecoveryPackets E (wrap32 (nFrom + nCount)) nTo 0 nLast w) (\<lambda>(r, n, nLast1, w1).
         if r = 0 then Some (Inr (wrap32 (nCount + n), nLast1, w1))
         else force_loop E nFrom nTo (wrap32 (nCount + n)) nLast1 w1)
     else Some (Inr (nCount, nLast, w)))"

definition ForceRecoveryPackets ::
  "'s recovery_env \<Rightarrow> int \<Rightarrow> int \<Rightarrow> int \<Rightarrow> int \<Rightarrow> 's recovery_world \<Rightarrow>
   (int \<times> int \<times> int \<times> 's recovery_world) run" where
  "ForceRecoveryPackets E nFrom nTo nCount nLast w =
    (if nTo < nFrom then Some (Inr (- 1, nCount, nLast, w))
     else bindO (force_loop E nFrom nTo nCount nLast w) (\<lambda>(n, nLast1, w1).
            Some (Inr (0, n, nLast1, w1))))"

text \<open>One request, repeated until it succeeds: the body of the loop and the code after it.\<close>

definition request_range ::
  "'s recovery_env \<Rightarrow> int \<Rightarrow> int \<Rightarrow> 's recovery_world \<Rightarrow> (int \<times> 's recovery_world) run" where
  "request_range E nFrom nTo w =
    bindO (RecoveryPackets E nFrom nTo 0 0 w) (\<lambda>(r, n, nLast, w1).
      if r = - 1 then
        bindO (ForceRecoveryPackets E nFrom nTo n nLast w1) (\<lambda>(_, _, nLast1, w2). Some (Inr (nLast1, w2)))
      else Some (Inr (nLast, w1)))"

fun split_loop ::
  "'s recovery_env \<Rightarrow> nat \<Rightarrow> int \<Rightarrow> int \<Rightarrow> int \<Rightarrow> 's recovery_world \<Rightarrow> 's recovery_world run" where
  "split_loop E 0 nTo lnFrom lnTo w =
     bindO (request_range E lnFrom nTo w) (\<lambda>(_, w1). Some (Inr w1))"
| "split_loop E (Suc n) nTo lnFrom lnTo w =
     (let lnTo1 = wrap32 (lnTo + m_nMaxPacketCount (rwMgr w))
      in bindO (request_range E lnFrom lnTo1 w) (\<lambda>(nLast, w1).
           if nTo = nLast then Some (Inr w1)
           else split_loop E n nTo (wrap32 (lnTo1 + 1)) lnTo1 w1))"

definition SplitRecoveryDataRequest ::
  "'s recovery_env \<Rightarrow> int \<Rightarrow> int \<Rightarrow> 's recovery_world \<Rightarrow> 's recovery_world run" where
  "SplitRecoveryDataRequest E nFrom nTo w =
    (if nTo < nFrom then Some (Inr w)
     else bindO (Some (cdiv 32 (wrap32 (nTo - nFrom)) (m_nMaxPacketCount (rwMgr w)))) (\<lambda>full.
            split_loop E (nat full) nTo nFrom nFrom w))"

section \<open>A stream cut into chunks\<close>

lemma prefix_of_packets:
  assumes "bs @ ahead = packets_bytes zs @ part"
  shows "\<exists>ys zs1 rest. zs = ys @ zs1 \<and> bs = packets_bytes ys @ rest \<and> rest @ ahead = packets_bytes zs1 @ part \<and>
    (zs1 \<noteq> [] \<longrightarrow> length rest < length (packet_bytes (hd zs1)))"
  using assms
proof (induction zs arbitrary: bs)
  case (Cons z zs)
  show ?case
  proof (cases "length bs < length (packet_bytes z)")
    case True
    with Cons.prems show ?thesis
      by (intro exI [of _ "[]"] exI [of _ "z # zs"] exI [of _ bs]) simp
  next
    case False
    moreover have "bs @ ahead = packet_bytes z @ packets_bytes zs @ part" using Cons.prems by simp
    ultimately have "take (length (packet_bytes z)) bs = packet_bytes z"
        "drop (length (packet_bytes z)) bs @ ahead = packets_bytes zs @ part"
      by (auto simp: append_eq_append_conv_if split: if_splits)
    then obtain bs1 where b: "bs = packet_bytes z @ bs1" "bs1 @ ahead = packets_bytes zs @ part"
      by (metis append_take_drop_id)
    obtain ys zs1 rest where "zs = ys @ zs1" "bs1 = packets_bytes ys @ rest" "rest @ ahead = packets_bytes zs1 @ part"
      "zs1 \<noteq> [] \<longrightarrow> length rest < length (packet_bytes (hd zs1))"
      using Cons.IH [OF b(2)] by blast
    with b(1) show ?thesis
      by (intro exI [of _ "z # ys"] exI [of _ zs1] exI [of _ rest]) simp
  qed
qed simp

lemma incomplete_prefix:
  assumes x: "packet_ok x" "\<not> is_response x" and "rest @ ahead = packet_bytes x @ tail"
    and "length rest < length (packet_bytes x)"
  shows "incomplete rest"
proof (cases "length rest < sizeof_MSG_HEADER")
  case False
  then have "MSG_HEADER_of rest = MSG_HEADER_of (packet_bytes x @ tail)"
    using mh.dec_local [of rest ahead] assms(3) by simp
  then show ?thesis
    using packet_view(1) [OF x(1)] packet_case_ok [OF x] assms(4) by (auto simp: incomplete_def)
qed (simp add: incomplete_def)

lemma last_seq_append [simp]: "last_seq (xs @ ys) q = last_seq ys (last_seq xs q)"
  by (induction xs arbitrary: q) simp_all

lemma recount_append [simp]: "recount (xs @ ys) c = recount ys (recount xs c)"
  by (induction xs arbitrary: c) simp_all

lemma delivered_append: "delivered xs ms \<Longrightarrow> delivered ys ns \<Longrightarrow> delivered (xs @ ys) (ms @ ns)"
  by (simp add: delivered_def list_all2_appendI)

text \<open>The beginning of bytes that the parser recognises as incomplete is incomplete.\<close>

lemma incomplete_initial:
  assumes "incomplete (rest @ ahead)"
  shows "incomplete rest"
proof (cases "length rest < sizeof_MSG_HEADER")
  case False
  then have "MSG_HEADER_of (rest @ ahead) = MSG_HEADER_of rest" by (simp add: mh.dec_local)
  with assms False show ?thesis by (auto simp: incomplete_def)
qed (simp add: incomplete_def)

text \<open>The lengths after each of the chunks, from \<open>n\<close> on.\<close>

fun boundaries :: "nat \<Rightarrow> byte list list \<Rightarrow> nat list" where
  "boundaries n [] = [n]"
| "boundaries n (c # cs) = n # boundaries (n + length c) cs"

lemma boundaries_first: "n \<in> set (boundaries n cs)"
  by (cases cs) simp_all

text \<open>
  What has been received of a stream, the bytes \<open>rest\<close> left from before and the chunks \<open>cs\<close>: the
  packets \<open>zs\<close>, and possibly a part of one more that the server has not finished. A response may only
  come first, and no chunk may end after its nine bytes: the parser does not wait for the tenth.
\<close>

definition stream_ok :: "packet list \<Rightarrow> byte list \<Rightarrow> byte list list \<Rightarrow> bool" where
  "stream_ok zs rest cs \<longleftrightarrow>
    (\<forall>x \<in> set zs. packet_ok x) \<and> (\<forall>x \<in> set (tl zs). \<not> is_response x) \<and> [] \<notin> set cs \<and>
    (\<exists>part. incomplete part \<and> rest @ concat cs = packets_bytes zs @ part) \<and>
    (zs \<noteq> [] \<longrightarrow> length rest < length (packet_bytes (hd zs))) \<and>
    (zs \<noteq> [] \<and> is_response (hd zs) \<longrightarrow> sizeof_MSG_HEADER \<notin> set (boundaries (length rest) cs))"

lemma incomplete_nothing [simp]: "incomplete []"
  by (simp add: incomplete_def struct_sizes)

text \<open>A stream that ends with its last packet.\<close>

lemma stream_okI:
  assumes "\<forall>x \<in> set zs. packet_ok x" and "\<forall>x \<in> set (tl zs). \<not> is_response x" and "[] \<notin> set cs"
    and "concat cs = packets_bytes zs" and "zs \<noteq> []" and "sizeof_MSG_HEADER \<notin> set (boundaries 0 cs)"
  shows "stream_ok zs [] cs"
proof -
  have "sizeof_MSG_HEADER \<le> length (packet_bytes (hd zs))"
    using packet_length [of "hd zs"] assms(1,5) by simp
  then have "packet_bytes (hd zs) \<noteq> []" by (auto simp: struct_sizes)
  with assms show ?thesis by (auto simp: stream_ok_def intro!: exI [of _ "[]"])
qed

lemma stream_ok_Cons:
  assumes "stream_ok zs rest (c # cs)"
  obtains ys zs1 rest1 where "zs = ys @ zs1" and "rest @ c = packets_bytes ys @ rest1"
    and "incomplete rest1" and "stream_ok zs1 rest1 cs"
proof -
  from assms obtain part where part: "incomplete part" "(rest @ c) @ concat cs = packets_bytes zs @ part"
    by (auto simp: stream_ok_def)
  from prefix_of_packets [OF part(2)] obtain ys zs1 rest1 where z: "zs = ys @ zs1" "rest @ c = packets_bytes ys @ rest1"
      "rest1 @ concat cs = packets_bytes zs1 @ part" "zs1 \<noteq> [] \<longrightarrow> length rest1 < length (packet_bytes (hd zs1))"
    by blast
  have r: "sizeof_MSG_HEADER \<notin> set (boundaries (length rest1) cs) \<and> length rest1 < sizeof_MSG_HEADER"
    if "zs1 \<noteq> []" "is_response (hd zs1)"
  proof -
    have "hd zs1 \<in> set zs1" using that(1) by simp
    then have "ys = []" using assms z(1) that by (cases ys) (auto simp: stream_ok_def)
    then have "rest1 = rest @ c" "zs1 = zs" using z by simp_all
    then have b: "sizeof_MSG_HEADER \<notin> set (boundaries (length rest1) cs)"
      using assms that by (simp add: stream_ok_def)
    moreover have "packet_ok (hd zs1)" using assms z(1) \<open>hd zs1 \<in> set zs1\<close> by (auto simp: stream_ok_def)
    with that(2) have "length (packet_bytes (hd zs1)) = sizeof_RECOVERY_RESP"
      by (cases "hd zs1") (simp_all add: struct_lengths)
    moreover have "length rest1 \<noteq> sizeof_MSG_HEADER"
      using b boundaries_first [of "length rest1" cs] by metis
    ultimately show ?thesis using z(4) that(1) by (simp add: struct_sizes)
  qed
  have "incomplete rest1"
  proof (cases zs1)
    case Nil
    then have "rest1 @ concat cs = part" using z(3) by simp
    then show ?thesis using incomplete_initial part(1) by blast
  next
    case (Cons x xs)
    show ?thesis
    proof (cases "is_response x")
      case True
      then show ?thesis using r Cons by (simp add: incomplete_def)
    next
      case False
      with assms z Cons show ?thesis
        by (intro incomplete_prefix [of x rest1 "concat cs" "packets_bytes xs @ part"]) (auto simp: stream_ok_def)
    qed
  qed
  moreover have "stream_ok zs1 rest1 cs"
    using assms z part(1) r by (cases ys; cases zs1) (auto simp: stream_ok_def)
  ultimately show thesis using that z(1,2) by blast
qed

text \<open>What a session leaves untouched but for the tick, the open descriptors and the handler's state.\<close>

definition same_manager :: "'s recovery_world \<Rightarrow> 's recovery_world \<Rightarrow> bool" where
  "same_manager w w1 \<longleftrightarrow> rwMgr w1 = rwMgr w \<and> rwSession w1 = rwSession w \<and> rwSent w1 = rwSent w \<and>
     rwSlept w1 = rwSlept w"

lemma GetPacket_delivers:
  assumes "\<forall>x \<in> set ys. packet_ok x" and "incomplete rest"
    and "buf = packets_bytes ys @ rest @ junk" and "nTotal = length (packets_bytes ys) + length rest"
  shows "\<exists>ms q. delivered ys ms \<and>
    GetPacketFromMessage clock handle u k buf nTotal 0 nLast nCount s =
      bindO (Some (foldR handle ms s)) (\<lambda>s1. Some (Inr (0, q\<lparr>gpApp := s1\<rparr>))) \<and>
    take (length rest) (gpBuffer q) = rest \<and> gpPending q = length rest \<and>
    gpLastSeqNo q = last_seq ys nLast \<and> gpCount q = recount ys nCount"
proof -
  let ?p = "\<lparr>gpBuffer = buf, gpAvailable = 0, gpMsg = u, gpTv0 = clock k, gpTick = k + 1,
       gpPending = 0, gpLastSeqNo = nLast, gpCount = nCount, gpApp = s\<rparr>"
  show ?thesis
    using packet_loop_delivers [OF assms(1,2), of ?p junk nTotal clock handle] assms(3,4)
    by (cases "rest = []") (simp_all add: GetPacketFromMessage_def, blast+)
qed

lemma receive_loop_stream:
  assumes "stream_ok zs rest cs" and "take nPending buf = rest" and "nPending = length rest"
  shows "\<exists>ms w1. delivered zs ms \<and> same_manager w w1 \<and>
    rwOpen w1 = rwOpen w - {m_nRecoverySock (rwMgr w)} \<and>
    receive_loop E (map Some cs) buf nPending nLast nCount w =
      bindO (Some (foldR (reHandle E) ms (rwApp w))) (\<lambda>s.
        Some (Inr (True, last_seq zs nLast, recount zs nCount, w1\<lparr>rwApp := s\<rparr>)))"
  using assms
proof (induction cs arbitrary: zs rest nPending buf nLast nCount w)
  case Nil
  then have "zs = []" by (cases zs) (auto simp: stream_ok_def)
  then show ?case
    by (intro exI [of _ "[]"] exI [of _ "close_socket w"])
      (simp add: delivered_def close_socket_def same_manager_def)
next
  case (Cons c cs)
  obtain ys zs1 rest1 where z: "zs = ys @ zs1" "rest @ c = packets_bytes ys @ rest1"
      "incomplete rest1" "stream_ok zs1 rest1 cs"
    using stream_ok_Cons [OF Cons.prems(1)] by blast
  have ys: "\<forall>x \<in> set ys. packet_ok x" and c: "c \<noteq> []"
    using Cons.prems(1) z(1) by (auto simp: stream_ok_def)
  let ?buf = "take nPending buf @ c @ drop (nPending + length c) buf"
  have buf: "?buf = packets_bytes ys @ rest1 @ drop (nPending + length c) buf"
    using arg_cong [OF z(2), of "\<lambda>l. l @ drop (nPending + length c) buf"] Cons.prems(2) by simp
  have len: "length c + nPending = length (packets_bytes ys) + length rest1"
    using arg_cong [OF z(2), of length] Cons.prems(3) by simp
  obtain ms q where ms: "delivered ys ms" and get:
      "GetPacketFromMessage (reClock E) (reHandle E) (reLocal E (rwTick w)) (rwTick w) ?buf
        (length c + nPending) 0 nLast nCount (rwApp w) =
       bindO (Some (foldR (reHandle E) ms (rwApp w))) (\<lambda>s. Some (Inr (0, q\<lparr>gpApp := s\<rparr>)))"
      "take (length rest1) (gpBuffer q) = rest1" "gpPending q = length rest1"
      "gpLastSeqNo q = last_seq ys nLast" "gpCount q = recount ys nCount"
    using GetPacket_delivers [OF ys z(3) buf len, of "reClock E" "reHandle E"
        "reLocal E (rwTick w)" "rwTick w" nLast nCount "rwApp w"] by blast
  define w0 where "w0 s = w\<lparr>rwTick := gpTick q, rwApp := s\<rparr>" for s
  obtain s where s: "\<And>s1. foldR (reHandle E) ms (rwApp w) = Inr s1 \<Longrightarrow> s1 = s"
    by (cases "foldR (reHandle E) ms (rwApp w)") auto
  obtain ns w1 where ns: "delivered zs1 ns" "same_manager (w0 s) w1"
      "rwOpen w1 = rwOpen (w0 s) - {m_nRecoverySock (rwMgr (w0 s))}"
      "receive_loop E (map Some cs) (gpBuffer q) (length rest1) (last_seq ys nLast) (recount ys nCount) (w0 s) =
        bindO (Some (foldR (reHandle E) ns (rwApp (w0 s)))) (\<lambda>s.
          Some (Inr (True, last_seq zs1 (last_seq ys nLast), recount zs1 (recount ys nCount), w1\<lparr>rwApp := s\<rparr>)))"
    using Cons.IH [OF z(4) get(2), of "w0 s" "last_seq ys nLast" "recount ys nCount"] by blast
  have "receive_loop E (map Some (c # cs)) buf nPending nLast nCount w =
      bindO (Some (foldR (reHandle E) (ms @ ns) (rwApp w))) (\<lambda>s.
        Some (Inr (True, last_seq zs nLast, recount zs nCount, w1\<lparr>rwApp := s\<rparr>)))"
    using s ns(4) c
    by (cases "foldR (reHandle E) ms (rwApp w)") (simp_all add: get foldR_append z(1) w0_def)
  with delivered_append [OF ms ns(1)] ns(2,3) z(1) show ?case
    by (intro exI [of _ "ms @ ns"] exI [of _ w1]) (simp add: same_manager_def w0_def)
qed

text \<open>A session that the operating system and the server carry through.\<close>

definition connects :: "session \<Rightarrow> bool" where
  "connects ss \<longleftrightarrow> 0 \<le> ssSocket ss \<and> ssConnect ss \<noteq> - 1 \<and> 0 < ssSend ss"

abbreviation request_of :: "int \<Rightarrow> int \<Rightarrow> 's recovery_world \<Rightarrow> RECOVERY_REQ" where
  "request_of nFrom nTo w \<equiv> (m_stRecoverySeq (rwMgr w))\<lparr>nBegSeqNo := nFrom, nEndSeqNo := nTo\<rparr>"

lemma wait_delay_simps [simp]:
  "rwMgr (wait_delay E w) = rwMgr w" "rwSession (wait_delay E w) = rwSession w"
  "rwSent (wait_delay E w) = rwSent w" "rwOpen (wait_delay E w) = rwOpen w"
  "rwApp (wait_delay E w) = rwApp w"
  by (simp_all add: wait_delay_def Let_def)

lemma RecoveryPackets_stream:
  assumes ss: "reSession E (rwSession w) (request_of nFrom nTo w) = ss" and "connects ss"
    and cs: "answer (ssRecv ss) = cs" "stream_ok zs [] cs"
  shows "\<exists>ms w1. delivered zs ms \<and> rwSent w1 = rwSent w @ [request_of nFrom nTo w] \<and>
    rwOpen w1 = rwOpen w - {ssSocket ss} \<and> rwSession w1 = rwSession w + 1 \<and>
    m_nMaxPacketCount (rwMgr w1) = m_nMaxPacketCount (rwMgr w) \<and>
    m_stRecoverySeq (rwMgr w1) = request_of nFrom nTo w \<and>
    RecoveryPackets E nFrom nTo nCount nLast w =
      bindO (Some (foldR (reHandle E) ms (rwApp w))) (\<lambda>s.
        Some (Inr (if nTo = last_seq zs nLast then 0 else - 1, recount zs nCount, last_seq zs nLast,
                   w1\<lparr>rwApp := s\<rparr>)))"
proof -
  let ?w1 = "set_request nFrom nTo (wait_delay E w)"
  let ?w2 = "snd (CreateSocket ss (?w1\<lparr>rwSession := rwSession ?w1 + 1\<rparr>))"
  let ?w3 = "?w2\<lparr>rwSent := rwSent ?w2 @ [request_of nFrom nTo w], rwTick := rwTick ?w2 + 1,
     rwMgr := (rwMgr ?w2)\<lparr>m_nLastRecoveryTime := micros (reClock E (rwTick ?w2))\<rparr>\<rparr>"
  have sock: "m_nRecoverySock (rwMgr ?w3) = ssSocket ss" "rwOpen ?w3 = insert (ssSocket ss) (rwOpen w)"
    using assms(2) by (simp_all add: connects_def CreateSocket_def set_request_def)
  obtain ms w1 where r: "delivered zs ms" "same_manager ?w3 w1"
      "rwOpen w1 = rwOpen ?w3 - {m_nRecoverySock (rwMgr ?w3)}"
      "receive_loop E (map Some cs) (replicate 8192 0) 0 nLast nCount ?w3 =
        bindO (Some (foldR (reHandle E) ms (rwApp ?w3))) (\<lambda>s.
          Some (Inr (True, last_seq zs nLast, recount zs nCount, w1\<lparr>rwApp := s\<rparr>)))"
    using receive_loop_stream [OF cs(2), of 0 "replicate 8192 0" ?w3 E nLast nCount] by auto
  have "RecoveryPackets E nFrom nTo nCount nLast w =
      bindO (Some (foldR (reHandle E) ms (rwApp w))) (\<lambda>s.
        Some (Inr (if nTo = last_seq zs nLast then 0 else - 1, recount zs nCount, last_seq zs nLast,
                   w1\<lparr>rwApp := s\<rparr>)))"
  proof -
    have "RecoveryPackets E nFrom nTo nCount nLast w =
        bindO (receive_loop E (map Some cs) (replicate 8192 0) 0 nLast nCount ?w3) (\<lambda>(fine, nLast1, nCount1, w4).
          Some (Inr (if fine \<and> nTo = nLast1 then 0 else - 1, nCount1, nLast1, w4)))"
      unfolding cs(1) [symmetric] receive_loop_answer [of E "ssRecv ss", symmetric]
      using assms(2) ss
      by (simp add: RecoveryPackets_def Let_def CreateSocket_def ConnectServer_def connects_def set_request_def
        del: replicate.simps)
    also have "rwApp ?w3 = rwApp w"
      using assms(2) by (simp add: CreateSocket_def set_request_def connects_def)
    ultimately show ?thesis
      unfolding r(4) by (cases "foldR (reHandle E) ms (rwApp w)") simp_all
  qed
  then show ?thesis
    using r(1-3) sock assms(2) 
    by (intro exI [of _ ms] exI [of _ w1])
      (simp add: same_manager_def CreateSocket_def set_request_def connects_def)
qed

section \<open>The requests of a gap\<close>

text \<open>The ranges that the loop of \<open>SplitRecoveryDataRequest\<close> asks for when every request is served.\<close>

fun recovery_chunks :: "nat \<Rightarrow> int \<Rightarrow> int \<Rightarrow> int \<Rightarrow> int \<Rightarrow> (int \<times> int) list" where
  "recovery_chunks 0 a b nTo mx = [(a, nTo)]"
| "recovery_chunks (Suc n) a b nTo mx =
     (a, b + mx) # (if b + mx = nTo then [] else recovery_chunks n (b + mx + 1) (b + mx) nTo mx)"

lemma recovery_chunks_tile:
  assumes "0 < mx" and "int n * mx \<le> nTo - b" and "a \<le> b + 1"
  shows "concat (map (\<lambda>(a, b). [a..b]) (recovery_chunks n a b nTo mx)) = [a..nTo]"
  using assms(2,3)
proof (induction n arbitrary: a b)
  case (Suc n)
  from Suc.prems(1) have n: "int n * mx \<le> nTo - (b + mx)" by (simp add: algebra_simps)
  moreover have "0 \<le> int n * mx" using assms(1) by simp
  ultimately have le: "b + mx \<le> nTo" by linarith
  show ?case
  proof (cases "b + mx = nTo")
    case False
    with le n assms(1) Suc.prems(2) show ?thesis
      using Suc.IH [OF n] upto_split1 [of a "b + mx + 1" nTo] by simp
  qed simp
qed simp

lemma recovery_chunks_sizes:
  assumes "0 < mx" and "int n * mx \<le> nTo - b" and "nTo - b < int (Suc n) * mx"
    and "a \<le> b + 1" and "b \<le> a" and "a \<le> nTo" and "(x, y) \<in> set (recovery_chunks n a b nTo mx)"
  shows "x \<le> y \<and> y - x + 1 \<le> mx + 1"
  using assms(2-7)
proof (induction n arbitrary: a b)
  case (Suc n)
  have n: "int n * mx \<le> nTo - (b + mx)" "nTo - (b + mx) < int (Suc n) * mx"
    using Suc.prems(1,2) by (simp_all add: algebra_simps)
  moreover have "0 \<le> int n * mx" using assms(1) by simp
  ultimately have le: "b + mx \<le> nTo" by linarith
  show ?case
  proof (cases "(x, y) = (a, b + mx)")
    case False
    with Suc.prems(6) have "b + mx \<noteq> nTo" "(x, y) \<in> set (recovery_chunks n (b + mx + 1) (b + mx) nTo mx)"
      by (auto split: if_splits)
    with Suc.IH [OF n, of "b + mx + 1"] le show ?thesis by simp
  qed (use Suc.prems assms(1) in simp)
qed (use assms(1) in simp)

definition prompt_session :: "session \<Rightarrow> int \<Rightarrow> bool" where
  "prompt_session ss nTo \<longleftrightarrow> connects ss \<and>
    (\<exists>zs cs. answer (ssRecv ss) = cs \<and> stream_ok zs [] cs \<and> last_seq zs 0 = nTo)"

definition prompt :: "'s recovery_env \<Rightarrow> bool" where
  "prompt E \<longleftrightarrow> (\<forall>k r. in_range 32 (nEndSeqNo r) \<longrightarrow> prompt_session (reSession E k r) (nEndSeqNo r))"

definition requested :: "'s recovery_world \<Rightarrow> 's recovery_world \<Rightarrow> (int \<times> int) list \<Rightarrow> bool" where
  "requested w w1 rs \<longleftrightarrow>
     rwSent w1 = rwSent w @ map (\<lambda>(a, b). request_of a b w) rs \<and> rwOpen w1 \<subseteq> rwOpen w \<and>
     m_nMaxPacketCount (rwMgr w1) = m_nMaxPacketCount (rwMgr w) \<and>
     (\<forall>a b. request_of a b w1 = request_of a b w)"

lemma requested_trans: "requested w w1 rs \<Longrightarrow> requested w1 w2 rs1 \<Longrightarrow> requested w w2 (rs @ rs1)"
  by (auto simp: requested_def)

definition returns :: "'a run \<Rightarrow> ('a \<Rightarrow> bool) \<Rightarrow> bool" where
  "returns r Q \<longleftrightarrow> (\<exists>x. r = Some x \<and> wpost UNIV x Q)"

lemma returns_simps [simp]:
  "\<not> returns None Q" "returns (Some (Inl e)) Q" "returns (Some (Inr x)) Q = Q x"
  by (simp_all add: returns_def)

lemma returns_bindO:
  "returns r Q \<Longrightarrow> (\<And>x. Q x \<Longrightarrow> returns (f x) R) \<Longrightarrow> returns (bindO r f) R"
  by (cases r rule: run_cases) simp_all

lemma returns_mono: "returns r Q \<Longrightarrow> (\<And>x. Q x \<Longrightarrow> R x) \<Longrightarrow> returns r R"
  by (auto simp: returns_def wpost_def split: sum.splits)

lemma request_range_prompt:
  assumes "prompt E" and "in_range 32 nTo"
  shows "returns (request_range E nFrom nTo w) (\<lambda>(nLast, w1). nLast = nTo \<and> requested w w1 [(nFrom, nTo)])"
proof -
  let ?ss = "reSession E (rwSession w) (request_of nFrom nTo w)"
  have "prompt_session ?ss nTo"
    using assms by (auto simp: prompt_def dest!: spec [of _ "rwSession w"] spec [of _ "request_of nFrom nTo w"])
  then obtain zs cs where s: "connects ?ss" "answer (ssRecv ?ss) = cs" "stream_ok zs [] cs" "last_seq zs 0 = nTo"
    by (auto simp: prompt_session_def)
  obtain ms w1 where r: "delivered zs ms" "rwSent w1 = rwSent w @ [request_of nFrom nTo w]"
      "rwOpen w1 = rwOpen w - {ssSocket ?ss}" "rwSession w1 = rwSession w + 1"
      "m_nMaxPacketCount (rwMgr w1) = m_nMaxPacketCount (rwMgr w)"
      "m_stRecoverySeq (rwMgr w1) = request_of nFrom nTo w"
      "RecoveryPackets E nFrom nTo 0 0 w = bindO (Some (foldR (reHandle E) ms (rwApp w))) (\<lambda>s.
        Some (Inr (if nTo = last_seq zs 0 then 0 else - 1, recount zs 0, last_seq zs 0, w1\<lparr>rwApp := s\<rparr>)))"
    using RecoveryPackets_stream [OF refl s(1-3), of 0 0] by blast
  then show ?thesis
    by (cases "foldR (reHandle E) ms (rwApp w)") (auto simp: request_range_def s(4) requested_def)
qed

text \<open>
  What every range of a gap is recovered with, \<open>Q\<close>, the gap is recovered with: the contract
  between one request and the loop that splits a gap into requests.
\<close>

definition request_spec ::
  "int \<Rightarrow> ((int \<times> int) list \<Rightarrow> 's recovery_world \<Rightarrow> 's recovery_world \<Rightarrow> bool) \<Rightarrow> 's recovery_env \<Rightarrow> bool" where
  "request_spec lo Q E \<longleftrightarrow>
     (\<forall>a b w. lo \<le> a \<longrightarrow> a \<le> b \<longrightarrow> in_range 32 b \<longrightarrow>
        returns (request_range E a b w) (\<lambda>(l, w1). l = b \<and> Q [(a, b)] w w1)) \<and>
     (\<forall>rs w w1. Q rs w w1 \<longrightarrow> m_nMaxPacketCount (rwMgr w1) = m_nMaxPacketCount (rwMgr w)) \<and>
     (\<forall>rs rs1 w w1 w2. Q rs w w1 \<longrightarrow> Q rs1 w1 w2 \<longrightarrow> Q (rs @ rs1) w w2)"

lemma request_specD:
  assumes "request_spec lo Q E"
  shows "lo \<le> a \<Longrightarrow> a \<le> b \<Longrightarrow> in_range 32 b \<Longrightarrow>
      returns (request_range E a b w) (\<lambda>(l, w1). l = b \<and> Q [(a, b)] w w1)"
    and "Q rs w w1 \<Longrightarrow> m_nMaxPacketCount (rwMgr w1) = m_nMaxPacketCount (rwMgr w)"
    and "Q rs w w1 \<Longrightarrow> Q rs1 w1 w2 \<Longrightarrow> Q (rs @ rs1) w w2"
  using assms unfolding request_spec_def by blast+

lemma split_loop_spec:
  assumes "request_spec lo Q E" and "0 < mx" and "in_range 32 nTo"
    and "m_nMaxPacketCount (rwMgr w) = mx" and "int n * mx \<le> nTo - b" and "in_range 32 b"
    and "lo \<le> a" and "a \<le> nTo" and "a \<le> b + 1"
  shows "returns (split_loop E n nTo a b w) (Q (recovery_chunks n a b nTo mx) w)"
  using assms(4-9)
proof (induction n arbitrary: a b w)
  case 0
  then show ?case
    by (auto intro!: returns_bindO [OF request_specD(1) [OF assms(1)]] assms(3))
next
  case (Suc n)
  from Suc.prems(2) have n: "int n * mx \<le> nTo - (b + mx)" by (simp add: algebra_simps)
  moreover have "0 \<le> int n * mx" using assms(2) by simp
  ultimately have le: "b + mx \<le> nTo" by linarith
  with Suc.prems(3) assms(2,3) have r: "in_range 32 (b + mx)" by (simp add: in_range_def)
  then have w1: "wrap32 (b + m_nMaxPacketCount (rwMgr w)) = b + mx"
    by (simp add: Suc.prems(1) wrap_id)
  have w2: "wrap32 (b + mx + 1) = b + mx + 1" if "b + mx \<noteq> nTo"
    using that le Suc.prems(3) assms(2,3) by (intro wrap_id) (simp_all add: in_range_def)
  have rest: "returns (if nTo = b + mx then Some (Inr w1) else split_loop E n nTo (wrap32 (b + mx + 1)) (b + mx) w1)
      (Q (recovery_chunks (Suc n) a b nTo mx) w)"
    if req: "Q [(a, b + mx)] w w1" for w1
  proof (cases "nTo = b + mx")
    case False
    have "m_nMaxPacketCount (rwMgr w1) = mx"
      using request_specD(2) [OF assms(1) req] Suc.prems(1) by simp
    then have "returns (split_loop E n nTo (b + mx + 1) (b + mx) w1)
        (Q (recovery_chunks n (b + mx + 1) (b + mx) nTo mx) w1)"
      using False le Suc.prems(4,6) assms(2) by (intro Suc.IH [OF _ n r]) auto
    then have "returns (split_loop E n nTo (b + mx + 1) (b + mx) w1)
        (Q ([(a, b + mx)] @ recovery_chunks n (b + mx + 1) (b + mx) nTo mx) w)"
      by (rule returns_mono) (rule request_specD(3) [OF assms(1) req])
    with False w2 show ?thesis by simp
  qed (use req in simp)
  have "a \<le> b + mx" using Suc.prems(6) assms(2) by simp
  from request_specD(1) [OF assms(1) Suc.prems(4) this r, of w] show ?case
    unfolding split_loop.simps Let_def w1
    by (rule returns_bindO) (use rest in auto)
qed

lemma SplitRecovery_spec:
  assumes "request_spec lo Q E" and "m_nMaxPacketCount (rwMgr w) = mx" and "0 < mx"
    and "0 \<le> nFrom" and "lo \<le> nFrom" and "nFrom \<le> nTo" and "in_range 32 nTo"
  shows "returns (SplitRecoveryDataRequest E nFrom nTo w)
    (Q (recovery_chunks (nat ((nTo - nFrom) div mx)) nFrom nFrom nTo mx) w)"
proof -
  have "wrap32 (nTo - nFrom) = nTo - nFrom"
    using assms(4,6,7) by (intro wrap_id) (simp_all add: in_range_def)
  moreover have "cdiv 32 (nTo - nFrom) mx = Inr ((nTo - nFrom) div mx)"
    using assms(3,6) by (simp add: cdiv_pos cquot_nonneg)
  moreover have "int (nat ((nTo - nFrom) div mx)) * mx \<le> nTo - nFrom"
    using assms(3,6) by (simp add: pos_imp_zdiv_nonneg_iff minus_mod_eq_div_mult [symmetric])
  moreover have "in_range 32 nFrom" using assms(4,6,7) by (simp add: in_range_def)
  ultimately show ?thesis
    using split_loop_spec [OF assms(1,3,7,2)] assms(2,5,6) by (simp add: SplitRecoveryDataRequest_def)
qed

lemma chunks_of_gap:
  assumes "0 < mx" and "a \<le> b"
  shows "concat (map (\<lambda>(a, b). [a..b]) (recovery_chunks (nat ((b - a) div mx)) a a b mx)) = [a..b]"
proof -
  have "int (nat ((b - a) div mx)) * mx \<le> b - a"
    using assms by (simp add: pos_imp_zdiv_nonneg_iff minus_mod_eq_div_mult [symmetric])
  then show ?thesis using assms(1) by (intro recovery_chunks_tile) simp_all
qed

lemma prompt_spec: "prompt E \<Longrightarrow> request_spec lo (\<lambda>rs w w1. requested w w1 rs) E"
  by (auto simp: request_spec_def request_range_prompt intro: requested_trans)
    (simp add: requested_def)

lemmas SplitRecovery_prompt = SplitRecovery_spec [OF prompt_spec [where lo = 0]]

section \<open>Retrying\<close>

lemma RecoveryPackets_result:
  assumes "RecoveryPackets E nFrom nTo nCount nLast w = Some (Inr (r, n, l, w1))"
  shows "r = 0 \<or> r = - 1" and "r = 0 \<Longrightarrow> l = nTo"
  using assms
  by (auto simp: RecoveryPackets_def Let_def bindO_eq_Some split: prod.splits if_splits)

lemma force_loop_result:
  "force_loop E nFrom nTo nCount nLast w = Some y \<Longrightarrow> wpost UNIV y (\<lambda>(_, l, _). l = nTo)"
proof (rule force_loop.raw_induct [where P = "\<lambda>E nFrom nTo nCount nLast w y. wpost UNIV y (\<lambda>(_, l, _). l = nTo)"])
  fix loop :: "'s recovery_env \<Rightarrow> int \<Rightarrow> int \<Rightarrow> int \<Rightarrow> int \<Rightarrow> 's recovery_world \<Rightarrow> (int \<times> int \<times> 's recovery_world) run"
    and E nFrom nTo nCount nLast w y
  assume IH: "\<And>E nFrom nTo nCount nLast w y. loop E nFrom nTo nCount nLast w = Some y \<Longrightarrow>
      wpost UNIV y (\<lambda>(_, l, _). l = nTo)"
    and body: "(if nLast \<noteq> nTo then
       bindO (RecoveryPackets E (wrap32 (nFrom + nCount)) nTo 0 nLast w) (\<lambda>(r, n, nLast1, w1).
         if r = 0 then Some (Inr (wrap32 (nCount + n), nLast1, w1))
         else loop E nFrom nTo (wrap32 (nCount + n)) nLast1 w1)
     else Some (Inr (nCount, nLast, w))) = Some y"
  show "wpost UNIV y (\<lambda>(_, l, _). l = nTo)"
    using body by (auto simp: bindO_eq_Some dest: RecoveryPackets_result(2) IH split: if_splits)
qed

text \<open>A server that never lets a session get as far as the request.\<close>

definition refuses :: "'s recovery_env \<Rightarrow> bool" where
  "refuses E \<longleftrightarrow> (\<forall>k r. ssSocket (reSession E k r) \<le> - 1 \<or> ssConnect (reSession E k r) = - 1 \<or>
     ssSend (reSession E k r) \<le> 0)"

lemma RecoveryPackets_refused:
  "refuses E \<Longrightarrow> \<exists>w1. RecoveryPackets E nFrom nTo nCount nLast w = Some (Inr (- 1, nCount, nLast, w1))"
  by (auto simp: RecoveryPackets_def refuses_def CreateSocket_def ConnectServer_def Let_def split: prod.split)

text \<open>A server whose sessions leave the number of the last message where it was.\<close>

definition fruitless :: "'s recovery_env \<Rightarrow> bool" where
  "fruitless E \<longleftrightarrow> (\<forall>nFrom nTo nLast w. nLast \<noteq> nTo \<longrightarrow>
     (\<exists>w1. RecoveryPackets E nFrom nTo 0 nLast w = Some (Inr (- 1, 0, nLast, w1))))"

lemma force_loop_fruitless:
  fixes E :: "'s recovery_env"
  assumes "fruitless E" and "nLast \<noteq> nTo"
  shows "force_loop E nFrom nTo nCount nLast w = None"
proof -
  have "fruitless E \<longrightarrow> nLast = nTo" if "force_loop E nFrom nTo nCount nLast w = Some y" for E :: "'s recovery_env" and nCount nLast w y
  proof (rule force_loop.raw_induct [where P = "\<lambda>E nFrom nTo nCount nLast w y. fruitless E \<longrightarrow> nLast = nTo", OF _ that])
    fix loop :: "'s recovery_env \<Rightarrow> int \<Rightarrow> int \<Rightarrow> int \<Rightarrow> int \<Rightarrow> 's recovery_world \<Rightarrow> (int \<times> int \<times> 's recovery_world) run"
      and E nFrom nTo nCount nLast w y
    assume IH: "\<And>E nFrom nTo nCount nLast w y. loop E nFrom nTo nCount nLast w = Some y \<Longrightarrow>
        fruitless E \<longrightarrow> nLast = nTo"
      and body: "(if nLast \<noteq> nTo then
         bindO (RecoveryPackets E (wrap32 (nFrom + nCount)) nTo 0 nLast w) (\<lambda>(r, n, nLast1, w1).
           if r = 0 then Some (Inr (wrap32 (nCount + n), nLast1, w1))
           else loop E nFrom nTo (wrap32 (nCount + n)) nLast1 w1)
       else Some (Inr (nCount, nLast, w))) = Some y"
    show "fruitless E \<longrightarrow> nLast = nTo"
    proof (intro impI, rule ccontr)
      assume f: "fruitless E" and "nLast \<noteq> nTo"
      then obtain w1 where "RecoveryPackets E (wrap32 (nFrom + nCount)) nTo 0 nLast w = Some (Inr (- 1, 0, nLast, w1))"
        unfolding fruitless_def by blast
      with body IH f \<open>nLast \<noteq> nTo\<close> show False by auto
    qed
  qed
  with assms have "force_loop E nFrom nTo nCount nLast w \<noteq> Some y" for y by blast
  then show ?thesis by (cases "force_loop E nFrom nTo nCount nLast w") auto
qed

lemma ForceRecovery_fruitless:
  "fruitless E \<Longrightarrow> nFrom \<le> nTo \<Longrightarrow> nLast \<noteq> nTo \<Longrightarrow> ForceRecoveryPackets E nFrom nTo nCount nLast w = None"
  by (simp add: ForceRecoveryPackets_def force_loop_fruitless)

lemma refuses_fruitless: "refuses E \<Longrightarrow> fruitless E"
  unfolding fruitless_def by (metis RecoveryPackets_refused)

text \<open>A server that answers the requests it takes with an error status and no message.\<close>

definition rejects :: "'s recovery_env \<Rightarrow> bool" where
  "rejects E \<longleftrightarrow> (\<forall>k r. ssSocket (reSession E k r) \<le> - 1 \<or> ssConnect (reSession E k r) = - 1 \<or>
     ssSend (reSession E k r) \<le> 0 \<or>
     connects (reSession E k r) \<and> (\<exists>x. cReqStatus x = REQUEST_ERROR \<and>
       stream_ok [Response x] [] (answer (ssRecv (reSession E k r)))))"

lemma rejects_fruitless:
  fixes E :: "'a recovery_env"
  assumes "rejects E"
  shows "fruitless E"
  unfolding fruitless_def
proof (intro allI impI)
  fix nFrom nTo nLast :: int and w :: "'a recovery_world"
  assume n: "nLast \<noteq> nTo"
  let ?ss = "reSession E (rwSession w) (request_of nFrom nTo w)"
  show "\<exists>w1. RecoveryPackets E nFrom nTo 0 nLast w = Some (Inr (- 1, 0, nLast, w1))"
  proof (cases "ssSocket ?ss \<le> - 1 \<or> ssConnect ?ss = - 1 \<or> ssSend ?ss \<le> 0")
    case True
    then show ?thesis
      by (auto simp: RecoveryPackets_def CreateSocket_def ConnectServer_def set_request_def Let_def)
  next
    case False
    with assms obtain x where x: "connects ?ss" "stream_ok [Response x] [] (answer (ssRecv ?ss))"
      unfolding rejects_def by blast
    from RecoveryPackets_stream [OF HOL.refl x(1) HOL.refl x(2), of 0 nLast] n show ?thesis
      by (auto simp: delivered_def)
  qed
qed

section \<open>The delay between requests\<close>

lemma wait_delay_enough:
  assumes "d = micros (reClock E (rwTick w)) - m_nLastRecoveryTime (rwMgr w)" and "0 \<le> d"
    and "in_range 64 d" and "m_nConnectionDelay (rwMgr w) < 2 ^ 32"
  shows "\<exists>slept. rwSlept (wait_delay E w) = rwSlept w @ slept \<and> length slept \<le> 1 \<and>
    m_nConnectionDelay (rwMgr w) \<le> d + sum_list slept \<and> (\<forall>x \<in> set slept. 0 < x \<and> d + x = m_nConnectionDelay (rwMgr w))"
proof (cases "d < m_nConnectionDelay (rwMgr w)")
  case True
  let ?x = "m_nConnectionDelay (rwMgr w) - d"
  have "wrap64 d = d" using assms(3) by (simp add: wrap_id)
  moreover have "wrap64 ?x = ?x" using True assms(2,4) by (intro wrap64_small) simp_all
  moreover have "?x mod 2 ^ 32 = ?x" using True assms(2,4) by simp
  ultimately show ?thesis
    using True assms(1) by (intro exI [of _ "[?x]"]) (simp add: wait_delay_def Let_def)
next
  case False
  have "wrap64 d = d" using assms(3) by (simp add: wrap_id)
  with False assms(1) show ?thesis
    by (intro exI [of _ "[]"]) (simp add: wait_delay_def Let_def)
qed

lemma receive_loop_manager:
  fixes w w1 :: "'s recovery_world"
  shows "receive_loop E rs buf nPending nLast nCount w = Some (Inr (fine, l, n, w1)) \<Longrightarrow> same_manager w w1"
proof (induction rs arbitrary: buf nPending nLast nCount w)
  case (Cons r rs)
  show ?case
  proof (cases "r = None \<or> r = Some []")
    case False
    then obtain bs where "r = Some bs" "bs \<noteq> []" by auto
    with Cons.prems obtain code :: int and p :: "'s packet_scan" where p:
        "(let w2 = w\<lparr>rwTick := gpTick p, rwApp := gpApp p\<rparr>
          in if code = - 1 then Some (Inr (False, gpLastSeqNo p, gpCount p, close_socket w2))
             else receive_loop E rs (gpBuffer p) (gpPending p) (gpLastSeqNo p) (gpCount p) w2) =
         Some (Inr (fine, l, n, w1))"
      by (auto simp: bindO_eq_Some)
    show ?thesis
    proof (cases "code = - 1")
      case True
      with p show ?thesis by (auto simp: close_socket_def same_manager_def)
    next
      case False
      with p Cons.IH [of "gpBuffer p" "gpPending p" "gpLastSeqNo p" "gpCount p" "w\<lparr>rwTick := gpTick p, rwApp := gpApp p\<rparr>"]
      show ?thesis by (simp add: same_manager_def)
    qed
  qed (use Cons.prems in \<open>auto simp: close_socket_def same_manager_def\<close>)
qed (auto simp: close_socket_def same_manager_def)

text \<open>The time of the last request is read from the clock right after it has been sent.\<close>

lemma RecoveryPackets_delay:
  assumes "RecoveryPackets E nFrom nTo nCount nLast w = Some (Inr (r, n, l, w1))"
  shows "rwSlept w1 = rwSlept (wait_delay E w) \<and> m_nConnectionDelay (rwMgr w1) = m_nConnectionDelay (rwMgr w) \<and>
    m_nLastRecoveryTime (rwMgr w1) =
      (if rwSent w1 = rwSent w then m_nLastRecoveryTime (rwMgr w) else micros (reClock E (Suc (rwTick w))))"
proof -
  have tick: "rwTick (wait_delay E w) = Suc (rwTick w)" by (simp add: wait_delay_def Let_def)
  let ?w1 = "set_request nFrom nTo (wait_delay E w)"
  let ?ss = "reSession E (rwSession w) (request_of nFrom nTo w)"
  show ?thesis
  proof (cases "connects ?ss")
    case False
    then show ?thesis
      using assms by (auto simp: RecoveryPackets_def connects_def CreateSocket_def ConnectServer_def Let_def
        set_request_def close_socket_def split: if_splits)
  next
    case True
    define w3 where "w3 = (let w2 = snd (CreateSocket ?ss (?w1\<lparr>rwSession := rwSession ?w1 + 1\<rparr>))
      in w2\<lparr>rwSent := rwSent w2 @ [request_of nFrom nTo w], rwTick := rwTick w2 + 1,
        rwMgr := (rwMgr w2)\<lparr>m_nLastRecoveryTime := micros (reClock E (rwTick w2))\<rparr>\<rparr>)"
    from True assms obtain fine l1 n1 where "receive_loop E (ssRecv ?ss) (replicate 8192 0) 0 nLast nCount w3 =
        Some (Inr (fine, l1, n1, w1))"
      by (auto simp: RecoveryPackets_def connects_def CreateSocket_def ConnectServer_def Let_def set_request_def
        w3_def bindO_eq_Some simp del: replicate.simps)
    then have "same_manager w3 w1" by (rule receive_loop_manager)
    moreover have "rwSlept w3 = rwSlept (wait_delay E w)" "rwSent w3 = rwSent w @ [request_of nFrom nTo w]"
        "m_nConnectionDelay (rwMgr w3) = m_nConnectionDelay (rwMgr w)"
        "m_nLastRecoveryTime (rwMgr w3) = micros (reClock E (Suc (rwTick w)))"
      using True by (simp_all add: w3_def Let_def CreateSocket_def set_request_def connects_def tick)
    ultimately show ?thesis by (simp add: same_manager_def)
  qed
qed

text \<open>Calls that come to no request: the socket, the connection or the sending fails.\<close>

inductive unsent :: "'s recovery_env \<Rightarrow> 's recovery_world \<Rightarrow> 's recovery_world \<Rightarrow> bool" for E w where
  none: "unsent E w w"
| failed: "unsent E w w1 \<Longrightarrow> RecoveryPackets E nFrom nTo nCount nLast w1 = Some (Inr (r, n, l, w2)) \<Longrightarrow>
    rwSent w2 = rwSent w1 \<Longrightarrow> unsent E w w2"

lemma unsent_time:
  "unsent E w w1 \<Longrightarrow> m_nLastRecoveryTime (rwMgr w1) = m_nLastRecoveryTime (rwMgr w) \<and>
   m_nConnectionDelay (rwMgr w1) = m_nConnectionDelay (rwMgr w)"
  by (induction rule: unsent.induct) (auto dest: RecoveryPackets_delay)

section \<open>The handler's invariant across a session\<close>

lemma delivered_all:
  assumes "delivered zs ms" and "\<And>x m. x \<in> set zs \<Longrightarrow> is_handled x \<Longrightarrow> carries x m \<Longrightarrow> P m"
  shows "\<forall>m \<in> set ms. P m"
proof
  fix m assume "m \<in> set ms"
  then obtain i where i: "i < length ms" "m = ms ! i" by (auto simp: in_set_conv_nth)
  define x where "x = filter is_handled zs ! i"
  have "x \<in> set (filter is_handled zs)" "carries x m"
    using assms(1) i unfolding x_def delivered_def list_all2_conv_all_nth by (metis nth_mem, simp)
  then show "P m" by (auto intro: assms(2))
qed

definition stream_accepted :: "(CompositeBcastMsg \<Rightarrow> bool) \<Rightarrow> packet list \<Rightarrow> bool" where
  "stream_accepted P zs \<longleftrightarrow> (\<forall>x \<in> set zs. is_handled x \<longrightarrow> (\<forall>m. carries x m \<longrightarrow> P m))"

text \<open>A server that answers every request with a stream of acceptable messages up to the last number.\<close>

definition serves :: "(CompositeBcastMsg \<Rightarrow> bool) \<Rightarrow> 's recovery_env \<Rightarrow> bool" where
  "serves P Env \<longleftrightarrow> (\<forall>k r. in_range 32 (nEndSeqNo r) \<longrightarrow>
     (\<exists>zs cs. connects (reSession Env k r) \<and> answer (ssRecv (reSession Env k r)) = cs \<and>
       stream_ok zs [] cs \<and> last_seq zs 0 = nEndSeqNo r \<and> stream_accepted P zs))"

lemma servesD:
  "serves P Env \<Longrightarrow> in_range 32 (nEndSeqNo r) \<Longrightarrow>
   \<exists>zs cs. connects (reSession Env k r) \<and> answer (ssRecv (reSession Env k r)) = cs \<and>
     stream_ok zs [] cs \<and> last_seq zs 0 = nEndSeqNo r \<and> stream_accepted P zs"
  unfolding serves_def by blast

lemma serves_prompt: "serves P Env \<Longrightarrow> prompt Env"
  unfolding serves_def prompt_def prompt_session_def by blast

text \<open>A call that, if it returns, ends in a fault of \<open>E\<close> or in a state with \<open>Q\<close>.\<close>

definition keeps :: "fault set \<Rightarrow> 'a run \<Rightarrow> ('a \<Rightarrow> bool) \<Rightarrow> bool" where
  "keeps E r Q \<longleftrightarrow> (\<forall>x. r = Some x \<longrightarrow> wpost E x Q)"

lemma keeps_simps [simp]:
  "keeps E None Q" "keeps E (Some x) Q = wpost E x Q"
  by (simp_all add: keeps_def)

lemma keeps_bindO:
  "keeps E r Q \<Longrightarrow> (\<And>x. Q x \<Longrightarrow> keeps E (f x) R) \<Longrightarrow> keeps E (bindO r f) R"
  by (cases r rule: run_cases) simp_all

lemma keeps_returns: "keeps E r Q \<Longrightarrow> returns r R \<Longrightarrow> \<exists>x. r = Some x \<and> wpost E x (\<lambda>y. Q y \<and> R y)"
  by (cases r rule: run_cases) simp_all

context message_sink
begin

lemma session_keeps:
  assumes "reHandle Env = handle" and "reSession Env (rwSession w) (request_of nFrom nTo w) = ss"
    and "connects ss" and "answer (ssRecv ss) = cs" and "stream_ok zs [] cs"
    and "stream_accepted P zs" and "I (rwApp w)"
  shows "\<exists>r. RecoveryPackets Env nFrom nTo nCount nLast w = Some r \<and>
    wpost E r (\<lambda>(code, n, l, w1). I (rwApp w1) \<and> l = last_seq zs nLast \<and> n = recount zs nCount \<and>
      (code = 0 \<longleftrightarrow> nTo = last_seq zs nLast) \<and> rwSent w1 = rwSent w @ [request_of nFrom nTo w] \<and>
      rwOpen w1 = rwOpen w - {ssSocket ss})"
proof -
  obtain ms w1 where r: "delivered zs ms" "rwSent w1 = rwSent w @ [request_of nFrom nTo w]"
      "rwOpen w1 = rwOpen w - {ssSocket ss}"
      "RecoveryPackets Env nFrom nTo nCount nLast w = bindO (Some (foldR handle ms (rwApp w))) (\<lambda>s.
        Some (Inr (if nTo = last_seq zs nLast then 0 else - 1, recount zs nCount, last_seq zs nLast, w1\<lparr>rwApp := s\<rparr>)))"
    using RecoveryPackets_stream [OF assms(2-5), of nCount nLast] assms(1) by auto
  have "\<forall>m \<in> set ms. P m"
    using delivered_all [OF r(1)] assms(6) by (auto simp: stream_accepted_def)
  with assms(7) have "wpost E (foldR handle ms (rwApp w)) I" by (rule handle_all)
  then show ?thesis
    by (cases "foldR handle ms (rwApp w)") (simp_all add: r)
qed

lemma request_range_keeps:
  assumes "serves P Env" and "reHandle Env = handle" and "in_range 32 nTo" and "I (rwApp w)"
  shows "keeps E (request_range Env nFrom nTo w) (\<lambda>(_, w1). I (rwApp w1))"
proof -
  obtain zs cs where s: "connects (reSession Env (rwSession w) (request_of nFrom nTo w))"
      "answer (ssRecv (reSession Env (rwSession w) (request_of nFrom nTo w))) = cs"
      "stream_ok zs [] cs" "last_seq zs 0 = nTo" "stream_accepted P zs"
    using servesD [OF assms(1), of "request_of nFrom nTo w" "rwSession w"] assms(3) by auto
  from session_keeps [OF assms(2) refl s(1-3,5) assms(4), of 0 0]
  obtain r where "RecoveryPackets Env nFrom nTo 0 0 w = Some r"
      "wpost E r (\<lambda>(code, n, l, w1). I (rwApp w1) \<and> (code = 0 \<longleftrightarrow> nTo = last_seq zs 0))"
    by (elim exE conjE) (use that wpost_mono in fastforce)
  with s(4) show ?thesis
    by (cases r) (auto simp: request_range_def)
qed

lemma split_loop_keeps:
  assumes "serves P Env" and "reHandle Env = handle" and "in_range 32 nTo" and "I (rwApp w)"
  shows "keeps E (split_loop Env n nTo a b w) (\<lambda>w1. I (rwApp w1))"
  using assms(4)
proof (induction n arbitrary: a b w)
  case 0
  show ?case
    by (auto intro!: keeps_bindO [OF request_range_keeps [OF assms(1-3) 0]])
next
  case (Suc n)
  show ?case
    using Suc.IH
    by (auto simp: Let_def intro!: keeps_bindO [OF request_range_keeps [OF assms(1,2) wrap_in_range Suc.prems]])
qed

lemma SplitRecovery_keeps:
  assumes "serves P Env" and "reHandle Env = handle" and "in_range 32 nTo" and "I (rwApp w)" and "Sigfpe \<in> E"
  shows "keeps E (SplitRecoveryDataRequest Env nFrom nTo w) (\<lambda>w1. I (rwApp w1))"
  using split_loop_keeps [OF assms(1-4)] cdiv_wpost [of 32 "wrap32 (nTo - nFrom)" "m_nMaxPacketCount (rwMgr w)"] assms(4,5)
  by (cases "cdiv 32 (wrap32 (nTo - nFrom)) (m_nMaxPacketCount (rwMgr w))")
    (auto simp: SplitRecoveryDataRequest_def)

end

section \<open>A server for evaluation\<close>

text \<open>It answers every request with the response and one order message that has the last number
  asked for, cut inside both, begins another message and then breaks off with an error; the handler
  collects sequence numbers.\<close>

definition sample_response :: RECOVERY_RESP where
  "sample_response = \<lparr>RECOVERY_RESP.header = \<lparr>STREAM_HEADER.wMsgLen = 10, wStremID = 1, nSeqNo = 0\<rparr>,
     cMsgType = RECOVERY_RESPONSE, cReqStatus = REQUEST_SUCCESS\<rparr>"

definition sample_stream :: "int \<Rightarrow> packet list" where
  "sample_stream nTo = [Response sample_response, OrderPacket (order_msg nTo)]"

definition sample_chunks :: "int \<Rightarrow> byte list list" where
  "sample_chunks nTo = (let b = packets_bytes (sample_stream nTo) in [take 5 b, take 20 (drop 5 b), drop 25 b @ [38, 0, 1]])"

definition sample_session :: "int \<Rightarrow> session" where
  "sample_session nTo = \<lparr>ssSocket = 3, ssConnect = 0, ssSend = 11, ssRecv = map Some (sample_chunks nTo) @ [None]\<rparr>"

definition sample_env :: "int list recovery_env" where
  "sample_env = \<lparr>reClock = (\<lambda>_. \<lparr>tv_sec = 5000, tv_nsec = 0\<rparr>), reLocal = (\<lambda>_. packet_of []),
     reSession = (\<lambda>k r. sample_session (nEndSeqNo r)), reHandle = (\<lambda>m s. Inr (s @ [msgSeqNo m]))\<rparr>"

definition sample_world :: "int \<Rightarrow> 's \<Rightarrow> 's recovery_world" where
  "sample_world mx s = \<lparr>rwMgr = CRecoveryMgr_new 32 9000 ''10.0.0.1'' 1 mx 1000, rwTick = 0, rwSession = 0,
     rwOpen = {}, rwSent = [], rwSlept = [], rwApp = s\<rparr>"

lemma small_in_range: "in_range 32 x \<longleftrightarrow> small x"
  by (simp add: in_range_def small_def)

lemma sample_stream_ok: "small nTo \<Longrightarrow> stream_ok (sample_stream nTo) [] (sample_chunks nTo)"
proof -
  assume n: "small nTo"
  have r: "RECOVERY_RESP_ok sample_response"
    by (simp add: RECOVERY_RESP_ok_def sample_response_def STREAM_HEADER_ok_def in_range_def)
  have t: "RECOVERY_RESP.cMsgType sample_response = RECOVERY_RESPONSE" "cReqStatus sample_response = REQUEST_SUCCESS"
    "GENERIC_ORD_MSG.cMsgType (order_msg nTo) = NEW_ORDER"
    by (simp_all add: sample_response_def order_msg_def)
  have l: "length (RECOVERY_RESP_bytes sample_response) = 10" "length (GENERIC_ORD_MSG_bytes (order_msg nTo)) = 38"
    using rr.length_enc [OF r] gom.length_enc [OF order_msg_ok [OF n]] by (simp_all add: struct_sizes)
  show ?thesis
    using r t l order_msg_ok [OF n]
    by (auto simp: stream_ok_def sample_stream_def sample_chunks_def struct_sizes incomplete_def Let_def
      intro!: exI [of _ "[38, 0, 1]"])
qed

lemma sample_answer: "small nTo \<Longrightarrow> answer (ssRecv (sample_session nTo)) = sample_chunks nTo"
proof -
  assume "small nTo"
  from sample_stream_ok [OF this] have "[] \<notin> set (sample_chunks nTo)" by (simp add: stream_ok_def)
  moreover have "answer (map Some cs @ [None]) = cs" if "[] \<notin> set cs" for cs
    using that by (induction cs) auto
  ultimately show ?thesis by (simp add: sample_session_def)
qed

lemma sample_prompt_session: "small nTo \<Longrightarrow> prompt_session (sample_session nTo) nTo"
  using sample_stream_ok [of nTo] sample_answer [of nTo]
  by (auto simp: prompt_session_def connects_def sample_session_def sample_stream_def order_msg_def)

lemma sample_prompt: "prompt sample_env"
  using sample_prompt_session by (simp add: prompt_def sample_env_def small_in_range)

lemma sample_session_runs:
  assumes "small nTo"
  shows "\<exists>w1. RecoveryPackets sample_env nFrom nTo 0 0 w = Some (Inr (0, 1, nTo, w1)) \<and>
    rwSent w1 = rwSent w @ [request_of nFrom nTo w]"
proof -
  have ss: "reSession sample_env (rwSession w) (request_of nFrom nTo w) = sample_session nTo"
    by (simp add: sample_env_def)
  have c: "connects (sample_session nTo)" by (simp add: connects_def sample_session_def)
  have "foldR (reHandle sample_env) ms s = Inr (s @ map msgSeqNo ms)" for ms s
    by (induction ms arbitrary: s) (simp_all add: sample_env_def)
  with RecoveryPackets_stream [OF ss c sample_answer sample_stream_ok, OF assms assms, of 0 0] show ?thesis
    by (auto simp: sample_stream_def order_msg_def wrap32_small)
qed

section \<open>Properties\<close>

text \<open>
  C12. One session delivers every whole message that it received to the handler exactly once and in
  order, except the response and the end of the master data, which are not handed on. The answer may
  be cut into chunks anywhere but after the ninth byte of the response (C34: there the parser hangs), and
  the server may close the session or let it break off in the middle of a message. The session returns
  0 exactly when the last message has the last number requested, and closes its socket. The hypothesis
  on the stream excludes only what the parser cannot read: that cut, an unknown type, a second
  response, and a response of status \<open>Y\<close>.
\<close>

lemma session_delivers_stream:
  assumes "reSession E (rwSession w) (request_of nFrom nTo w) = ss" and "connects ss"
    and "answer (ssRecv ss) = cs" and "stream_ok zs [] cs"
  shows "\<exists>ms w1. delivered zs ms \<and> rwSent w1 = rwSent w @ [request_of nFrom nTo w] \<and>
    rwOpen w1 = rwOpen w - {ssSocket ss} \<and>
    RecoveryPackets E nFrom nTo nCount nLast w =
      bindO (Some (foldR (reHandle E) ms (rwApp w))) (\<lambda>s.
        Some (Inr (if nTo = last_seq zs nLast then 0 else - 1, recount zs nCount, last_seq zs nLast,
                   w1\<lparr>rwApp := s\<rparr>)))"
  using RecoveryPackets_stream [OF assms, of nCount nLast] by blast

lemma session_delivers_stream_witness:
  "\<exists>w1. RecoveryPackets sample_env 4 5 0 0 (sample_world 10 []) = Some (Inr (0, 1, 5, w1)) \<and> length (rwApp w1) = 1"
proof -
  let ?w = "sample_world 10 [] :: int list recovery_world"
  have s: "reSession sample_env (rwSession ?w) (request_of 4 5 ?w) = sample_session 5"
    by (simp add: sample_env_def)
  have c: "connects (sample_session 5)" "answer (ssRecv (sample_session 5)) = sample_chunks 5"
    using sample_answer [of 5] by (simp_all add: connects_def sample_session_def small_def)
  obtain ms w1 where m: "delivered (sample_stream 5) ms"
      "RecoveryPackets sample_env 4 5 0 0 ?w = bindO (Some (foldR (reHandle sample_env) ms (rwApp ?w))) (\<lambda>s.
        Some (Inr (if 5 = last_seq (sample_stream 5) 0 then 0 else - 1, recount (sample_stream 5) 0,
          last_seq (sample_stream 5) 0, w1\<lparr>rwApp := s\<rparr>)))"
    using session_delivers_stream [OF s c sample_stream_ok, of 0 0] by (auto simp: small_def)
  then obtain x where "ms = [x]"
    by (auto simp: delivered_def sample_stream_def list_all2_Cons1)
  with m(2) show ?thesis
    by (auto simp: sample_stream_def sample_env_def order_msg_def wrap32_small sample_world_def)
qed

text \<open>
  Nine bytes of a response without the tenth: the parser neither consumes them nor keeps them
  for the next chunk, and \<open>GetPacketFromMessage\<close> never returns.
\<close>

lemma partial_response_hangs:
  assumes "RECOVERY_RESP_ok r" and "RECOVERY_RESP.cMsgType r = RECOVERY_RESPONSE"
    and "buf = take sizeof_MSG_HEADER (RECOVERY_RESP_bytes r) @ junk"
  shows "GetPacketFromMessage clock handle u k buf sizeof_MSG_HEADER nPending nLast nCount s = None"
proof -
  let ?b = "RECOVERY_RESP_bytes r"
  have l: "length ?b = 10" using rr.length_enc [OF assms(1)] by (simp add: struct_sizes)
  have "MSG_HEADER_of buf = MSG_HEADER_of (take sizeof_MSG_HEADER ?b)"
    using l by (simp add: assms(3) mh.dec_local struct_sizes)
  also have "\<dots> = MSG_HEADER_of ?b"
    using l by (intro mh.dec_take) (simp_all add: struct_sizes)
  finally have "MSG_HEADER.cMsgType (MSG_HEADER_of buf) = RECOVERY_RESPONSE"
    using common_prefix(7) [of ?b] assms(1,2) by (simp add: stMsgHeader_def stRecoveryResp_def rr.dec_enc_exact)
  then show ?thesis
    unfolding GetPacketFromMessage_def
    by (intro packet_loop_stuck) (simp_all add: packet_step_def struct_sizes del: msg_codes)
qed

text \<open>
  A message whose type the switch does not name, such as a heartbeat, is logged and not skipped:
  from then on \<open>GetPacketFromMessage\<close> reads the same bytes for ever.
\<close>

lemma unknown_type_hangs:
  assumes "MSG_HEADER.cMsgType (MSG_HEADER_of buf) = t" and "t \<noteq> RECOVERY_RESPONSE" and "packet_case t = None"
    and "sizeof_MSG_HEADER \<le> nTotal"
  shows "GetPacketFromMessage clock handle u k buf nTotal nPending nLast nCount s = None"
  unfolding GetPacketFromMessage_def
  using assms by (intro packet_loop_stuck) (simp_all add: packet_step_def struct_sizes del: msg_codes)

text \<open>
  The parser gives up on a response only if its status byte is the response code \<open>Y\<close> itself; a
  request that the server answers with the error status \<open>E\<close> counts as accepted.
\<close>

lemma error_status_accepted:
  assumes "RECOVERY_RESP_ok r" and "RECOVERY_RESP.cMsgType r = RECOVERY_RESPONSE"
  shows "\<exists>p. GetPacketFromMessage clock handle u k (RECOVERY_RESP_bytes r @ junk) sizeof_RECOVERY_RESP 0 nLast nCount s =
      Some (Inr (if cReqStatus r = RECOVERY_RESPONSE then - 1 else 0, p)) \<and> gpApp p = s \<and> gpCount p = nCount"
proof -
  let ?b = "RECOVERY_RESP_bytes r @ junk"
  have t: "MSG_HEADER.cMsgType (MSG_HEADER_of ?b) = RECOVERY_RESPONSE" "RECOVERY_RESP_of ?b = r"
    using common_prefix(7) [of ?b] assms by (simp_all add: stMsgHeader_def stRecoveryResp_def rr.dec_enc)
  show ?thesis
    unfolding GetPacketFromMessage_def
    by (subst packet_loop.simps, subst packet_loop.simps)
      (use t in \<open>simp add: packet_step_def struct_sizes\<close>)
qed

text \<open>
  C13. The requests made for a gap, when the server answers each of them in one session up to the last
  number asked for (a request that is cut short is repeated for the rest): they cover the gap without
  overlap and in order, none asks for more than \<open>m_nMaxPacketCount + 1\<close> messages, and the first
  one asks for exactly one more than that maximum whenever the gap has more messages than it.
\<close>

lemma gap_requests_tile:
  assumes "prompt E" and "m_nMaxPacketCount (rwMgr w) = mx" and "0 < mx"
    and "0 \<le> nFrom" and "nFrom \<le> nTo" and "in_range 32 nTo"
  shows "returns (SplitRecoveryDataRequest E nFrom nTo w) (\<lambda>w1. \<exists>rs. requested w w1 rs \<and>
    concat (map (\<lambda>(a, b). [a..b]) rs) = [nFrom..nTo] \<and>
    (\<forall>(a, b) \<in> set rs. a \<le> b \<and> b - a + 1 \<le> mx + 1) \<and>
    (mx \<le> nTo - nFrom \<longrightarrow> hd rs = (nFrom, nFrom + mx)))"
proof (rule returns_mono [OF SplitRecovery_prompt [OF assms(1-4) assms(4-6)]])
  fix w1
  let ?n = "nat ((nTo - nFrom) div mx)"
  let ?rs = "recovery_chunks ?n nFrom nFrom nTo mx"
  assume r: "requested w w1 ?rs"
  have d: "int ?n = (nTo - nFrom) div mx"
    using assms(3,5) by (simp add: pos_imp_zdiv_nonneg_iff)
  have n: "int ?n * mx \<le> nTo - nFrom"
    using assms(3) by (simp only: d) (simp add: minus_mod_eq_div_mult [symmetric])
  have m: "nTo - nFrom < int (Suc ?n) * mx"
  proof -
    have "nTo - nFrom = (nTo - nFrom) div mx * mx + (nTo - nFrom) mod mx" by simp
    moreover have "(nTo - nFrom) mod mx < mx" using assms(3) by simp
    ultimately have "nTo - nFrom < int ?n * mx + mx" unfolding d by linarith
    then show ?thesis by (simp add: distrib_right add.commute)
  qed
  have "hd ?rs = (nFrom, nFrom + mx)" if "mx \<le> nTo - nFrom"
  proof (cases ?n)
    case 0
    with m that show ?thesis by simp
  qed simp
  moreover have "concat (map (\<lambda>(a, b). [a..b]) ?rs) = [nFrom..nTo]"
    by (rule recovery_chunks_tile [OF assms(3) n]) simp
  moreover have "a \<le> b \<and> b - a + 1 \<le> mx + 1" if "(a, b) \<in> set ?rs" for a b
    by (rule recovery_chunks_sizes [OF assms(3) n m _ _ assms(5) that]) simp_all
  then have "\<forall>(a, b) \<in> set ?rs. a \<le> b \<and> b - a + 1 \<le> mx + 1" by blast
  ultimately show "\<exists>rs. requested w w1 rs \<and> concat (map (\<lambda>(a, b). [a..b]) rs) = [nFrom..nTo] \<and>
      (\<forall>(a, b) \<in> set rs. a \<le> b \<and> b - a + 1 \<le> mx + 1) \<and>
      (mx \<le> nTo - nFrom \<longrightarrow> hd rs = (nFrom, nFrom + mx))"
    using r by blast
qed

lemma gap_requests_tile_witness:
  "returns (SplitRecoveryDataRequest sample_env 3 25 (sample_world 10 []))
    (\<lambda>w1. \<exists>rs. requested (sample_world 10 []) w1 rs \<and> hd rs = (3, 13))"
proof -
  have "returns (SplitRecoveryDataRequest sample_env 3 25 (sample_world 10 []))
    (\<lambda>w1. \<exists>rs. requested (sample_world 10 []) w1 rs \<and> concat (map (\<lambda>(a, b). [a..b]) rs) = [3..25] \<and>
      (\<forall>(a, b) \<in> set rs. a \<le> b \<and> b - a + 1 \<le> 10 + 1) \<and> (10 \<le> 25 - (3::int) \<longrightarrow> hd rs = (3, 3 + 10)))"
    by (rule gap_requests_tile [OF sample_prompt])
      (simp_all add: sample_world_def CRecoveryMgr_new_def in_range_def)
  then show ?thesis by (rule returns_mono) auto
qed

text \<open>
  \<open>ForceRecoveryPackets\<close> gives up on nothing: if it returns 0, the last recovered number is the
  one asked for; it returns \<open>-1\<close> only for an empty range.
\<close>

lemma force_recovers_all:
  assumes "ForceRecoveryPackets E nFrom nTo nCount nLast w = Some (Inr (r, n, l, w1))"
  shows "(r = - 1 \<and> nTo < nFrom) \<or> (r = 0 \<and> nFrom \<le> nTo \<and> l = nTo)"
  using assms force_loop_result [of E nFrom nTo nCount nLast w]
  by (auto simp: ForceRecoveryPackets_def bindO_eq_Some split: if_splits)

text \<open>
  C36. Against a server that never gets as far as taking a request (no socket, no connection, or a
  failing send), \<open>ForceRecoveryPackets\<close> does not return: the feed is not read any more.
\<close>

lemma refused_recovery_hangs:
  assumes "refuses E" and "nFrom \<le> nTo" and "nLast \<noteq> nTo"
  shows "ForceRecoveryPackets E nFrom nTo nCount nLast w = None"
  by (rule ForceRecovery_fruitless [OF refuses_fruitless [OF assms(1)] assms(2,3)])

lemma refused_recovery_hangs_witness:
  "ForceRecoveryPackets (sample_env\<lparr>reSession := \<lambda>k r. (sample_session 5)\<lparr>ssConnect := - 1\<rparr>\<rparr>) 4 5 0 0
     (sample_world 10 []) = None"
  by (rule refused_recovery_hangs) (simp_all add: refuses_def)



text \<open>
  A session whose \<open>connect\<close> fails returns \<open>-1\<close> with its socket still open: each failed attempt
  of the retry loop leaks a descriptor.
\<close>

lemma failed_connect_leaks:
  assumes "reSession E (rwSession w) (request_of nFrom nTo w) = ss" and "0 \<le> ssSocket ss" and "ssConnect ss = - 1"
  shows "\<exists>w1. RecoveryPackets E nFrom nTo nCount nLast w = Some (Inr (- 1, nCount, nLast, w1)) \<and>
    rwOpen w1 = insert (ssSocket ss) (rwOpen w) \<and> rwSent w1 = rwSent w"
  using assms
  by (auto simp: RecoveryPackets_def CreateSocket_def ConnectServer_def set_request_def Let_def)

text \<open>
  C39. The exchange's minimal delay between requests. A session that has sent a request is followed by
  any number of calls that came to no request and then by another call of \<open>RecoveryPackets\<close>. When the
  clock has not gone back between the two, and the delay is below 2^32 microseconds, that call sleeps
  exactly for what is missing of the delay since the request was sent, and not at all when nothing is,
  before it makes its own.
\<close>

lemma delay_respected:
  assumes "RecoveryPackets E a b c q w = Some (Inr (r, n, l, w1))" and "rwSent w1 \<noteq> rwSent w"
    and "unsent E w1 w2"
    and "RecoveryPackets E a1 b1 c1 q1 w2 = Some (Inr (r1, n1, l1, w3))"
    and "d = micros (reClock E (rwTick w2)) - micros (reClock E (Suc (rwTick w)))" and "0 \<le> d" and "in_range 64 d"
    and "delay = m_nConnectionDelay (rwMgr w)" and "delay < 2 ^ 32"
  shows "\<exists>slept. rwSlept w3 = rwSlept w2 @ slept \<and> length slept \<le> 1 \<and> delay \<le> d + sum_list slept \<and>
    (\<forall>x \<in> set slept. 0 < x \<and> d + x = delay)"
proof -
  have "m_nLastRecoveryTime (rwMgr w2) = micros (reClock E (Suc (rwTick w)))" "m_nConnectionDelay (rwMgr w2) = delay"
    using RecoveryPackets_delay [OF assms(1)] unsent_time [OF assms(3)] assms(2,8) by simp_all
  moreover have "rwSlept w3 = rwSlept (wait_delay E w2)"
    using RecoveryPackets_delay [OF assms(4)] by simp
  ultimately show ?thesis
    using wait_delay_enough [of d E w2] assms(5-7,9) by simp
qed

text \<open>Two sessions at the same time: the second one sleeps the whole delay of 1000 microseconds.\<close>

lemma delay_respected_witness:
  "\<exists>w1 w2. RecoveryPackets sample_env 4 5 0 0 (sample_world 10 []) = Some (Inr (0, 1, 5, w1)) \<and>
    RecoveryPackets sample_env 6 7 0 0 w1 = Some (Inr (0, 1, 7, w2)) \<and> rwSlept w2 = rwSlept w1 @ [1000]"
proof -
  obtain w1 where w1: "RecoveryPackets sample_env 4 5 0 0 (sample_world 10 []) = Some (Inr (0, 1, 5, w1))"
      "rwSent w1 \<noteq> rwSent (sample_world 10 [] :: int list recovery_world)"
    using sample_session_runs [of 5 4 "sample_world 10 []"] by (auto simp: small_def)
  obtain w2 where w2: "RecoveryPackets sample_env 6 7 0 0 w1 = Some (Inr (0, 1, 7, w2))"
    using sample_session_runs [of 7 6 w1] by (auto simp: small_def)
  have clock: "reClock sample_env k = \<lparr>tv_sec = 5000, tv_nsec = 0\<rparr>" for k by (simp add: sample_env_def)
  have delay: "m_nConnectionDelay (rwMgr (sample_world 10 [] :: int list recovery_world)) = 1000"
    by (simp add: sample_world_def CRecoveryMgr_new_def)
  obtain slept where s: "rwSlept w2 = rwSlept w1 @ slept" "length slept \<le> 1" "1000 \<le> sum_list slept"
      "\<forall>x \<in> set slept. x = 1000"
    using delay_respected [OF w1 unsent.none w2, of 0 1000] by (auto simp: clock delay in_range_def)
  then have "slept = [1000]" by (cases slept) auto
  with s(1) w1(1) w2 show ?thesis by auto
qed

end
