(* ===== verification/ParserLoop.thy ===== *)
theory ParserLoop
  imports Recovery
begin

text \<open>
  When \<open>GetPacketFromMessage\<close> of \<^verbatim>\<open>src/recoverymgr.h\<close> comes to an end: an analysis of the bytes
  alone, without handler and clock, that says whether the loop reaches a message it can neither
  consume nor keep for the next chunk.
\<close>

section \<open>An analysis of the buffer\<close>

lemma packet_case_pos: "packet_case t = Some c \<Longrightarrow> 0 < fst c"
  by (auto simp: packet_case_def struct_sizes split: if_splits)

function scan_stuck :: "byte list \<Rightarrow> nat \<Rightarrow> nat \<Rightarrow> bool" where
  "scan_stuck buf nTotal pos =
    (if nTotal - pos < sizeof_MSG_HEADER then False
     else
      (let t = MSG_HEADER.cMsgType (MSG_HEADER_of (drop pos buf))
       in if t = RECOVERY_RESPONSE then
            (if nTotal < pos + sizeof_RECOVERY_RESP then True
             else if cReqStatus (RECOVERY_RESP_of (drop pos buf)) = RECOVERY_RESPONSE then False
             else scan_stuck buf nTotal (pos + sizeof_RECOVERY_RESP))
          else
            (case packet_case t of
               None \<Rightarrow> True
             | Some c \<Rightarrow> if nTotal < pos + fst c then False else scan_stuck buf nTotal (pos + fst c))))"
  by pat_completeness auto
termination
  by (relation "measure (\<lambda>(buf, nTotal, pos). nTotal - pos)")
    (auto simp: struct_sizes dest: packet_case_pos simp del: msg_codes)

declare scan_stuck.simps [simp del]

text \<open>One step of the parser, seen from the analysis.\<close>

lemma copy_packet_moves:
  "copy_packet clock handle c p = Inr q \<Longrightarrow> gpBuffer q = gpBuffer p \<and> gpAvailable q = gpAvailable p + fst c"
  by (auto simp: copy_packet_def Let_def bindR_eq_Inr split: prod.splits if_splits)

lemma packet_step_scan:
  assumes "gpAvailable p < nTotal"
  obtains (fault) e where "packet_step clock handle nTotal p = Inl e"
  | (ends) r q where "packet_step clock handle nTotal p = Inr (Some r, q)" "\<not> scan_stuck (gpBuffer p) nTotal (gpAvailable p)"
  | (stuck) "packet_step clock handle nTotal p = Inr (None, p)" "scan_stuck (gpBuffer p) nTotal (gpAvailable p)"
  | (moves) q where "packet_step clock handle nTotal p = Inr (None, q)" "gpBuffer q = gpBuffer p"
      "gpAvailable p < gpAvailable q" "gpAvailable q \<le> nTotal"
      "scan_stuck (gpBuffer p) nTotal (gpAvailable p) = scan_stuck (gpBuffer q) nTotal (gpAvailable q)"
proof (cases "nTotal - gpAvailable p < sizeof_MSG_HEADER")
  case True
  then show ?thesis by (intro ends) (simp_all add: packet_step_def scan_stuck.simps)
next
  case False
  define t where "t = MSG_HEADER.cMsgType (MSG_HEADER_of (drop (gpAvailable p) (gpBuffer p)))"
  note unf = packet_step_def scan_stuck.simps [of "gpBuffer p" nTotal "gpAvailable p"]
  show ?thesis
  proof (cases "t = RECOVERY_RESPONSE")
    case True
    show ?thesis
    proof (cases "nTotal < gpAvailable p + sizeof_RECOVERY_RESP")
      case True
      with \<open>t = RECOVERY_RESPONSE\<close> False show ?thesis
        by (intro stuck) (simp_all add: unf t_def [symmetric] Let_def)
    next
      case fits: False
      show ?thesis
      proof (cases "cReqStatus (RECOVERY_RESP_of (drop (gpAvailable p) (gpBuffer p))) = RECOVERY_RESPONSE")
        case True
        with \<open>t = RECOVERY_RESPONSE\<close> False fits show ?thesis
          by (intro ends) (simp_all add: unf t_def [symmetric] Let_def REQUEST_SUCCESS_def RECOVERY_RESPONSE_def)
      next
        case nok: False
        show ?thesis
          by (rule moves [of "p\<lparr>gpAvailable := gpAvailable p + sizeof_RECOVERY_RESP\<rparr>"])
            (use \<open>t = RECOVERY_RESPONSE\<close> False fits nok in
              \<open>simp_all add: unf t_def [symmetric] Let_def sizeof_RECOVERY_RESP_def\<close>)
      qed
    qed
  next
    case other: False
    show ?thesis
    proof (cases "packet_case t")
      case None
      with other False show ?thesis
        by (intro stuck) (simp_all add: unf t_def [symmetric] Let_def)
    next
      case (Some c)
      show ?thesis
      proof (cases "nTotal < gpAvailable p + fst c")
        case True
        with other False Some show ?thesis
          by (intro ends) (simp_all add: unf t_def [symmetric] Let_def)
      next
        case fits: False
        show ?thesis
        proof (cases "copy_packet clock handle c p")
          case (Inl e)
          with other False Some fits show ?thesis
            by (intro fault) (simp add: unf t_def [symmetric] Let_def)
        next
          case (Inr q)
          from copy_packet_moves [OF this] packet_case_pos [OF Some] other False Some fits Inr
          show ?thesis
            by (intro moves [of q]) (simp_all add: unf t_def [symmetric] Let_def)
        qed
      qed
    qed
  qed
qed

lemma packet_loop_scan:
  assumes "gpAvailable p \<le> nTotal"
  shows "(\<not> scan_stuck (gpBuffer p) nTotal (gpAvailable p) \<longrightarrow> (\<exists>y. packet_loop clock handle nTotal p = Some y)) \<and>
    (scan_stuck (gpBuffer p) nTotal (gpAvailable p) \<longrightarrow>
      packet_loop clock handle nTotal p = None \<or> (\<exists>e. packet_loop clock handle nTotal p = Some (Inl e)))"
  using assms
proof (induction "nTotal - gpAvailable p" arbitrary: p rule: less_induct)
  case less
  show ?case
  proof (cases "gpAvailable p < nTotal")
    case True
    from True show ?thesis
    proof (cases rule: packet_step_scan [where clock = clock and handle = handle])
      case (moves q)
      then have "packet_loop clock handle nTotal p = packet_loop clock handle nTotal q"
        using True by (subst packet_loop.simps) simp
      with moves True less.hyps [of q] show ?thesis by simp
    next
      case stuck
      with packet_loop_stuck [OF True] show ?thesis by simp
    qed (use True in \<open>subst (1 2 3) packet_loop.simps; simp\<close>)+
  next
    case False
    with less.prems show ?thesis
      by (subst (1 2 3) packet_loop.simps) (simp add: scan_stuck.simps sizeof_MSG_HEADER_def)
  qed
qed

section \<open>Property\<close>

text \<open>
  C34. Whether \<open>GetPacketFromMessage\<close> comes to an end depends on the bytes alone. It returns, or
  the handler ends the process, unless the parser reaches a message of a type that the switch does
  not name (a heartbeat, for instance) or a response of which only nine bytes have arrived; when
  it does reach one, the call never returns.
\<close>

lemma parser_returns_unless_stuck:
  "(\<not> scan_stuck buf nTotal 0 \<longrightarrow>
      (\<exists>y. GetPacketFromMessage clock handle u k buf nTotal nPending nLast nCount s = Some y)) \<and>
   (scan_stuck buf nTotal 0 \<longrightarrow>
      GetPacketFromMessage clock handle u k buf nTotal nPending nLast nCount s = None \<or>
      (\<exists>e. GetPacketFromMessage clock handle u k buf nTotal nPending nLast nCount s = Some (Inl e)))"
  unfolding GetPacketFromMessage_def
  using packet_loop_scan [of "\<lparr>gpBuffer = buf, gpAvailable = 0, gpMsg = u, gpTv0 = clock k, gpTick = k + 1,
       gpPending = nPending, gpLastSeqNo = nLast, gpCount = nCount, gpApp = s\<rparr>" nTotal clock handle]
  by simp

definition sample_header :: "byte \<Rightarrow> byte list" where
  "sample_header t = MSG_HEADER_bytes \<lparr>MSG_HEADER.wMsgLen = 0, wStremID = 1, nSeqNo = 5, cMsgType = t\<rparr>"

lemma sample_header_type: "MSG_HEADER.cMsgType (MSG_HEADER_of (sample_header t @ rest)) = t"
  by (simp add: sample_header_def mh.dec_enc MSG_HEADER_ok_def in_range_def)

lemma parser_returns_unless_stuck_witness:
  "(\<exists>y. GetPacketFromMessage (\<lambda>_. \<lparr>tv_sec = 0, tv_nsec = 0\<rparr>) (\<lambda>m s. Inr s) (packet_of []) 0
     (sample_header NEW_ORDER @ replicate 29 0) 38 0 0 0 () = Some y) \<and>
   (let r = GetPacketFromMessage (\<lambda>_. \<lparr>tv_sec = 0, tv_nsec = 0\<rparr>) (\<lambda>m s. Inr s) (packet_of []) 0
     (sample_header HEART_BEAT_MESSAGE @ replicate 4 0) 13 0 0 0 () in r = None \<or> (\<exists>e. r = Some (Inl e)))"
proof -
  have "\<not> scan_stuck (sample_header NEW_ORDER @ replicate 29 0) 38 0"
    by (subst scan_stuck.simps)
      (simp add: struct_sizes sample_header_type packet_case_def scan_stuck.simps [of _ 38 38])
  moreover have "scan_stuck (sample_header HEART_BEAT_MESSAGE @ replicate 4 0) 13 0"
    by (subst scan_stuck.simps) (simp add: struct_sizes sample_header_type packet_case_def)
  ultimately show ?thesis
    unfolding Let_def
    by (intro conjI parser_returns_unless_stuck [THEN conjunct1, THEN mp]
      parser_returns_unless_stuck [THEN conjunct2, THEN mp])
qed

end
