(* ===== verification/Feed.thy ===== *)
theory Feed
  imports Recovery Typed "HOL-Library.Multiset"
begin

text \<open>
  The receive loop of \<open>main\<close>, \<^verbatim>\<open>src/main.cpp\<close>: one datagram of the multicast feed at a time,
  with the sequence number check that drops duplicates and has a gap recovered before the
  datagram is handled. \<open>recvfrom\<close> returns the
  bytes of a datagram, or nothing.
\<close>

section \<open>One datagram\<close>

record 's feed =
  fdMsg :: CompositeBcastMsg
  fdLastSeqNo :: int
  fdWorld :: "'s recovery_world"

definition feed_handle ::
  "'s recovery_env \<Rightarrow> CompositeBcastMsg \<Rightarrow> 's recovery_world \<Rightarrow> 's recovery_world run" where
  "feed_handle E m w = bindO (Some (reHandle E m (rwApp w))) (\<lambda>s. Some (Inr (w\<lparr>rwApp := s\<rparr>)))"

text \<open>The empty list is a \<open>recvfrom\<close> that returns 0 or fails.\<close>

definition feed_step :: "'s recovery_env \<Rightarrow> byte list \<Rightarrow> 's feed \<Rightarrow> 's feed run" where
  "feed_step E d f =
    (if d = [] then Some (Inr f)
     else
      (let m0 = (fdMsg f)\<lparr>stBcastMsg := overlay (take sizeof_BcastMsg d) (stBcastMsg (fdMsg f))\<rparr>
       in if msgSeqNo m0 = 0 then Some (Inr (f\<lparr>fdMsg := m0\<rparr>))
          else
           (let w = fdWorld f; m = m0\<lparr>tv := reClock E (rwTick w)\<rparr>; q = msgSeqNo m;
                w1 = w\<lparr>rwTick := rwTick w + 1\<rparr>; f1 = f\<lparr>fdMsg := m, fdWorld := w1\<rparr>
            in if q \<le> fdLastSeqNo f then Some (Inr f1)
               else if wrap32 (q - fdLastSeqNo f) = 1 then
                 bindO (feed_handle E m w1) (\<lambda>w2. Some (Inr (f1\<lparr>fdLastSeqNo := q, fdWorld := w2\<rparr>)))
               else if wrap32 (q - fdLastSeqNo f) > 1 then
                 bindO (SplitRecoveryDataRequest E (wrap32 (fdLastSeqNo f + 1)) (wrap32 (q - 1)) w1) (\<lambda>w2.
                 bindO (feed_handle E m w2) (\<lambda>w3. Some (Inr (f1\<lparr>fdLastSeqNo := q, fdWorld := w3\<rparr>))))
               else Some (Inr f1))))"

fun feed_run :: "'s recovery_env \<Rightarrow> byte list list \<Rightarrow> 's feed \<Rightarrow> 's feed run" where
  "feed_run E [] f = Some (Inr f)"
| "feed_run E (d # ds) f = bindO (feed_step E d f) (feed_run E ds)"

section \<open>No sequence number is lost\<close>

definition received :: "byte list \<Rightarrow> BcastMsg \<Rightarrow> BcastMsg" where
  "received d u = (if d = [] then u else overlay (take sizeof_BcastMsg d) u)"

definition seq_of :: "BcastMsg \<Rightarrow> int" where
  "seq_of u = STREAM_HEADER.nSeqNo (stHeader u)"

lemma msgSeqNo_seq_of: "msgSeqNo m = seq_of (stBcastMsg m)"
  by (simp add: msgSeqNo_def seq_of_def)

lemma seq_of_range: "in_range 32 (seq_of u)"
  by (simp add: seq_of_def stHeader_def STREAM_HEADER_of_def i32_def wrap_in_range)

text \<open>The sequence numbers of the datagrams that are handled, given the last one before.\<close>

fun accepted :: "BcastMsg \<Rightarrow> int \<Rightarrow> byte list list \<Rightarrow> int list" where
  "accepted u q0 [] = []"
| "accepted u q0 (d # ds) =
     (let u1 = received d u; q = seq_of u1
      in if d \<noteq> [] \<and> q0 < q then q # accepted u1 q ds else accepted u1 q0 ds)"

lemma accepted_last: "q0 \<le> last (q0 # accepted u q0 ds)"
proof (induction ds arbitrary: u q0)
  case (Cons d ds)
  have "q \<le> last (q # accepted v q ds)" for q v by (rule Cons.IH)
  then show ?case
    using order_trans [of q0 "seq_of (received d u)"] by (auto simp: Let_def simp del: last.simps) (metis last_ConsR less_imp_le list.discI order_trans)
qed simp

definition feed_ok :: "'s feed \<Rightarrow> bool" where
  "feed_ok f \<longleftrightarrow> 0 \<le> fdLastSeqNo f \<and> in_range 32 (fdLastSeqNo f) \<and>
     0 < m_nMaxPacketCount (rwMgr (fdWorld f))"

lemma feed_handle_returns: "returns (feed_handle E m w) (\<lambda>w1. requested w w1 [])"
  by (cases "reHandle E m (rwApp w)") (simp_all add: feed_handle_def requested_def)

text \<open>A datagram that is taken, and one that is not.\<close>

lemma feed_step_takes:
  assumes f: "feed_ok f" and "d \<noteq> []" and u: "u = received d (stBcastMsg (fdMsg f))"
    and q: "fdLastSeqNo f < seq_of u"
  shows "\<exists>t. feed_step E d f =
    bindO (if seq_of u - fdLastSeqNo f = 1 then Some (Inr ((fdWorld f)\<lparr>rwTick := rwTick (fdWorld f) + 1\<rparr>))
           else SplitRecoveryDataRequest E (fdLastSeqNo f + 1) (seq_of u - 1) ((fdWorld f)\<lparr>rwTick := rwTick (fdWorld f) + 1\<rparr>))
      (\<lambda>w2. bindO (feed_handle E \<lparr>stBcastMsg = u, tv = t\<rparr> w2) (\<lambda>w3.
         Some (Inr \<lparr>fdMsg = \<lparr>stBcastMsg = u, tv = t\<rparr>, fdLastSeqNo = seq_of u, fdWorld = w3\<rparr>)))"
proof -
  have "in_range 32 (seq_of u)" by (rule seq_of_range)
  with f q have d: "wrap32 (seq_of u - fdLastSeqNo f) = seq_of u - fdLastSeqNo f"
      "wrap32 (fdLastSeqNo f + 1) = fdLastSeqNo f + 1" "wrap32 (seq_of u - 1) = seq_of u - 1"
    by (auto simp: feed_ok_def in_range_def intro!: wrap_id)
  show ?thesis
    using assms d
    by (intro exI [of _ "reClock E (rwTick (fdWorld f))"]; cases f; cases "fdMsg f")
      (auto simp: feed_step_def Let_def msgSeqNo_seq_of received_def feed_ok_def)
qed

lemma feed_step_ignores:
  assumes "feed_ok f" and "d = [] \<or> seq_of (received d (stBcastMsg (fdMsg f))) \<le> fdLastSeqNo f"
  shows "\<exists>m t. feed_step E d f = Some (Inr (f\<lparr>fdMsg := m, fdWorld := (fdWorld f)\<lparr>rwTick := t\<rparr>\<rparr>)) \<and>
    stBcastMsg m = received d (stBcastMsg (fdMsg f))"
proof (cases "d = [] \<or> seq_of (received d (stBcastMsg (fdMsg f))) = 0")
  case True
  then show ?thesis
    by (intro exI [of _ "(fdMsg f)\<lparr>stBcastMsg := received d (stBcastMsg (fdMsg f))\<rparr>"] exI [of _ "rwTick (fdWorld f)"])
      (cases f; cases "fdMsg f"; auto simp: feed_step_def received_def msgSeqNo_seq_of Let_def)
next
  case False
  with assms(2) show ?thesis
    by (intro exI [of _ "\<lparr>stBcastMsg = received d (stBcastMsg (fdMsg f)), tv = reClock E (rwTick (fdWorld f))\<rparr>"]
        exI [of _ "rwTick (fdWorld f) + 1"])
      (cases f; cases "fdMsg f"; auto simp: feed_step_def received_def msgSeqNo_seq_of Let_def)
qed

text \<open>
  What every gap is recovered with (\<open>Q\<close>) and every message is handled with (\<open>H\<close>), a datagram is
  taken with.
\<close>

lemma feed_step_spec:
  assumes Q: "request_spec 1 Q E" "\<And>w t. Q [] w (w\<lparr>rwTick := t\<rparr>)" and f: "feed_ok f"
    and u: "u = received d (stBcastMsg (fdMsg f))"
    and H: "\<And>t w. returns (feed_handle E \<lparr>stBcastMsg = u, tv = t\<rparr> w) (H w)"
      "\<And>w w1. H w w1 \<Longrightarrow> m_nMaxPacketCount (rwMgr w1) = m_nMaxPacketCount (rwMgr w)"
  shows "returns (feed_step E d f) (\<lambda>f1. feed_ok f1 \<and> stBcastMsg (fdMsg f1) = u \<and>
    (if d \<noteq> [] \<and> fdLastSeqNo f < seq_of u
     then fdLastSeqNo f1 = seq_of u \<and> (\<exists>rs w2. Q rs (fdWorld f) w2 \<and> H w2 (fdWorld f1) \<and>
       concat (map (\<lambda>(a, b). [a..b]) rs) = [fdLastSeqNo f + 1..seq_of u - 1])
     else fdLastSeqNo f1 = fdLastSeqNo f \<and> (\<exists>t. fdWorld f1 = (fdWorld f)\<lparr>rwTick := t\<rparr>)))"
proof (cases "d \<noteq> [] \<and> fdLastSeqNo f < seq_of u")
  case True
  let ?w = "fdWorld f" and ?a = "fdLastSeqNo f + 1" and ?b = "seq_of u - 1"
  let ?w1 = "?w\<lparr>rwTick := rwTick ?w + 1\<rparr>"
  let ?mx = "m_nMaxPacketCount (rwMgr ?w1)"
  have q: "in_range 32 (seq_of u)" by (rule seq_of_range)
  have mx: "0 < ?mx" using f by (simp add: feed_ok_def)
  define good where "good w2 \<longleftrightarrow> (\<exists>rs. Q rs ?w w2 \<and> concat (map (\<lambda>(a, b). [a..b]) rs) = [?a..?b])" for w2
  obtain t where step: "feed_step E d f =
      bindO (if seq_of u - fdLastSeqNo f = 1 then Some (Inr ?w1) else SplitRecoveryDataRequest E ?a ?b ?w1)
        (\<lambda>w2. bindO (feed_handle E \<lparr>stBcastMsg = u, tv = t\<rparr> w2) (\<lambda>w3.
           Some (Inr \<lparr>fdMsg = \<lparr>stBcastMsg = u, tv = t\<rparr>, fdLastSeqNo = seq_of u, fdWorld = w3\<rparr>)))"
    using feed_step_takes [OF f _ u] True by blast
  have "returns (if seq_of u - fdLastSeqNo f = 1 then Some (Inr ?w1) else SplitRecoveryDataRequest E ?a ?b ?w1) good"
  proof (cases "seq_of u - fdLastSeqNo f = 1")
    case True
    then show ?thesis using Q(2) [of ?w] by (auto simp: good_def intro!: exI [of _ "[]"])
  next
    case False
    then have le: "?a \<le> ?b" using True by simp
    have "returns (SplitRecoveryDataRequest E ?a ?b ?w1) (Q (recovery_chunks (nat ((?b - ?a) div ?mx)) ?a ?a ?b ?mx) ?w1)"
      using f q mx le by (intro SplitRecovery_spec [OF Q(1) HOL.refl]) (auto simp: feed_ok_def in_range_def)
    then have "returns (SplitRecoveryDataRequest E ?a ?b ?w1) good"
      by (rule returns_mono)
        (use request_specD(3) [OF Q(1) Q(2)] chunks_of_gap [OF mx le] in \<open>force simp: good_def\<close>)
    with False show ?thesis by simp
  qed
  then show ?thesis
    unfolding step
  proof (rule returns_bindO)
    fix w2 assume g: "good w2"
    then have "m_nMaxPacketCount (rwMgr w2) = ?mx"
      using request_specD(2) [OF Q(1)] by (auto simp: good_def)
    with g show "returns (bindO (feed_handle E \<lparr>stBcastMsg = u, tv = t\<rparr> w2) (\<lambda>w3.
        Some (Inr \<lparr>fdMsg = \<lparr>stBcastMsg = u, tv = t\<rparr>, fdLastSeqNo = seq_of u, fdWorld = w3\<rparr>)))
      (\<lambda>f1. feed_ok f1 \<and> stBcastMsg (fdMsg f1) = u \<and>
        (if d \<noteq> [] \<and> fdLastSeqNo f < seq_of u
         then fdLastSeqNo f1 = seq_of u \<and> (\<exists>rs w2. Q rs ?w w2 \<and> H w2 (fdWorld f1) \<and>
           concat (map (\<lambda>(a, b). [a..b]) rs) = [?a..?b])
         else fdLastSeqNo f1 = fdLastSeqNo f \<and> (\<exists>t. fdWorld f1 = ?w\<lparr>rwTick := t\<rparr>)))"
      using f True q mx H(2) by (intro returns_bindO [OF H(1)]) (auto simp: good_def feed_ok_def)
  qed
next
  case False
  then have "d = [] \<or> seq_of u \<le> fdLastSeqNo f" by auto
  from feed_step_ignores [OF f this [unfolded u], of E] obtain m t
    where "feed_step E d f = Some (Inr (f\<lparr>fdMsg := m, fdWorld := (fdWorld f)\<lparr>rwTick := t\<rparr>\<rparr>))"
      and "stBcastMsg m = received d (stBcastMsg (fdMsg f))" by blast
  with f False show ?thesis by (auto simp: u feed_ok_def)
qed

lemma feed_step_prompt:
  assumes E: "prompt E" and f: "feed_ok f"
  shows "returns (feed_step E d f) (\<lambda>f1. feed_ok f1 \<and>
    stBcastMsg (fdMsg f1) = received d (stBcastMsg (fdMsg f)) \<and>
    (let q = seq_of (received d (stBcastMsg (fdMsg f))); q0 = fdLastSeqNo f
     in \<exists>rs. requested (fdWorld f) (fdWorld f1) rs \<and>
       (if d \<noteq> [] \<and> q0 < q
        then fdLastSeqNo f1 = q \<and> concat (map (\<lambda>(a, b). [a..b]) rs) = [q0 + 1..q - 1]
        else fdLastSeqNo f1 = q0 \<and> rs = [])))"
proof -
  have tick: "requested w (w\<lparr>rwTick := t\<rparr>) []" for w t by (simp add: requested_def)
  have trans: "requested w w1 rs \<Longrightarrow> requested w1 w2 [] \<Longrightarrow> requested w w2 rs" for w w1 w2 rs
    using requested_trans [of w w1 rs w2 "[]"] by simp
  note spec = feed_step_spec [OF prompt_spec [OF E] tick f HOL.refl feed_handle_returns, of d]
  show ?thesis
    unfolding Let_def
  proof (rule returns_mono [OF spec])
    fix w w1 :: "'a recovery_world"
    assume "requested w w1 []"
    then show "m_nMaxPacketCount (rwMgr w1) = m_nMaxPacketCount (rwMgr w)" by (simp add: requested_def)
  next
    fix f1
    let ?u = "received d (stBcastMsg (fdMsg f))"
    assume a: "feed_ok f1 \<and> stBcastMsg (fdMsg f1) = ?u \<and>
      (if d \<noteq> [] \<and> fdLastSeqNo f < seq_of ?u
       then fdLastSeqNo f1 = seq_of ?u \<and> (\<exists>rs w2. requested (fdWorld f) w2 rs \<and> requested w2 (fdWorld f1) [] \<and>
         concat (map (\<lambda>(a, b). [a..b]) rs) = [fdLastSeqNo f + 1..seq_of ?u - 1])
       else fdLastSeqNo f1 = fdLastSeqNo f \<and> (\<exists>t. fdWorld f1 = (fdWorld f)\<lparr>rwTick := t\<rparr>))"
    show "feed_ok f1 \<and> stBcastMsg (fdMsg f1) = ?u \<and> (\<exists>rs. requested (fdWorld f) (fdWorld f1) rs \<and>
       (if d \<noteq> [] \<and> fdLastSeqNo f < seq_of ?u
        then fdLastSeqNo f1 = seq_of ?u \<and> concat (map (\<lambda>(a, b). [a..b]) rs) = [fdLastSeqNo f + 1..seq_of ?u - 1]
        else fdLastSeqNo f1 = fdLastSeqNo f \<and> rs = []))"
    proof (cases "d \<noteq> [] \<and> fdLastSeqNo f < seq_of ?u")
      case True
      with a trans show ?thesis by (simp only: if_True simp_thms) blast
    next
      case False
      with a tick [of "fdWorld f"] show ?thesis by (simp only: if_False) auto
    qed
  qed
qed

lemma feed_run_prompt:
  assumes "prompt E" and "feed_ok f"
  shows "returns (feed_run E ds f) (\<lambda>f1. \<exists>rs. requested (fdWorld f) (fdWorld f1) rs \<and>
    fdLastSeqNo f1 = last (fdLastSeqNo f # accepted (stBcastMsg (fdMsg f)) (fdLastSeqNo f) ds) \<and>
    mset (accepted (stBcastMsg (fdMsg f)) (fdLastSeqNo f) ds @ concat (map (\<lambda>(a, b). [a..b]) rs)) =
      mset [fdLastSeqNo f + 1..fdLastSeqNo f1])"
  using assms(2)
proof (induction ds arbitrary: f)
  case Nil
  then show ?case by (auto simp: requested_def intro!: exI [of _ "[]"])
next
  case (Cons d ds)
  let ?u = "received d (stBcastMsg (fdMsg f))" and ?q0 = "fdLastSeqNo f"
  show ?case
    unfolding feed_run.simps
  proof (rule returns_bindO [OF feed_step_prompt [OF assms(1) Cons.prems, of d]])
    fix f1 assume "feed_ok f1 \<and> stBcastMsg (fdMsg f1) = ?u \<and>
      (let q = seq_of ?u; q0 = ?q0
       in \<exists>rs. requested (fdWorld f) (fdWorld f1) rs \<and>
         (if d \<noteq> [] \<and> q0 < q
          then fdLastSeqNo f1 = q \<and> concat (map (\<lambda>(a, b). [a..b]) rs) = [q0 + 1..q - 1]
          else fdLastSeqNo f1 = q0 \<and> rs = []))"
    then obtain rs where f1: "feed_ok f1" "stBcastMsg (fdMsg f1) = ?u" "requested (fdWorld f) (fdWorld f1) rs"
        and acc: "if d \<noteq> [] \<and> ?q0 < seq_of ?u
          then fdLastSeqNo f1 = seq_of ?u \<and> concat (map (\<lambda>(a, b). [a..b]) rs) = [?q0 + 1..seq_of ?u - 1]
          else fdLastSeqNo f1 = ?q0 \<and> rs = []"
      by (auto simp: Let_def)
    show "returns (feed_run E ds f1) (\<lambda>f2. \<exists>rs. requested (fdWorld f) (fdWorld f2) rs \<and>
        fdLastSeqNo f2 = last (?q0 # accepted (stBcastMsg (fdMsg f)) ?q0 (d # ds)) \<and>
        mset (accepted (stBcastMsg (fdMsg f)) ?q0 (d # ds) @ concat (map (\<lambda>(a, b). [a..b]) rs)) =
          mset [?q0 + 1..fdLastSeqNo f2])"
    proof (rule returns_mono [OF Cons.IH [OF f1(1)]])
      fix f2 assume "\<exists>rs. requested (fdWorld f1) (fdWorld f2) rs \<and>
        fdLastSeqNo f2 = last (fdLastSeqNo f1 # accepted (stBcastMsg (fdMsg f1)) (fdLastSeqNo f1) ds) \<and>
        mset (accepted (stBcastMsg (fdMsg f1)) (fdLastSeqNo f1) ds @ concat (map (\<lambda>(a, b). [a..b]) rs)) =
          mset [fdLastSeqNo f1 + 1..fdLastSeqNo f2]"
      then obtain rs2 where f2: "requested (fdWorld f1) (fdWorld f2) rs2"
          "fdLastSeqNo f2 = last (fdLastSeqNo f1 # accepted ?u (fdLastSeqNo f1) ds)"
          "mset (accepted ?u (fdLastSeqNo f1) ds @ concat (map (\<lambda>(a, b). [a..b]) rs2)) =
            mset [fdLastSeqNo f1 + 1..fdLastSeqNo f2]"
        using f1(2) by auto
      have r: "requested (fdWorld f) (fdWorld f2) (rs @ rs2)"
        by (rule requested_trans [OF f1(3) f2(1)])
      have le: "fdLastSeqNo f1 \<le> fdLastSeqNo f2"
        unfolding f2(2) by (rule accepted_last)
      show "\<exists>rs. requested (fdWorld f) (fdWorld f2) rs \<and>
          fdLastSeqNo f2 = last (?q0 # accepted (stBcastMsg (fdMsg f)) ?q0 (d # ds)) \<and>
          mset (accepted (stBcastMsg (fdMsg f)) ?q0 (d # ds) @ concat (map (\<lambda>(a, b). [a..b]) rs)) =
            mset [?q0 + 1..fdLastSeqNo f2]"
      proof (cases "d \<noteq> [] \<and> ?q0 < seq_of ?u")
        case True
        have "[?q0 + 1..fdLastSeqNo f2] = [?q0 + 1..seq_of ?u - 1] @ seq_of ?u # [seq_of ?u + 1..fdLastSeqNo f2]"
          using True acc le upto_split3 [of "?q0 + 1" "seq_of ?u" "fdLastSeqNo f2"] by simp
        with True acc f2 show ?thesis
          by (intro exI [of _ "rs @ rs2"]) (simp add: r Let_def)
      next
        case False
        then have "accepted (stBcastMsg (fdMsg f)) ?q0 (d # ds) = accepted ?u ?q0 ds"
          by (auto simp: Let_def)
        moreover from False acc have "fdLastSeqNo f1 = ?q0" "rs = []" by (simp_all only: if_False)
        ultimately show ?thesis
          using f2 r by (intro exI [of _ rs2] conjI) (simp_all only: append_Nil)
      qed
    qed
  qed
qed

section \<open>Recovered trades and the handler\<close>

lemma carries_bytes: "carries x m \<Longrightarrow> \<exists>tail. stBcastMsg m = packet_bytes x @ tail"
  unfolding carries_def by (metis append_take_drop_id)

lemma carried_type: "packet_ok x \<Longrightarrow> carries x m \<Longrightarrow> msgType m = packet_type x"
  using packet_view(1) [of x] by (auto simp: msgType_def stMsgHeader_def dest!: carries_bytes)

lemma carried_trade: "packet_ok (TradePacket t) \<Longrightarrow> carries (TradePacket t) m \<Longrightarrow> tok m = TRD_MSG.nToken t"
  by (auto simp: tok_def trd_def stTrdMsg_def tm.dec_enc dest!: carries_bytes)

definition trades_of :: "int set \<Rightarrow> packet list \<Rightarrow> bool" where
  "trades_of D zs \<longleftrightarrow> (\<forall>t. TradePacket t \<in> set zs \<longrightarrow> TRD_MSG.nToken t \<in> D)"

lemma trades_of_accepted:
  assumes "\<forall>x \<in> set zs. packet_ok x" and "trades_of D zs"
  shows "stream_accepted (trade_known D) zs"
  unfolding stream_accepted_def trade_known_def
proof (intro ballI impI allI)
  fix x m assume x: "x \<in> set zs" "carries x m" "msgType m = TRADE_MESSAGE"
  then have ok: "packet_ok x" and t: "packet_type x = TRADE_MESSAGE"
    using assms(1) carried_type by auto
  then obtain t where "x = TradePacket t" by (cases x) auto
  with x(1,2) ok assms(2) show "tok m \<in> D"
    by (auto simp: trades_of_def carried_trade)
qed

section \<open>The handler's invariant over the whole feed\<close>

text \<open>What the handler may be given of a list of datagrams, received into the buffer \<open>u\<close>.\<close>

fun acceptable_feed :: "(CompositeBcastMsg \<Rightarrow> bool) \<Rightarrow> BcastMsg \<Rightarrow> byte list list \<Rightarrow> bool" where
  "acceptable_feed P u [] = True"
| "acceptable_feed P u (d # ds) =
     ((d \<noteq> [] \<longrightarrow> (\<forall>t. P \<lparr>stBcastMsg = received d u, tv = t\<rparr>)) \<and> acceptable_feed P (received d u) ds)"

context message_sink
begin

lemma feed_handle_keeps:
  "reHandle Env = handle \<Longrightarrow> I (rwApp w) \<Longrightarrow> P m \<Longrightarrow> keeps E (feed_handle Env m w) (\<lambda>w1. I (rwApp w1))"
  using handle_ok [of "rwApp w" m]
  by (cases "handle m (rwApp w)") (simp_all add: feed_handle_def)

lemma feed_step_keeps:
  assumes h: "reHandle Env = handle" and srv: "serves P Env" and "Sigfpe \<in> E"
    and inv: "I (rwApp (fdWorld f))"
    and msg: "d \<noteq> [] \<longrightarrow> (\<forall>t. P \<lparr>stBcastMsg = received d (stBcastMsg (fdMsg f)), tv = t\<rparr>)"
  shows "keeps E (feed_step Env d f)
    (\<lambda>f1. I (rwApp (fdWorld f1)) \<and> stBcastMsg (fdMsg f1) = received d (stBcastMsg (fdMsg f)))"
proof (cases "d = []")
  case False
  define m where "m = \<lparr>stBcastMsg = received d (stBcastMsg (fdMsg f)), tv = reClock Env (rwTick (fdWorld f))\<rparr>"
  define w1 where "w1 = (fdWorld f)\<lparr>rwTick := Suc (rwTick (fdWorld f))\<rparr>"
  have m: "(fdMsg f)\<lparr>stBcastMsg := overlay (take sizeof_BcastMsg d) (stBcastMsg (fdMsg f)),
      tv := reClock Env (rwTick (fdWorld f))\<rparr> = m"
    using False by (cases "fdMsg f") (simp add: m_def received_def)
  have P: "P m" using msg False by (simp add: m_def)
  have w1: "I (rwApp w1)" using inv by (simp add: w1_def)
  have direct: "keeps E (feed_handle Env m w) (\<lambda>w2. I (rwApp w2))" if "I (rwApp w)" for w
    by (rule feed_handle_keeps [OF h that P])
  note gap = SplitRecovery_keeps [OF srv h wrap_in_range w1 assms(3)]
  have b: "received d (stBcastMsg (fdMsg f)) = overlay (take sizeof_BcastMsg d) (stBcastMsg (fdMsg f))"
    using False by (simp add: received_def)
  have "stBcastMsg m = received d (stBcastMsg (fdMsg f))" by (simp add: m_def)
  then show ?thesis
    using False inv w1
    by (auto simp: feed_step_def Let_def m w1_def [symmetric] b
      intro!: keeps_bindO [OF direct] keeps_bindO [OF gap])
qed (use inv in \<open>simp add: feed_step_def received_def\<close>)

lemma feed_run_keeps:
  assumes "reHandle Env = handle" and "serves P Env" and "Sigfpe \<in> E"
    and "I (rwApp (fdWorld f))" and "acceptable_feed P (stBcastMsg (fdMsg f)) ds"
  shows "keeps E (feed_run Env ds f) (\<lambda>f1. I (rwApp (fdWorld f1)))"
  using assms(4,5)
proof (induction ds arbitrary: f)
  case (Cons d ds)
  from Cons.prems(2) have
    "d \<noteq> [] \<longrightarrow> (\<forall>t. P \<lparr>stBcastMsg = received d (stBcastMsg (fdMsg f)), tv = t\<rparr>)" by simp
  from feed_step_keeps [OF assms(1-3) Cons.prems(1) this] show ?case
    unfolding feed_run.simps by (rule keeps_bindO) (use Cons in auto)
qed simp

end

text \<open>
  One recovery session whose trades are of contracts of the table leaves the handler in its
  invariant, or ends in the division trap of the handler.
\<close>

lemma recovery_keeps_handler_inv:
  assumes "reHandle Env = WriteDataInFile1 push"
    and "reSession Env (rwSession w) (request_of nFrom nTo w) = ss" and "connects ss"
    and "answer (ssRecv ss) = cs" and "stream_ok zs [] cs" and "trades_of D zs"
    and "handler_inv D (rwApp w)"
  shows "\<exists>r. RecoveryPackets Env nFrom nTo nCount nLast w = Some r \<and>
    wpost {Sigfpe} r (\<lambda>(code, n, l, w1). handler_inv D (rwApp w1) \<and> (code = 0 \<longleftrightarrow> nTo = last_seq zs nLast))"
proof -
  have "stream_accepted (trade_known D) zs"
    using assms(5,6) by (intro trades_of_accepted) (auto simp: stream_ok_def)
  from message_sink.session_keeps [OF handler.message_sink_axioms assms(1-5) this assms(7), of nCount nLast]
  show ?thesis by (auto elim!: wpost_mono)
qed

section \<open>Properties\<close>

text \<open>
  A datagram whose sequence number is not above the last one, or is zero, reaches neither the
  handler nor the recovery: only the buffer and the clock change.
\<close>

lemma stale_datagram_ignored:
  assumes "seq_of (received d (stBcastMsg (fdMsg f))) \<le> fdLastSeqNo f \<or>
      seq_of (received d (stBcastMsg (fdMsg f))) = 0"
  shows "\<exists>f1. feed_step E d f = Some (Inr f1) \<and> fdLastSeqNo f1 = fdLastSeqNo f \<and>
    rwApp (fdWorld f1) = rwApp (fdWorld f) \<and> rwSent (fdWorld f1) = rwSent (fdWorld f) \<and>
    rwMgr (fdWorld f1) = rwMgr (fdWorld f)"
  using assms by (auto simp: feed_step_def received_def msgSeqNo_seq_of Let_def)

definition sample_feed :: "int \<Rightarrow> int list feed" where
  "sample_feed q = \<lparr>fdMsg = packet_of [], fdLastSeqNo = q, fdWorld = sample_world 10 []\<rparr>"

lemma order_datagram:
  assumes "small q"
  shows "received (GENERIC_ORD_MSG_bytes (order_msg q)) u = overlay (GENERIC_ORD_MSG_bytes (order_msg q)) u"
    and "seq_of (received (GENERIC_ORD_MSG_bytes (order_msg q)) u) = q"
    and "trade_known D \<lparr>stBcastMsg = received (GENERIC_ORD_MSG_bytes (order_msg q)) u, tv = t\<rparr>"
proof -
  let ?d = "GENERIC_ORD_MSG_bytes (order_msg q)"
  have ok: "packet_ok (OrderPacket (order_msg q))"
    using order_msg_ok [OF assms] by (simp add: order_msg_def)
  have l: "length ?d = 38"
    using gom.length_enc [OF order_msg_ok [OF assms]] by (simp add: struct_sizes)
  then show r: "received ?d u = overlay ?d u"
    by (auto simp: received_def sizeof_BcastMsg_def)
  show "seq_of (received ?d u) = q"
    unfolding r
    using gom.dec_overlay [OF order_msg_ok [OF assms], of u] common_prefix(9) [of "overlay ?d u"]
    by (simp add: seq_of_def stGegenricOrdMsg_def order_msg_def)
  have "carries (OrderPacket (order_msg q)) \<lparr>stBcastMsg = received ?d u, tv = t\<rparr>"
    by (simp add: carries_def r overlay_def)
  from carried_type [OF ok this] show "trade_known D \<lparr>stBcastMsg = received ?d u, tv = t\<rparr>"
    by (simp add: trade_known_def order_msg_def)
qed

lemmas sample_seq = order_datagram(2)

text \<open>
  C11. Over any sequence of datagrams, with a server that answers every request in one session up
  to the last number asked for (from others a request is repeated for what is missing; that is C2), no
  sequence number is lost or taken twice: every number from the one after the last handled before up
  to the last handled after is either the number of a datagram that went to the handler or is asked for in
  exactly one recovery request, and exactly once. The loop comes to the end of the datagrams unless
  the handler ends the process.
\<close>

lemma feed_covers_sequence:
  assumes "prompt E" and "feed_ok f"
  shows "returns (feed_run E ds f) (\<lambda>f1. \<exists>rs. requested (fdWorld f) (fdWorld f1) rs \<and>
    fdLastSeqNo f1 = last (fdLastSeqNo f # accepted (stBcastMsg (fdMsg f)) (fdLastSeqNo f) ds) \<and>
    mset (accepted (stBcastMsg (fdMsg f)) (fdLastSeqNo f) ds @ concat (map (\<lambda>(a, b). [a..b]) rs)) =
      mset [fdLastSeqNo f + 1..fdLastSeqNo f1])"
  by (rule feed_run_prompt [OF assms])

lemma feed_covers_sequence_witness:
  "returns (feed_run sample_env (map (\<lambda>q. GENERIC_ORD_MSG_bytes (order_msg q)) [10, 5, 20]) (sample_feed 1))
    (\<lambda>f1. fdLastSeqNo f1 = 20)"
proof -
  have n: "GENERIC_ORD_MSG_bytes (order_msg q) \<noteq> []" for q
    by (simp add: GENERIC_ORD_MSG_bytes_def)
  have "feed_ok (sample_feed 1)"
    by (simp add: feed_ok_def sample_feed_def in_range_def sample_world_def CRecoveryMgr_new_def)
  from feed_covers_sequence [OF sample_prompt this, of "map (\<lambda>q. GENERIC_ORD_MSG_bytes (order_msg q)) [10, 5, 20]"]
  show ?thesis
    by (rule returns_mono) (auto simp: Let_def sample_seq n sample_feed_def)
qed

end
