(* ===== verification/Replay.thy ===== *)
theory Replay
  imports Feed
begin

text \<open>
  Recovery is transparent. The exchange has one history of messages; the multicast feed loses some
  of them, and the recovery server replays any part it is asked for, possibly in several sessions,
  some of them refused, cut short or broken off in the middle of a message. The handler is given every
  message of the history once and in order all the same; the end of the master data alone is not
  handed on by a session.
\<close>

section \<open>The history and the server that replays it\<close>

definition hist_ok :: "(int \<Rightarrow> packet) \<Rightarrow> bool" where
  "hist_ok hist \<longleftrightarrow> (\<forall>q. 0 \<le> q \<longrightarrow> in_range 32 q \<longrightarrow>
     packet_ok (hist q) \<and> \<not> is_response (hist q) \<and> packet_seq (hist q) = q)"

text \<open>
  A session that answers a request from \<open>a\<close> on, and closes or breaks off after the message \<open>b\<close>, possibly
  in the middle of the next one.
\<close>

definition plays :: "(int \<Rightarrow> packet) \<Rightarrow> session \<Rightarrow> int \<Rightarrow> int \<Rightarrow> bool" where
  "plays hist ss a b \<longleftrightarrow> connects ss \<and> (\<exists>resp.
     list_all is_response resp \<and> stream_ok (resp @ map hist [a..b]) [] (answer (ssRecv ss)))"

definition valid_request :: "RECOVERY_REQ \<Rightarrow> bool" where
  "valid_request r \<longleftrightarrow> 0 < nBegSeqNo r \<and> nBegSeqNo r \<le> nEndSeqNo r \<and> in_range 32 (nEndSeqNo r)"

text \<open>
  Every session is refused or replays a part of what it is asked for, which may be empty; again and
  again there is one that replays at least one message.
\<close>

definition archive :: "(int \<Rightarrow> packet) \<Rightarrow> 's recovery_env \<Rightarrow> bool" where
  "archive hist E \<longleftrightarrow> (\<forall>k r. valid_request r \<longrightarrow> connects (reSession E k r) \<longrightarrow>
     (\<exists>b. nBegSeqNo r - 1 \<le> b \<and> b \<le> nEndSeqNo r \<and> plays hist (reSession E k r) (nBegSeqNo r) b))"

definition productive :: "(int \<Rightarrow> packet) \<Rightarrow> 's recovery_env \<Rightarrow> nat \<Rightarrow> bool" where
  "productive hist E k \<longleftrightarrow> (\<forall>r. valid_request r \<longrightarrow>
     (\<exists>b. nBegSeqNo r \<le> b \<and> b \<le> nEndSeqNo r \<and> plays hist (reSession E k r) (nBegSeqNo r) b))"

definition fair :: "(int \<Rightarrow> packet) \<Rightarrow> 's recovery_env \<Rightarrow> bool" where
  "fair hist E \<longleftrightarrow> (\<forall>k. \<exists>d. productive hist E (k + d))"

text \<open>
  The handler has been given the messages numbered \<open>qs\<close>, each once and in this order. The end of the
  master data is the one message that a datagram brings to the handler and a recovery session does
  not.
\<close>

fun heard :: "(int \<Rightarrow> packet) \<Rightarrow> int list \<Rightarrow> CompositeBcastMsg list \<Rightarrow> bool" where
  "heard hist [] ms \<longleftrightarrow> ms = []"
| "heard hist (q # qs) ms \<longleftrightarrow>
     (\<exists>m ms1. ms = m # ms1 \<and> carries (hist q) m \<and> heard hist qs ms1) \<or> (\<not> is_handled (hist q) \<and> heard hist qs ms)"

lemma heard_append: "heard hist qs ms \<Longrightarrow> heard hist rs ns \<Longrightarrow> heard hist (qs @ rs) (ms @ ns)"
  by (induction qs arbitrary: ms) fastforce+

lemma heard_delivered: "delivered (map hist qs) ms \<Longrightarrow> heard hist qs ms"
proof (induction qs arbitrary: ms)
  case (Cons q qs)
  then show ?case
    by (cases "is_handled (hist q)") (fastforce simp: delivered_def list_all2_Cons1)+
qed (simp add: delivered_def)

text \<open>Without an end of master data these are the messages one by one.\<close>

lemma heard_all: "\<forall>q \<in> set qs. is_handled (hist q) \<Longrightarrow> heard hist qs ms \<longleftrightarrow> list_all2 (\<lambda>q m. carries (hist q) m) qs ms"
  by (induction qs arbitrary: ms) (auto simp: list_all2_Cons1)

definition fed :: "(int \<Rightarrow> packet) \<Rightarrow> 's recovery_env \<Rightarrow> int list \<Rightarrow> 's recovery_world \<Rightarrow> 's recovery_world \<Rightarrow> bool" where
  "fed hist E qs w w1 \<longleftrightarrow> m_nMaxPacketCount (rwMgr w1) = m_nMaxPacketCount (rwMgr w) \<and>
     (\<exists>ms. heard hist qs ms \<and> foldR (reHandle E) ms (rwApp w) = Inr (rwApp w1))"

lemma fed_trans: "fed hist E qs w w1 \<Longrightarrow> fed hist E rs w1 w2 \<Longrightarrow> fed hist E (qs @ rs) w w2"
  unfolding fed_def
  by (elim conjE exE, intro conjI exI [of _ "ms @ ns" for ms ns]) (auto simp: foldR_append intro: heard_append)

lemma fed_nil: "rwApp w1 = rwApp w \<Longrightarrow> m_nMaxPacketCount (rwMgr w1) = m_nMaxPacketCount (rwMgr w) \<Longrightarrow>
    fed hist E [] w w1"
  by (simp add: fed_def)

section \<open>One session\<close>

lemma response_not_handled: "is_response x \<Longrightarrow> \<not> is_handled x"
  by (cases x) simp_all

lemma hist_range:
  assumes "hist_ok hist" and "0 \<le> a" and "in_range 32 b" and "q \<in> set [a..b]"
  shows "\<not> is_response (hist q)" and "packet_seq (hist q) = q"
  using assms by (auto simp: hist_ok_def in_range_def)

lemma replay_counts:
  assumes "hist_ok hist" and "0 < a" and "in_range 32 b" and "a \<le> b + 1" and "list_all is_response resp"
  shows "delivered (resp @ map hist [a..b]) ms \<longleftrightarrow> delivered (map hist [a..b]) ms"
    and "last_seq (resp @ map hist [a..b]) q = (if a \<le> b then b else q)"
    and "recount (resp @ map hist [a..b]) 0 = b - a + 1"
proof -
  note h = hist_range [OF assms(1) less_imp_le [OF assms(2)] assms(3)]
  have resp: "filter is_handled resp = []" "last_seq resp x = x" "recount resp c = c" for x c
    using assms(5) by (induction resp) (auto simp: response_not_handled)
  have "last_seq (map hist qs) q = (if qs = [] then q else last qs)" if "set qs \<subseteq> set [a..b]" for qs q
    using that by (induction qs arbitrary: q) (auto simp: h)
  then show "last_seq (resp @ map hist [a..b]) q = (if a \<le> b then b else q)"
    by (simp add: resp) (simp add: upto_rec2)
  have "recount (map hist qs) c = c + int (length qs)"
    if "set qs \<subseteq> set [a..b]" "0 \<le> c" "c + int (length qs) < 2 ^ 31" for qs c
    using that
  proof (induction qs arbitrary: c)
    case (Cons q qs)
    then have "wrap32 (c + 1) = c + 1" by (intro wrap_id) (simp_all add: in_range_def)
    with Cons show ?case by (simp add: h)
  qed simp
  from this [of "[a..b]" 0] show "recount (resp @ map hist [a..b]) 0 = b - a + 1"
    using assms(2-4) by (simp add: resp in_range_def)
  show "delivered (resp @ map hist [a..b]) ms \<longleftrightarrow> delivered (map hist [a..b]) ms"
    by (simp add: delivered_def resp)
qed

lemma session_archive:
  assumes "hist_ok hist" and "archive hist E" and "0 < a" and "a \<le> nTo" and "in_range 32 nTo" and "nLast \<noteq> nTo"
  shows "\<exists>b. a - 1 \<le> b \<and> b \<le> nTo \<and> (productive hist E (rwSession w) \<longrightarrow> a \<le> b) \<and>
    returns (RecoveryPackets E a nTo 0 nLast w) (\<lambda>(r, n, l, w1). n = b - a + 1 \<and> l = (if a \<le> b then b else nLast) \<and>
      r = (if l = nTo then 0 else - 1) \<and> fed hist E [a..b] w w1 \<and> rwSession w1 = rwSession w + 1)"
proof -
  let ?r = "request_of a nTo w"
  let ?ss = "reSession E (rwSession w) ?r"
  have valid: "valid_request ?r" using assms(3-5) by (simp add: valid_request_def)
  show ?thesis
  proof (cases "connects ?ss")
    case True
    obtain b where b: "a - 1 \<le> b" "b \<le> nTo" and p: "plays hist ?ss a b"
        and prog: "productive hist E (rwSession w) \<longrightarrow> a \<le> b"
    proof (cases "productive hist E (rwSession w)")
      case prod: True
      with valid obtain b where "nBegSeqNo ?r \<le> b" "b \<le> nEndSeqNo ?r" "plays hist ?ss (nBegSeqNo ?r) b"
        unfolding productive_def by blast
      then show thesis by (intro that impI) simp_all
    next
      case False
      from valid True assms(2) obtain b where "nBegSeqNo ?r - 1 \<le> b" "b \<le> nEndSeqNo ?r" "plays hist ?ss (nBegSeqNo ?r) b"
        unfolding archive_def by blast
      with False show thesis by (intro that) simp_all
    qed
    from p obtain resp where cs: "stream_ok (resp @ map hist [a..b]) [] (answer (ssRecv ?ss))"
        "list_all is_response resp" unfolding plays_def by blast
    have "in_range 32 b" using b assms(3,5) by (simp add: in_range_def)
    note cnt = replay_counts [OF assms(1,3) this _ cs(2)]
    obtain ms w1 where r: "delivered (resp @ map hist [a..b]) ms" "rwSession w1 = rwSession w + 1"
        "m_nMaxPacketCount (rwMgr w1) = m_nMaxPacketCount (rwMgr w)"
        "RecoveryPackets E a nTo 0 nLast w = bindO (Some (foldR (reHandle E) ms (rwApp w))) (\<lambda>s.
          Some (Inr (if nTo = last_seq (resp @ map hist [a..b]) nLast then 0 else - 1,
            recount (resp @ map hist [a..b]) 0, last_seq (resp @ map hist [a..b]) nLast, w1\<lparr>rwApp := s\<rparr>)))"
      using RecoveryPackets_stream [OF HOL.refl True HOL.refl cs(1), of 0 nLast] by blast
    have "heard hist [a..b] ms"
      using r(1) cnt(1) b(1) by (simp add: heard_delivered)
    then show ?thesis
      using b prog cnt(2,3) r(2,3)
      by (intro exI [of _ b]) (cases "foldR (reHandle E) ms (rwApp w)"; auto simp: r(4) fed_def)
  next
    case False
    then have "\<exists>w1. RecoveryPackets E a nTo 0 nLast w = Some (Inr (- 1, 0, nLast, w1)) \<and> rwApp w1 = rwApp w \<and>
        rwSession w1 = rwSession w + 1 \<and> m_nMaxPacketCount (rwMgr w1) = m_nMaxPacketCount (rwMgr w)"
      by (auto simp: RecoveryPackets_def connects_def CreateSocket_def ConnectServer_def Let_def set_request_def
        close_socket_def split: prod.split)
    moreover have "\<not> productive hist E (rwSession w)"
      using False valid unfolding productive_def plays_def by blast
    ultimately show ?thesis
      using assms(4,6) by (intro exI [of _ "a - 1"]) (auto intro: fed_nil)
  qed
qed

section \<open>One request, and a gap\<close>

lemma force_loop_archive:
  assumes H: "hist_ok hist" and A: "archive hist E" and F: "fair hist E"
    and nFrom: "0 < nFrom" and nTo: "in_range 32 nTo"
    and "0 \<le> nCount" and "nFrom + nCount \<le> nTo + 1" and "nLast = nTo \<longleftrightarrow> nFrom + nCount = nTo + 1"
  shows "returns (force_loop E nFrom nTo nCount nLast w) (\<lambda>(n, l, w1). l = nTo \<and> fed hist E [nFrom + nCount..nTo] w w1)"
  using assms(6-8)
proof (induction "nat (nTo + 1 - nFrom - nCount)" arbitrary: nCount nLast w rule: less_induct)
  case less
  let ?S = "\<lambda>nCount w (n, l, w1). l = nTo \<and> fed hist E [nFrom + nCount..nTo] w w1"
  have fin: "returns (force_loop E nFrom nTo nCount nLast w) (?S nCount w)" if "nLast = nTo" for w
    using that less.prems(3) by (subst force_loop.simps) (simp add: fed_nil)
  have inner: "returns (force_loop E nFrom nTo nCount nLast w) (?S nCount w)"
    if "productive hist E (rwSession w + d)" and last: "nLast \<noteq> nTo" for d w
    using that(1)
  proof (induction d arbitrary: w rule: less_induct)
    case inner: (less d)
    let ?a = "nFrom + nCount"
    have a: "0 < ?a" "?a \<le> nTo" "wrap32 ?a = ?a"
      using less.prems last nFrom nTo by (auto simp: in_range_def intro!: wrap_id)
    obtain b where b: "?a - 1 \<le> b" "b \<le> nTo" "productive hist E (rwSession w) \<longrightarrow> ?a \<le> b"
        and r: "returns (RecoveryPackets E ?a nTo 0 nLast w) (\<lambda>(r, n, l, w1). n = b - ?a + 1 \<and>
          l = (if ?a \<le> b then b else nLast) \<and> r = (if l = nTo then 0 else - 1) \<and>
          fed hist E [?a..b] w w1 \<and> rwSession w1 = rwSession w + 1)"
      using session_archive [OF H A a(1,2) nTo last, of w] by blast
    have cnt: "wrap32 (nCount + (b - ?a + 1)) = nCount + (b - ?a + 1)"
      using b(1,2) less.prems(1) nFrom nTo by (intro wrap_id) (auto simp: in_range_def)
    have rest: "returns (force_loop E nFrom nTo (nCount + (b - ?a + 1)) (if ?a \<le> b then b else nLast) w1) (?S nCount w)"
      if l: "(if ?a \<le> b then b else nLast) \<noteq> nTo" and w1: "fed hist E [?a..b] w w1" "rwSession w1 = rwSession w + 1" for w1
    proof (cases "?a \<le> b")
      case True
      have "returns (force_loop E nFrom nTo (nCount + (b - ?a + 1)) b w1) (?S (nCount + (b - ?a + 1)) w1)"
        using True b l less.prems(1) by (intro less.hyps) auto
      then show ?thesis
        using True b fed_trans [OF w1(1)] upto_split2 [of ?a b nTo]
        by (simp, elim returns_mono) (auto simp: algebra_simps)
    next
      case False
      with b have ab: "b = ?a - 1" by simp
      from b(3) False obtain d1 where d1: "d = Suc d1" using inner.prems by (cases d) auto
      with inner.prems w1(2) have "productive hist E (rwSession w1 + d1)" by simp
      from inner.IH [OF _ this] d1 have "returns (force_loop E nFrom nTo nCount nLast w1) (?S nCount w1)" by simp
      then show ?thesis
        using False ab fed_trans [OF w1(1)] by (simp, elim returns_mono) auto
    qed
    have "returns (bindO (RecoveryPackets E ?a nTo 0 nLast w) (\<lambda>(r, n, l, w1).
        if r = 0 then Some (Inr (wrap32 (nCount + n), l, w1)) else force_loop E nFrom nTo (wrap32 (nCount + n)) l w1))
      (?S nCount w)"
      by (rule returns_bindO [OF r]) (use rest cnt last in \<open>auto split: if_splits\<close>)
    then show ?case
      using last by (subst force_loop.simps) (simp add: a(3))
  qed
  from F obtain d where "productive hist E (rwSession w + d)" unfolding fair_def by blast
  with fin inner show ?case by blast
qed

definition replayed :: "(int \<Rightarrow> packet) \<Rightarrow> 's recovery_env \<Rightarrow> (int \<times> int) list \<Rightarrow> 's recovery_world \<Rightarrow> 's recovery_world \<Rightarrow> bool" where
  "replayed hist E rs w w1 \<longleftrightarrow> fed hist E (concat (map (\<lambda>(a, b). [a..b]) rs)) w w1"

lemma request_range_archive:
  assumes "hist_ok hist" and "archive hist E" and "fair hist E" and "0 < a" and "a \<le> nTo" and "in_range 32 nTo"
  shows "returns (request_range E a nTo w) (\<lambda>(l, w1). l = nTo \<and> fed hist E [a..nTo] w w1)"
proof -
  have "0 \<noteq> nTo" using assms(4,5) by simp
  from session_archive [OF assms(1,2,4-6) this, of w] obtain b where b: "a - 1 \<le> b" "b \<le> nTo" and
      r: "returns (RecoveryPackets E a nTo 0 0 w) (\<lambda>(r, n, l, w1). n = b - a + 1 \<and> l = (if a \<le> b then b else 0) \<and>
        r = (if l = nTo then 0 else - 1) \<and> fed hist E [a..b] w w1 \<and> rwSession w1 = rwSession w + 1)"
    by blast
  have retry: "returns (ForceRecoveryPackets E a nTo (b - a + 1) l w1) (\<lambda>(_, _, l1, w2). l1 = nTo \<and> fed hist E [a..nTo] w w2)"
    if w1: "fed hist E [a..b] w w1" and l: "l = (if a \<le> b then b else 0)" for l w1
  proof -
    have all: "[a..b] @ [a + (b - a + 1)..nTo] = [a..nTo]"
    proof (cases "a \<le> b")
      case False
      with b(1) have "b = a - 1" by simp
      then show ?thesis by simp
    qed (use b upto_split2 [of a b nTo] in simp)
    have "returns (force_loop E a nTo (b - a + 1) l w1) (\<lambda>(n, l1, w2). l1 = nTo \<and> fed hist E [a + (b - a + 1)..nTo] w1 w2)"
      using b l assms(4,5) by (intro force_loop_archive [OF assms(1-4,6)]) auto
    then have "returns (force_loop E a nTo (b - a + 1) l w1) (\<lambda>(n, l1, w2). l1 = nTo \<and> fed hist E [a..nTo] w w2)"
      by (rule returns_mono) (use fed_trans [OF w1, of "[a + (b - a + 1)..nTo]"] in \<open>auto simp only: all\<close>)
    then show ?thesis
      using assms(5) by (auto simp: ForceRecoveryPackets_def intro!: returns_bindO)
  qed
  show ?thesis
    unfolding request_range_def
    by (rule returns_bindO [OF r]) (use assms(4,5) b in \<open>auto intro!: returns_bindO [OF retry] split: if_splits\<close>)
qed

lemma replay_spec:
  assumes "hist_ok hist" and "archive hist E" and "fair hist E"
  shows "request_spec 1 (replayed hist E) E"
  unfolding request_spec_def
proof (intro conjI allI impI)
  fix a b w
  assume "1 \<le> a" "a \<le> b" "in_range 32 b"
  then show "returns (request_range E a b w) (\<lambda>(l, w1). l = b \<and> replayed hist E [(a, b)] w w1)"
    using request_range_archive [OF assms, of a b w] by (simp add: replayed_def)
next
  show "replayed hist E rs w w1 \<Longrightarrow> m_nMaxPacketCount (rwMgr w1) = m_nMaxPacketCount (rwMgr w)" for rs w w1
    by (simp add: replayed_def fed_def)
next
  show "replayed hist E rs w w1 \<Longrightarrow> replayed hist E rs1 w1 w2 \<Longrightarrow> replayed hist E (rs @ rs1) w w2" for rs rs1 w w1 w2
    by (simp add: replayed_def fed_trans)
qed

section \<open>The feed\<close>

text \<open>A datagram of the history, received over the message before it.\<close>

lemma history_datagram:
  assumes "hist_ok hist" and "0 \<le> q" and "in_range 32 q" and "d = packet_bytes (hist q)"
  shows "seq_of (received d u) = q" and "carries (hist q) \<lparr>stBcastMsg = received d u, tv = t\<rparr>" and "d \<noteq> []"
proof -
  have ok: "packet_ok (hist q)" "packet_seq (hist q) = q" using assms(1-3) by (auto simp: hist_ok_def)
  have r: "received d u = d @ drop (length d) u"
    using packet_length [OF ok(1)] assms(4) by (auto simp: received_def overlay_def sizeof_BcastMsg_def)
  then show "seq_of (received d u) = q" "carries (hist q) \<lparr>stBcastMsg = received d u, tv = t\<rparr>" "d \<noteq> []"
    using packet_view(2) [OF ok(1), of "drop (length d) u"] packet_length [OF ok(1)] ok(2) assms(4)
    by (auto simp: seq_of_def stHeader_def carries_def sizeof_MSG_HEADER_def)
qed

definition feed_of :: "(int \<Rightarrow> packet) \<Rightarrow> byte list list \<Rightarrow> bool" where
  "feed_of hist ds \<longleftrightarrow> (\<forall>d \<in> set ds. d = [] \<or> (\<exists>q. 0 \<le> q \<and> in_range 32 q \<and> d = packet_bytes (hist q)))"

lemma feed_step_replay:
  assumes "hist_ok hist" and "archive hist E" and "fair hist E" and "feed_ok f"
    and d: "d = [] \<or> (\<exists>q. 0 \<le> q \<and> in_range 32 q \<and> d = packet_bytes (hist q))"
  shows "returns (feed_step E d f) (\<lambda>f1. feed_ok f1 \<and> fdLastSeqNo f \<le> fdLastSeqNo f1 \<and>
    (\<forall>q. 0 \<le> q \<and> in_range 32 q \<and> d = packet_bytes (hist q) \<longrightarrow> q \<le> fdLastSeqNo f1) \<and>
    fed hist E [fdLastSeqNo f + 1..fdLastSeqNo f1] (fdWorld f) (fdWorld f1))"
proof -
  let ?u = "received d (stBcastMsg (fdMsg f))"
  define H where "H w w1 \<longleftrightarrow> m_nMaxPacketCount (rwMgr w1) = m_nMaxPacketCount (rwMgr w) \<and>
    (d \<noteq> [] \<longrightarrow> fed hist E [seq_of ?u] w w1)" for w w1
  have H: "returns (feed_handle E \<lparr>stBcastMsg = ?u, tv = t\<rparr> w) (H w)" for t w
    using d history_datagram [OF assms(1)]
    by (cases "reHandle E \<lparr>stBcastMsg = ?u, tv = t\<rparr> (rwApp w)") (auto simp: feed_handle_def H_def fed_def
      intro!: exI [of _ "[\<lparr>stBcastMsg = ?u, tv = t\<rparr>]"])
  have tick: "replayed hist E [] w (w\<lparr>rwTick := t\<rparr>)" for w t
    by (simp add: replayed_def fed_nil)
  have mx: "H w w1 \<Longrightarrow> m_nMaxPacketCount (rwMgr w1) = m_nMaxPacketCount (rwMgr w)" for w w1
    by (simp add: H_def)
  note spec = feed_step_spec [OF replay_spec [OF assms(1-3)] tick assms(4) HOL.refl H mx]
  show ?thesis
  proof (rule returns_mono [OF spec])
    fix f1
    assume a: "feed_ok f1 \<and> stBcastMsg (fdMsg f1) = ?u \<and>
      (if d \<noteq> [] \<and> fdLastSeqNo f < seq_of ?u
       then fdLastSeqNo f1 = seq_of ?u \<and> (\<exists>rs w2. replayed hist E rs (fdWorld f) w2 \<and> H w2 (fdWorld f1) \<and>
         concat (map (\<lambda>(a, b). [a..b]) rs) = [fdLastSeqNo f + 1..seq_of ?u - 1])
       else fdLastSeqNo f1 = fdLastSeqNo f \<and> (\<exists>t. fdWorld f1 = (fdWorld f)\<lparr>rwTick := t\<rparr>))"
    have seq: "d \<noteq> [] \<and> seq_of ?u = q" if "0 \<le> q \<and> in_range 32 q \<and> d = packet_bytes (hist q)" for q
      using history_datagram [OF assms(1)] that by blast
    show "feed_ok f1 \<and> fdLastSeqNo f \<le> fdLastSeqNo f1 \<and>
      (\<forall>q. 0 \<le> q \<and> in_range 32 q \<and> d = packet_bytes (hist q) \<longrightarrow> q \<le> fdLastSeqNo f1) \<and>
      fed hist E [fdLastSeqNo f + 1..fdLastSeqNo f1] (fdWorld f) (fdWorld f1)"
    proof (cases "d \<noteq> [] \<and> fdLastSeqNo f < seq_of ?u")
      case True
      with a obtain rs w2 where "replayed hist E rs (fdWorld f) w2" "fed hist E [seq_of ?u] w2 (fdWorld f1)"
          "concat (map (\<lambda>(a, b). [a..b]) rs) = [fdLastSeqNo f + 1..seq_of ?u - 1]"
        by (auto simp: H_def)
      then have "fed hist E ([fdLastSeqNo f + 1..seq_of ?u - 1] @ [seq_of ?u]) (fdWorld f) (fdWorld f1)"
        by (intro fed_trans) (simp_all add: replayed_def)
      with True a seq show ?thesis by (auto simp: upto_rec2)
    next
      case False
      with a seq show ?thesis by (fastforce intro: fed_nil)
    qed
  qed
qed

lemma feed_run_replay:
  assumes "hist_ok hist" and "archive hist E" and "fair hist E" and "feed_ok f" and "feed_of hist ds"
  shows "returns (feed_run E ds f) (\<lambda>f1. feed_ok f1 \<and> fdLastSeqNo f \<le> fdLastSeqNo f1 \<and>
    (\<forall>q. 0 \<le> q \<and> in_range 32 q \<and> packet_bytes (hist q) \<in> set ds \<longrightarrow> q \<le> fdLastSeqNo f1) \<and>
    fed hist E [fdLastSeqNo f + 1..fdLastSeqNo f1] (fdWorld f) (fdWorld f1))"
  using assms(4,5)
proof (induction ds arbitrary: f)
  case (Cons d ds)
  from Cons.prems(2) have d: "d = [] \<or> (\<exists>q. 0 \<le> q \<and> in_range 32 q \<and> d = packet_bytes (hist q))" and ds: "feed_of hist ds"
    by (auto simp: feed_of_def)
  show ?case
    unfolding feed_run.simps
  proof (rule returns_bindO [OF feed_step_replay [OF assms(1-3) Cons.prems(1) d]])
    fix f1 assume f1: "feed_ok f1 \<and> fdLastSeqNo f \<le> fdLastSeqNo f1 \<and>
      (\<forall>q. 0 \<le> q \<and> in_range 32 q \<and> d = packet_bytes (hist q) \<longrightarrow> q \<le> fdLastSeqNo f1) \<and>
      fed hist E [fdLastSeqNo f + 1..fdLastSeqNo f1] (fdWorld f) (fdWorld f1)"
    then have fok: "feed_ok f1" by blast
    show "returns (feed_run E ds f1) (\<lambda>f2. feed_ok f2 \<and> fdLastSeqNo f \<le> fdLastSeqNo f2 \<and>
        (\<forall>q. 0 \<le> q \<and> in_range 32 q \<and> packet_bytes (hist q) \<in> set (d # ds) \<longrightarrow> q \<le> fdLastSeqNo f2) \<and>
        fed hist E [fdLastSeqNo f + 1..fdLastSeqNo f2] (fdWorld f) (fdWorld f2))"
    proof (rule returns_mono [OF Cons.IH [OF fok ds]])
      fix f2 assume f2: "feed_ok f2 \<and> fdLastSeqNo f1 \<le> fdLastSeqNo f2 \<and>
        (\<forall>q. 0 \<le> q \<and> in_range 32 q \<and> packet_bytes (hist q) \<in> set ds \<longrightarrow> q \<le> fdLastSeqNo f2) \<and>
        fed hist E [fdLastSeqNo f1 + 1..fdLastSeqNo f2] (fdWorld f1) (fdWorld f2)"
      have "fed hist E ([fdLastSeqNo f + 1..fdLastSeqNo f1] @ [fdLastSeqNo f1 + 1..fdLastSeqNo f2]) (fdWorld f) (fdWorld f2)"
        using f1 f2 by (intro fed_trans) auto
      moreover have "[fdLastSeqNo f + 1..fdLastSeqNo f1] @ [fdLastSeqNo f1 + 1..fdLastSeqNo f2] =
          [fdLastSeqNo f + 1..fdLastSeqNo f2]"
        using f1 f2 upto_split2 [of "fdLastSeqNo f + 1" "fdLastSeqNo f1" "fdLastSeqNo f2"]
        by (cases "fdLastSeqNo f = fdLastSeqNo f1") auto
      moreover have "q \<le> fdLastSeqNo f2" if "0 \<le> q" "in_range 32 q" "packet_bytes (hist q) \<in> set (d # ds)" for q
        using that f1 f2 order_trans [of q "fdLastSeqNo f1" "fdLastSeqNo f2"] by auto
      ultimately show "feed_ok f2 \<and> fdLastSeqNo f \<le> fdLastSeqNo f2 \<and>
          (\<forall>q. 0 \<le> q \<and> in_range 32 q \<and> packet_bytes (hist q) \<in> set (d # ds) \<longrightarrow> q \<le> fdLastSeqNo f2) \<and>
          fed hist E [fdLastSeqNo f + 1..fdLastSeqNo f2] (fdWorld f) (fdWorld f2)"
        using f1 f2 by auto
    qed
  qed
qed (simp add: fed_nil)

section \<open>A server that replays a history\<close>

definition order_hist :: "int \<Rightarrow> packet" where
  "order_hist q = OrderPacket (order_msg q)"

definition replay_session :: "(int \<Rightarrow> packet) \<Rightarrow> int \<Rightarrow> int \<Rightarrow> session" where
  "replay_session hist a b = \<lparr>ssSocket = 3, ssConnect = 0, ssSend = 11,
     ssRecv = [Some (packets_bytes (Response sample_response # map hist [a..b]))]\<rparr>"

lemma order_hist_ok: "hist_ok order_hist"
  using order_msg_ok by (simp add: hist_ok_def order_hist_def small_in_range order_msg_def)

lemma replay_session_plays:
  assumes "hist_ok hist" and "0 < a" and "in_range 32 b"
  shows "plays hist (replay_session hist a b) a b"
proof -
  let ?zs = "Response sample_response # map hist [a..b]"
  have r: "RECOVERY_RESP_ok sample_response"
    by (simp add: RECOVERY_RESP_ok_def sample_response_def STREAM_HEADER_ok_def in_range_def)
  then have resp: "packet_ok (Response sample_response)" by (simp add: sample_response_def)
  have "packet_ok x \<and> \<not> is_response x" if "x \<in> hist ` set [a..b]" for x
    using that assms by (auto simp: hist_ok_def in_range_def)
  then have "\<forall>x \<in> set (map hist [a..b]). packet_ok x \<and> \<not> is_response x" by auto
  moreover have l: "length (RECOVERY_RESP_bytes sample_response) = 10"
    using rr.length_enc [OF r] by (simp add: struct_sizes)
  ultimately have "stream_ok ?zs [] [packets_bytes ?zs]"
    using resp by (intro stream_okI) (auto simp: struct_sizes)
  moreover have "packets_bytes ?zs \<noteq> []" using l by auto
  ultimately show ?thesis
    by (auto simp: plays_def replay_session_def connects_def intro!: exI [of _ "[Response sample_response]"])
qed

end
