(* ===== verification/Payload.thy ===== *)
theory Payload
  imports ConRev
begin

text \<open>
  What the handler looks at. Of a stored message the functions of \<open>Trades\<close>, \<open>Split\<close> and \<open>ConRev\<close>
  use the trade alone, not the bytes of the union around it nor the time it was received; of a
  contract they use its type, expiry, strike, lot size and symbol, not the lots traded so far. The
  locale states this as naturality: every function commutes with a change of the messages and of
  the contracts that keeps these parts.
\<close>

section \<open>Results under a map\<close>

definition mapR :: "('a \<Rightarrow> 'b) \<Rightarrow> 'a res \<Rightarrow> 'b res" where
  "mapR f r = (case r of Inl e \<Rightarrow> Inl e | Inr x \<Rightarrow> Inr (f x))"

named_theorems natural \<open>an operation commutes with the change of messages and contracts\<close>

lemma mapR_simps [simp]: "mapR f (Inl e) = Inl e" "mapR f (Inr x) = Inr (f x)"
  by (simp_all add: mapR_def)

lemma bindR_mapR: "bindR (mapR f r) k = bindR r (\<lambda>x. k (f x))"
  by (cases r) simp_all

lemma mapR_bindR: "mapR f (bindR r k) = bindR r (\<lambda>x. mapR f (k x))"
  by (cases r) simp_all

lemma mapR_if: "mapR f (if b then r else r') = (if b then mapR f r else mapR f r')"
  by simp

lemma deref_map: "deref (map_option g p) = mapR g (deref p)" "deref_itr (map_option g p) = mapR g (deref_itr p)"
  by (cases p; simp)+

lemma vec_get_map: "vec_get (map h v) k = mapR h (vec_get v k)"
  by (simp add: vec_get_def)

lemmas mapR_norm = bindR_mapR mapR_bindR mapR_if deref_map vec_get_map

text \<open>A loop over changed elements with changed locals.\<close>

lemma foldR_natural:
  "(\<And>x s. f' (h x) (k s) = mapR k (f x s)) \<Longrightarrow> foldR f' (map h xs) (k s) = mapR k (foldR f xs s)"
  by (induction xs arbitrary: s) (simp_all add: mapR_norm)

lemma foldR_same:
  "(\<And>x s. f' (h x) s = f x s) \<Longrightarrow> foldR f' (map h xs) s = foldR f xs s"
  by (induction xs arbitrary: s) (simp_all cong: bindR_cong)

definition view :: "(OMSScripInfo \<Rightarrow> OMSScripInfo) \<Rightarrow> TOKENDATA_STORE \<Rightarrow> TOKENDATA_STORE" where
  "view g tbl t = map_option g (tbl t)"

lemma find_into_view: "find_into (view g tbl) t (map_option g p) = map_option g (find_into tbl t p)"
  by (simp add: find_into_def view_def split: option.split)

lemma find_into_view_None: "find_into (view g tbl) t None = map_option g (find_into tbl t None)"
  using find_into_view [of g tbl t None] by simp

section \<open>Changes that keep the trade and the contract\<close>

locale payload =
  fixes h :: "CompositeBcastMsg \<Rightarrow> CompositeBcastMsg" and g :: "OMSScripInfo \<Rightarrow> OMSScripInfo"
  assumes trd_h: "trd (h m) = trd m"
    and g_type: "nCustomInstrumentType (g i) = nCustomInstrumentType i"
    and g_expiry: "nExpiryDate (g i) = nExpiryDate i"
    and g_strike: "OMSScripInfo.nStrikePrice (g i) = OMSScripInfo.nStrikePrice i"
    and g_lot: "nBoardLotQty (g i) = nBoardLotQty i"
    and g_symbol: "OMSScripInfo.cSymbol (g i) = OMSScripInfo.cSymbol i"
begin

lemma fields: "tok (h m) = tok m" "qty (h m) = qty m" "buyId (h m) = buyId m" "sellId (h m) = sellId m"
    "not_one_sided (h m) = not_one_sided m" "side_of (h m) = side_of m" "seqNo (h m) = seqNo m"
  by (simp_all add: tok_def qty_def buyId_def sellId_def not_one_sided_def side_of_def seqNo_def trd_h fun_eq_iff)

lemmas infos = g_type g_expiry g_strike g_lot g_symbol

lemma legs: "side_leg (g i) (h m) = side_leg i m" "conrev_leg (g i) (h m) = conrev_leg i m"
    "detail_leg (g i) (h m) = detail_leg i m" "middle_leg (g i) (h m) = middle_leg i m"
    "trade_value (g i) (h m) = trade_value i m" "leg_returns (g i) = leg_returns i"
    "uncount (g i) (h m) = uncount i m"
  by (simp_all only: side_leg_def conrev_leg_def detail_leg_def middle_leg_def trade_value_def
    leg_returns_def uncount_def fun_eq_iff fields infos trd_h refl simp_thms)

lemmas parts = fields infos legs find_into_view find_into_view_None mapR_norm

subsection \<open>Trades\<close>

lemma token_status_natural [natural]: "token_status (view g tbl) ts = token_status tbl ts"
proof -
  have "token_scan_leg (g i) s = token_scan_leg i s" for i s
    by (simp add: token_scan_leg_def infos)
  then have "token_scan_step (view g tbl) = token_scan_step tbl"
    by (simp add: token_scan_step_def view_def fun_eq_iff split: option.split)
  then show ?thesis by (simp add: token_status_def)
qed

lemma side_step_natural: "side_step (view g tbl) (h m) s = side_step tbl m s"
  by (simp add: side_step_def parts)

lemma ValidateTradeMsgRecords_natural [natural]:
  "ValidateTradeMsgRecords (map h store) ts (view g tbl) = ValidateTradeMsgRecords store ts tbl"
proof -
  have "validate_loop (view g tbl) (map h store) st (map h ms) s = validate_loop tbl store st ms s" for st ms s
    by (induction ms arbitrary: s)
      (simp_all add: side_step_natural foldR_same [of "side_step (view g tbl)" h "side_step tbl", OF side_step_natural] cong: bindR_cong if_cong)
  then show ?thesis by (simp add: ValidateTradeMsgRecords_def token_status_natural)
qed

lemma IsValidateConRev_natural [natural]: "IsValidateConRev (map h v) (view g tbl) = IsValidateConRev v tbl"
proof -
  have "conrev_loop (view g tbl) (map h v) s = conrev_loop tbl v s" for s
    by (induction v arbitrary: s) (simp_all add: parts cong: bindR_cong option.case_cong)
  then show ?thesis by (simp add: IsValidateConRev_def)
qed

lemma DeletePacketTillExpiryDate_natural [natural]:
  "DeletePacketTillExpiryDate (map h v) (view g tbl) e = mapR (map h) (DeletePacketTillExpiryDate v tbl e)"
proof -
  have scan: "expiry_scan (view g tbl) e (map_option g p) (map h v) = mapR (map h) (expiry_scan tbl e p v)" for p v
    by (induction v arbitrary: p) (simp_all add: parts Let_def cong: bindR_cong if_cong)
  have "expiry_rounds (view g tbl) e n (map h v) = mapR (map h) (expiry_rounds tbl e n v)" for n
    using scan [of None]
    by (induction n arbitrary: v) (simp_all add: parts cong: bindR_cong)
  then show ?thesis by (simp add: DeletePacketTillExpiryDate_def)
qed

lemma DeletePacketTillStrikePrice_natural [natural]:
  "DeletePacketTillStrikePrice (map h v) (view g tbl) k = mapR (map h) (DeletePacketTillStrikePrice v tbl k)"
proof -
  have scan: "strike_scan (view g tbl) k (map_option g p) (map h v) = mapR (map_prod id (map h)) (strike_scan tbl k p v)" for p v
    by (induction v arbitrary: p) (simp_all add: parts Let_def split_def cong: bindR_cong if_cong)
  have "strike_rounds (view g tbl) k n (map h v) = mapR (map h) (strike_rounds tbl k n v)" for n
    using scan [of None]
    by (induction n arbitrary: v) (simp_all add: parts split_def cong: bindR_cong if_cong)
  then show ?thesis by (simp add: DeletePacketTillStrikePrice_def)
qed

lemma SecondLevelOrderValidation_natural [natural]:
  "SecondLevelOrderValidation ty (map h v) (view g tbl) = mapR (map h) (SecondLevelOrderValidation ty v tbl)"
proof -
  have loop: "second_level_loop (view g tbl) ty (map_option g p) (map h v) = mapR (map h) (second_level_loop tbl ty p v)" for p v
  proof (induction v arbitrary: p)
    case (Cons m v)
    then show ?case by (cases v) (simp_all add: parts cong: bindR_cong if_cong)
  qed simp
  show ?thesis
    by (cases v) (simp_all add: SecondLevelOrderValidation_def parts loop [symmetric] del: second_level_loop.simps)
qed

lemma GetExtraDetails_natural [natural]: "GetExtraDetails (map h v) d (view g tbl) = GetExtraDetails v d tbl"
  unfolding GetExtraDetails_def by (rule foldR_same) (simp add: detail_step_def parts view_def)

lemma GetMiddleQty_natural [natural]: "GetMiddleQty q (map h v) (view g tbl) a b = GetMiddleQty q v tbl a b"
proof -
  have "middle_loop (view g tbl) q b (map h v) s = middle_loop tbl q b v s" for s
    by (induction v arbitrary: s) (simp_all add: parts view_def cong: bindR_cong option.case_cong)
  then show ?thesis by (simp add: GetMiddleQty_def)
qed

subsection \<open>Split\<close>

abbreviation on_group :: "TRADE_MSG_STORE \<times> details \<Rightarrow> TRADE_MSG_STORE \<times> details" where
  "on_group \<equiv> map_prod (map h) id"

abbreviation on_body :: "TRADE_MSG_STORE \<times> details \<times> TRADE_VECTOR_STORE \<Rightarrow>
    TRADE_MSG_STORE \<times> details \<times> TRADE_VECTOR_STORE" where
  "on_body \<equiv> map_prod (map h) (map_prod id (map (map h)))"

definition on_split :: "split_state \<Rightarrow> split_state" where
  "on_split s = \<lparr>spTemp = map h (spTemp s), spDetails = spDetails s, spInfo = map_option g (spInfo s),
     spOut = map (map h) (spOut s)\<rparr>"

lemma split_prune_natural: "split_prune (view g tbl) (g i) (map h v) d = mapR on_group (split_prune tbl i v d)"
  by (simp add: split_prune_def Let_def natural infos mapR_norm cong: bindR_cong if_cong)

lemma split_regroup_natural:
  "split_regroup (view g tbl) (g i) (map h v) d = mapR on_group (split_regroup tbl i v d)"
  by (simp add: split_regroup_def natural infos mapR_norm cong: bindR_cong)

lemma split_switch_natural:
  "split_switch (view g tbl) (g i) (h m) (on_body st) = mapR on_body (split_switch tbl i m st)"
  by (cases st) (simp add: split_switch_def split_regroup_natural parts split_def bindR_assoc cong: bindR_cong if_cong)

lemma quantity_loop_natural:
  "quantity_loop (map h v) q ks (map h w) acc = mapR (map_prod (map h) id) (quantity_loop v q ks w acc)"
proof (induction ks arbitrary: w acc)
  case (Cons k ks)
  have "quantity_loop (map h v) q ks (map h w @ [h m]) a =
      mapR (map_prod (map h) id) (quantity_loop v q ks (w @ [m]) a)" for m a
    using Cons [of "w @ [m]" a] by (simp only: map_append list.map)
  then show ?case by (simp add: parts Let_def id_def cong: bindR_cong if_cong)
qed simp

lemma middle_group_natural:
  "middle_group (map h v) q a b = mapR (map_prod (map h) id) (middle_group v q a b)"
proof -
  have mid: "foldR (\<lambda>k w. bindR (vec_get v k) (\<lambda>m. Inr (w @ [h m]))) ks (map h w)
      = mapR (map h) (foldR (\<lambda>k w. bindR (vec_get v k) (\<lambda>m. Inr (w @ [m]))) ks w)" for ks w
    using foldR_natural [where h = id and k = "map h" and xs = ks and s = w and
      f' = "\<lambda>k w. bindR (vec_get v k) (\<lambda>m. Inr (w @ [h m]))" and f = "\<lambda>k w. bindR (vec_get v k) (\<lambda>m. Inr (w @ [m]))"]
    by (simp add: mapR_norm)
  show ?thesis
    using quantity_loop_natural [where w = "[]"]
    by (simp add: middle_group_def mid quantity_loop_natural mapR_norm split_def cong: bindR_cong)
qed

lemma split_emit_natural: "split_emit (view g tbl) (on_body st) = mapR on_body (split_emit tbl st)"
  by (cases st) (simp add: split_emit_def natural middle_group_natural mapR_norm split_def cong: bindR_cong if_cong)

lemma split_step_natural: "split_step (view g tbl) (h m) (on_split s) = mapR on_split (split_step tbl m s)"
proof -
  have sw: "split_switch (view g tbl) (g i) (h m) (map h v @ [h m], d, map (map h) out)
      = mapR on_body (split_switch tbl i m (v @ [m], d, out))" for i v d out
    using split_switch_natural [of tbl i m "(v @ [m], d, out)"] by simp
  show ?thesis
    by (simp add: split_step_def on_split_def Let_def parts split_prune_natural sw split_emit_natural split_def
      cong: bindR_cong if_cong)
qed

lemma SplitTrade_natural [natural]:
  "SplitTrade (map h v) ts (view g tbl) = mapR (map (map h)) (SplitTrade v ts tbl)"
proof -
  have "foldR (split_step (view g tbl)) (map h v) (on_split split_init)
      = mapR on_split (foldR (split_step tbl) v split_init)"
    by (rule foldR_natural) (rule split_step_natural)
  moreover have "on_split split_init = split_init" by (simp add: on_split_def split_init_def)
  ultimately show ?thesis
    by (simp add: SplitTrade_def mapR_norm) (simp add: on_split_def)
qed

subsection \<open>The record of a group\<close>

lemma info_of_view:
  "itype (view g tbl) (h m) = itype tbl m" "expiry (view g tbl) (h m) = expiry tbl m"
  "strike (view g tbl) (h m) = strike tbl m"
  "nBoardLotQty (info_of (view g tbl) (h m)) = nBoardLotQty (info_of tbl m)"
  "OMSScripInfo.cSymbol (info_of (view g tbl) (h m)) = OMSScripInfo.cSymbol (info_of tbl m)"
  "trade_value (info_of (view g tbl) (h m)) (h m) = trade_value (info_of tbl m) m"
  by (cases "tbl (tok m)"; simp add: info_of_def view_def parts trade_value_def trd_h)+

lemma leg_natural: "leg (view g tbl) ty (map h v) = map h (leg tbl ty v)"
    "options_of (view g tbl) (map h v) = map h (options_of tbl v)"
  by (simp_all add: leg_def options_of_def filter_map comp_def info_of_view)

lemma leg_sums_natural: "leg_qty (view g tbl) ty (map h v) = leg_qty tbl ty v"
    "leg_value (view g tbl) ty (map h v) = leg_value tbl ty v"
  by (simp_all add: leg_qty_def leg_value_def leg_natural comp_def fields info_of_view)

lemma group_record_natural:
  assumes "balanced tbl v"
  shows "group_record (view g tbl) sid (map h v) = group_record tbl sid v"
proof -
  have "leg tbl 1 v \<noteq> []" "options_of tbl v \<noteq> []" "v \<noteq> []"
    using assms by (auto simp: balanced_def options_of_def leg_def filter_empty_conv)
  then show ?thesis
    by (simp add: group_record_def group_strategy_def leg_natural leg_sums_natural last_map info_of_view fields trd_h Let_def)
qed

lemma publish_one_natural:
  assumes "known tbl v"
  shows "publish_one push sid (view g tbl) (map h v) q = publish_one push sid tbl v q"
proof -
  obtain ok where ok: "IsValidateConRev v tbl = Inr ok" using IsValidateConRev_returns [OF assms] by blast
  then show ?thesis
    using IsValidateConRev_accepts(1) [OF assms]
    by (cases ok) (simp_all add: publish_one_def natural group_record_natural)
qed

end

section \<open>The canonical message and contract\<close>

text \<open>The bytes of the trade, received at no time; a contract with nothing traded.\<close>

definition bare :: "CompositeBcastMsg \<Rightarrow> CompositeBcastMsg" where
  "bare m = \<lparr>stBcastMsg = take sizeof_TRD_MSG (stBcastMsg m), tv = \<lparr>tv_sec = 0, tv_nsec = 0\<rparr>\<rparr>"

definition untraded :: "OMSScripInfo \<Rightarrow> OMSScripInfo" where
  "untraded i = i\<lparr>nTotalTraded := 0\<rparr>"

lemma field_at_take: "off + n \<le> k \<Longrightarrow> field_at off n (take k bs) = field_at off n bs"
  by (simp add: field_at_def drop_take min_def)

lemma TRD_MSG_of_take: "TRD_MSG_of (take sizeof_TRD_MSG bs) = TRD_MSG_of bs"
  by (simp add: TRD_MSG_of_def STREAM_HEADER_of_def field_reads field_at_take sizeof_TRD_MSG_def)

interpretation bare: payload bare untraded
  by unfold_locales (simp_all add: trd_def stTrdMsg_def bare_def TRD_MSG_of_take untraded_def)

end
