(* ===== verification/History.thy ===== *)
theory History
  imports Payload Replay
begin

text \<open>
  What the program publishes, as a function of the history of the exchange. \<open>stream_records\<close> gives
  the records of a sequence of messages without the state of the handler: the trades since the last
  order event are the burst, and a burst that is accepted gives one record per group. The handler
  refines it, and it depends on the messages only through their trades, types and stream ids, so
  that messages that carry the same packets give the same records.
\<close>

section \<open>The records of a sequence of messages\<close>

definition add_record ::
  "TOKENDATA_STORE \<Rightarrow> int \<Rightarrow> TRADE_MSG_STORE \<Rightarrow> tagConRevTradeDetails list \<Rightarrow> tagConRevTradeDetails list res" where
  "add_record tbl streamId v rs =
    bindR (IsValidateConRev v tbl) (\<lambda>ok.
      if ok then bindR (group_record tbl streamId v) (\<lambda>r. Inr (rs @ [r])) else Inr rs)"

definition burst_records ::
  "TOKENDATA_STORE \<Rightarrow> int \<Rightarrow> TRADE_MSG_STORE \<Rightarrow> tagConRevTradeDetails list res" where
  "burst_records tbl streamId v =
    (if 3 \<le> card (tok ` set v) \<and> token_status tbl (tok ` set v) \<and> sides_match (store_sides tbl v)
     then bindR (SplitTrade v (tok ` set v) tbl) (\<lambda>gs. foldR (add_record tbl streamId) gs [])
     else Inr [])"

definition trade_lots :: "TOKENDATA_STORE \<Rightarrow> CompositeBcastMsg \<Rightarrow> int res" where
  "trade_lots tbl m = (case tbl (tok m) of None \<Rightarrow> Inr 0 | Some i \<Rightarrow> cdiv 32 (qty m) (nBoardLotQty i))"

fun stream_records ::
  "TOKENDATA_STORE \<Rightarrow> TRADE_MSG_STORE \<Rightarrow> CompositeBcastMsg list \<Rightarrow> tagConRevTradeDetails list res" where
  "stream_records tbl v [] = Inr []"
| "stream_records tbl v (m # ms) =
    (if is_order_event (msgType m) then
       bindR (burst_records tbl (STREAM_HEADER.wStremID (stHeader (stBcastMsg m))) v) (\<lambda>rs.
         mapR (\<lambda>rs1. rs @ rs1) (stream_records tbl [] ms))
     else if msgType m = TRADE_MESSAGE then
       bindR (trade_lots tbl m) (\<lambda>_.
         stream_records tbl (if not_one_sided m then v else v @ [m]) ms)
     else stream_records tbl v ms)"

definition push_all ::
  "(tagConRevTradeDetails \<Rightarrow> 'q \<Rightarrow> bool \<times> 'q) \<Rightarrow> tagConRevTradeDetails list \<Rightarrow> 'q shmQueue1 \<Rightarrow> 'q shmQueue1" where
  "push_all push rs q = fold (\<lambda>r q. snd (shmQueue1_enqueue push r q)) rs q"

lemma push_all_append: "push_all push (rs @ rs1) q = push_all push rs1 (push_all push rs q)"
  by (simp add: push_all_def)

section \<open>The same messages\<close>


lemma mapR_mapR: "mapR f (mapR k r) = mapR (\<lambda>x. f (k x)) r"
  by (cases r) simp_all

context payload
begin

lemma known_natural: "known (view g tbl) (map h v) \<longleftrightarrow> known tbl v"
  by (simp add: known_def view_def fields)

lemma store_sides_natural: "store_sides (view g tbl) (map h v) = store_sides tbl v"
proof -
  have "side_add (view g tbl) (h m) = side_add tbl m" for m
    by (simp only: side_add_def side_leg_def info_of_view fields fun_eq_iff refl simp_thms)
  then have "fold (side_add (view g tbl)) (map h v) s = fold (side_add tbl) v s" for s
    by (induction v arbitrary: s) simp_all
  then show ?thesis by (simp add: store_sides_def)
qed

lemma add_record_natural:
  assumes "known tbl v"
  shows "add_record (view g tbl) sid (map h v) rs = add_record tbl sid v rs"
proof -
  obtain ok where ok: "IsValidateConRev v tbl = Inr ok" using IsValidateConRev_returns [OF assms] by blast
  then show ?thesis
    using IsValidateConRev_accepts(1) [OF assms]
    by (cases ok) (simp_all add: add_record_def natural group_record_natural)
qed

lemma burst_records_natural:
  assumes "known tbl v"
  shows "burst_records (view g tbl) sid (map h v) = burst_records tbl sid v"
proof -
  have t: "tok ` set (map h v) = tok ` set v" by (simp add: image_image fields)
  obtain gs where gs: "SplitTrade v (tok ` set v) tbl = Inr gs" "\<forall>w \<in> set gs. set w \<subseteq> set v"
    using SplitTrade_returns [OF assms] by blast
  then have "\<forall>w \<in> set gs. known tbl w" using known_subset [OF assms] by blast
  then have "foldR (add_record (view g tbl) sid) (map (map h) gs) rs = foldR (add_record tbl sid) gs rs" for rs
    by (induction gs arbitrary: rs) (simp_all add: add_record_natural cong: bindR_cong)
  with gs(1) show ?thesis
    unfolding burst_records_def t by (simp add: token_status_natural store_sides_natural SplitTrade_natural)
qed

lemma trade_lots_natural: "trade_lots (view g tbl) (h m) = trade_lots tbl m"
  by (simp add: trade_lots_def view_def fields infos split: option.split)

end

text \<open>
  Two messages that the handler cannot tell apart, and two tables that differ in the traded lots
  only.
\<close>

definition same_message :: "CompositeBcastMsg \<Rightarrow> CompositeBcastMsg \<Rightarrow> bool" where
  "same_message m m1 \<longleftrightarrow> msgType m = msgType m1 \<and>
     STREAM_HEADER.wStremID (stHeader (stBcastMsg m)) = STREAM_HEADER.wStremID (stHeader (stBcastMsg m1)) \<and>
     (msgType m = TRADE_MESSAGE \<longrightarrow> bare m = bare m1)"

lemma burst_records_same:
  assumes "view untraded tbl = view untraded tbl1" and "map bare v = map bare v1" and "known tbl v"
  shows "burst_records tbl sid v = burst_records tbl1 sid v1"
proof -
  have "known tbl1 v1"
    using assms bare.known_natural [of tbl v] bare.known_natural [of tbl1 v1] by simp
  then show ?thesis
    using bare.burst_records_natural [OF assms(3)] bare.burst_records_natural [of tbl1 v1] assms(1,2) by simp
qed

lemma stream_records_same:
  assumes "view untraded tbl = view untraded tbl1" and "map bare v = map bare v1" and "known tbl v"
    and "list_all2 same_message ms ms1" and "\<forall>m \<in> set ms. trade_known (dom tbl) m"
  shows "stream_records tbl v ms = stream_records tbl1 v1 ms1"
  using assms(4,2,3,5)
proof (induction ms ms1 arbitrary: v v1 rule: list_all2_induct)
  case (Cons m ms m1 ms1)
  note burst = burst_records_same [OF assms(1) Cons.prems(1,2)]
  have ty: "msgType m1 = msgType m" and sid: "STREAM_HEADER.wStremID (stHeader (stBcastMsg m1)) =
      STREAM_HEADER.wStremID (stHeader (stBcastMsg m))"
    using Cons.hyps(1) by (simp_all add: same_message_def)
  have tl: "\<forall>m \<in> set ms. trade_known (dom tbl) m" using Cons.prems(3) by simp
  show ?case
  proof (cases "is_order_event (msgType m)")
    case True
    then show ?thesis using Cons.IH [of "[]" "[]"] tl by (simp add: ty sid burst)
  next
    case ev: False
    show ?thesis
    proof (cases "msgType m = TRADE_MESSAGE")
      case True
      then have b: "bare m = bare m1" using Cons.hyps(1) by (simp add: same_message_def)
      have "trade_lots tbl m = trade_lots tbl1 m1"
        using bare.trade_lots_natural [of tbl m] bare.trade_lots_natural [of tbl1 m1] b assms(1) by simp
      moreover have "not_one_sided m1 = not_one_sided m"
        using bare.fields(5) [of m] bare.fields(5) [of m1] b by simp
      moreover have "tbl (tok m) \<noteq> None"
        using Cons.prems(3) True by (auto simp: trade_known_def)
      then have "stream_records tbl (v @ [m]) ms = stream_records tbl1 (v1 @ [m1]) ms1"
        using Cons.prems(1,2) b tl by (intro Cons.IH) simp_all
      ultimately show ?thesis
        using ev True Cons.IH [OF Cons.prems(1,2) tl] by (simp add: ty)
    qed (use ev ty Cons.IH [OF Cons.prems(1,2) tl] in simp)
  qed
qed simp

text \<open>Messages that are neither trades nor order events make no difference.\<close>

definition counts :: "CompositeBcastMsg \<Rightarrow> bool" where
  "counts m \<longleftrightarrow> is_order_event (msgType m) \<or> msgType m = TRADE_MESSAGE"

lemma stream_records_counts: "stream_records tbl v (filter counts ms) = stream_records tbl v ms"
  by (induction ms arbitrary: v) (simp_all add: counts_def)

section \<open>The handler refines the specification\<close>

lemma publish_one_record:
  "publish_one push sid tbl v (push_all push rs q) = mapR (\<lambda>rs. push_all push rs q) (add_record tbl sid v rs)"
  by (simp add: publish_one_def add_record_def mapR_norm push_all_def cong: if_cong)

lemma publish_burst_records:
  assumes "store_ok s"
  shows "publish_burst push sid s = mapR (\<lambda>rs. push_all push rs (g_pcConRevQ s))
    (burst_records (g_pcTokenDataStore s) sid (g_pcTradeMsgStore s))"
proof -
  have "foldR (publish_one push sid tbl) gs (push_all push rs q) =
      mapR (\<lambda>rs. push_all push rs q) (foldR (add_record tbl sid) gs rs)" for tbl gs rs q
    using foldR_natural [where h = id and k = "\<lambda>rs. push_all push rs q" and f' = "publish_one push sid tbl"
        and f = "add_record tbl sid" and xs = gs and s = rs]
    by (simp add: publish_one_record)
  from this [where rs = "[]"] have "foldR (publish_one push sid tbl) gs q =
      mapR (\<lambda>rs. push_all push rs q) (foldR (add_record tbl sid) gs [])" for tbl gs q
    by (simp add: push_all_def)
  then show ?thesis
    using assms by (auto simp: publish_burst_def burst_records_def burst_accepted_def store_ok_def mapR_norm push_all_def)
qed

lemma handler_records:
  assumes "handler_inv D s" and "\<forall>m \<in> set ms. trade_known D m"
  shows "mapR g_pcConRevQ (foldR (WriteDataInFile1 push) ms s) = mapR (\<lambda>rs. push_all push rs (g_pcConRevQ s))
    (stream_records (g_pcTokenDataStore s) (g_pcTradeMsgStore s) ms)"
  using assms
proof (induction ms arbitrary: s)
  case (Cons m ms)
  let ?tbl = "g_pcTokenDataStore s" and ?v = "g_pcTradeMsgStore s"
  from Cons.prems have ok: "store_ok s" and D: "dom ?tbl = D" and k: "known ?tbl ?v"
    by (simp_all add: handler_inv_def store_ok_def)
  note IH = Cons.IH [OF handler.handle_Inr [OF Cons.prems(1) bspec [OF Cons.prems(2)]]]
  have tl: "\<forall>m \<in> set ms. trade_known D m" using Cons.prems(2) by simp
  consider "is_order_event (msgType m)" | "\<not> is_order_event (msgType m)" "msgType m = TRADE_MESSAGE"
    | "\<not> is_order_event (msgType m)" "msgType m \<noteq> TRADE_MESSAGE" by blast
  then show ?case
  proof cases
    case 1
    then have w: "WriteDataInFile1 push m s = bindR (publish_burst push (STREAM_HEADER.wStremID (stHeader (stBcastMsg m))) s)
        (\<lambda>q. Inr (s\<lparr>g_pcConRevQ := q, g_pcTradeMsgStore := [], g_pccTokenStore := {}\<rparr>))"
      by (simp add: WriteDataInFile1_def WriteDataInFile_def on_order_event_publishes [OF ok])
    have inv: "handler_inv D (s\<lparr>g_pcConRevQ := q, g_pcTradeMsgStore := [], g_pccTokenStore := {}\<rparr>)" for q
      using D by (simp add: handler_inv_def store_ok_def)
    show ?thesis
      using 1 Cons.IH [OF inv tl]
      by (simp add: w publish_burst_records [OF ok] mapR_norm mapR_mapR bindR_assoc push_all_append)
  next
    case 2
    then have "tok m \<in> D" using Cons.prems(2) by (simp add: trade_known_def)
    then obtain i where i: "?tbl (tok m) = Some i" using D by auto
    show ?thesis
    proof (cases "cdiv 32 (qty m) (nBoardLotQty i)")
      case (Inl e)
      with 2 i show ?thesis by (simp add: WriteDataInFile1_def WriteDataInFile_def on_trade_def trade_lots_def)
    next
      case (Inr n)
      define s1 where "s1 = s\<lparr>g_pcTokenDataStore := ?tbl(tok m \<mapsto> i\<lparr>nTotalTraded := wrap64 (nTotalTraded i + n)\<rparr>)\<rparr>"
      define s2 where "s2 = (if not_one_sided m then s1
          else s1\<lparr>g_pccTokenStore := insert (tok m) (g_pccTokenStore s1), g_pcTradeMsgStore := ?v @ [m]\<rparr>)"
      have w: "WriteDataInFile1 push m s = Inr s2"
        using 2 i Inr by (simp add: WriteDataInFile1_def WriteDataInFile_def on_trade_def s1_def s2_def)
      have inv: "handler_inv D s2"
        using handler.handle_Inr [OF Cons.prems(1) _ w] Cons.prems(2) by simp
      have tbl: "g_pcTokenDataStore s2 = g_pcTokenDataStore s1"
        and v: "g_pcTradeMsgStore s2 = (if not_one_sided m then ?v else ?v @ [m])"
        and q: "g_pcConRevQ s2 = g_pcConRevQ s"
        by (simp_all add: s2_def s1_def)
      have same: "view untraded (g_pcTokenDataStore s1) = view untraded ?tbl"
        using i by (simp add: s1_def view_def untraded_def fun_eq_iff)
      have "stream_records (g_pcTokenDataStore s2) (g_pcTradeMsgStore s2) ms = stream_records ?tbl (g_pcTradeMsgStore s2) ms"
        by (rule stream_records_same)
          (use same tbl inv tl in \<open>simp_all add: handler_inv_def store_ok_def list_all2_refl same_message_def\<close>)
      then show ?thesis
        using 2 i Inr Cons.IH [OF inv tl] by (simp add: w q v trade_lots_def)
    qed
  next
    case 3
    then show ?thesis using Cons.IH [OF Cons.prems(1) tl] by (simp add: WriteDataInFile1_def WriteDataInFile_def)
  qed
qed (simp add: push_all_def)

section \<open>Messages of the history\<close>

definition history_messages :: "(int \<Rightarrow> packet) \<Rightarrow> int \<Rightarrow> CompositeBcastMsg list" where
  "history_messages hist n = map (\<lambda>q. packet_of (packet_bytes (hist q))) [1..n]"

lemma carries_canonical: "carries x (packet_of (packet_bytes x))"
  by (simp add: carries_def packet_of_def overlay_def)

lemma STREAM_HEADER_of_take: "8 \<le> n \<Longrightarrow> STREAM_HEADER_of (take n bs) = STREAM_HEADER_of bs"
  by (simp add: STREAM_HEADER_of_def field_reads field_at_take)

text \<open>Whatever the rest of the union holds and whenever they came, the handler sees the same.\<close>

lemma carried_same:
  assumes "packet_ok x" and "carries x m" and "carries x m1"
  shows "same_message m m1"
proof -
  let ?n = "length (packet_bytes x)"
  have b: "take ?n (stBcastMsg m) = take ?n (stBcastMsg m1)" using assms(2,3) by (simp add: carries_def)
  have "8 \<le> ?n" using packet_length [OF assms(1)] by (simp add: sizeof_MSG_HEADER_def)
  then have "stHeader (stBcastMsg m) = stHeader (stBcastMsg m1)"
    using STREAM_HEADER_of_take [of ?n "stBcastMsg m"] STREAM_HEADER_of_take [of ?n "stBcastMsg m1"] b
    by (simp add: stHeader_def)
  moreover have "bare m = bare m1" if "packet_type x = TRADE_MESSAGE"
  proof -
    from that obtain t where x: "x = TradePacket t" using assms(1) by (cases x) auto
    with assms(1) have "?n = sizeof_TRD_MSG" by (simp add: tm.length_enc)
    with b show ?thesis by (simp add: bare_def)
  qed
  ultimately show ?thesis
    using carried_type [OF assms(1,2)] carried_type [OF assms(1,3)] by (simp add: same_message_def)
qed

text \<open>The trades of the history are of contracts of the table.\<close>

definition hist_known :: "(int \<Rightarrow> packet) \<Rightarrow> int set \<Rightarrow> bool" where
  "hist_known hist D \<longleftrightarrow> (\<forall>q t. 0 \<le> q \<longrightarrow> in_range 32 q \<longrightarrow> hist q = TradePacket t \<longrightarrow> TRD_MSG.nToken t \<in> D)"

lemma carried_known:
  assumes "packet_ok (hist q)" and "hist_known hist D" and "0 \<le> q" and "in_range 32 q" and "carries (hist q) m"
  shows "trade_known D m"
proof (cases "is_handled (hist q)")
  case True
  from assms(1-4) have "stream_accepted (trade_known D) [hist q]"
    by (intro trades_of_accepted) (auto simp: trades_of_def hist_known_def)
  with True assms(5) show ?thesis by (auto simp: stream_accepted_def)
next
  case False
  with assms(1) carried_type [OF assms(1,5)] have "msgType m \<noteq> TRADE_MESSAGE" by (cases "hist q") auto
  then show ?thesis by (simp add: trade_known_def)
qed

text \<open>What was heard of a history counts the same as the history.\<close>

lemma heard_same:
  assumes "hist_ok hist" and "hist_known hist D" and "\<forall>q \<in> set qs. 0 \<le> q \<and> in_range 32 q" and "heard hist qs ms"
  shows "(\<forall>m \<in> set ms. trade_known D m) \<and>
    list_all2 same_message (filter counts ms) (filter counts (map (\<lambda>q. packet_of (packet_bytes (hist q))) qs))"
  using assms(3,4)
proof (induction qs arbitrary: ms)
  case (Cons q qs)
  then have q: "0 \<le> q" "in_range 32 q" by simp_all
  then have ok: "packet_ok (hist q)" "\<not> is_response (hist q)" using assms(1) by (simp_all add: hist_ok_def)
  let ?m = "packet_of (packet_bytes (hist q))"
  have IH: "heard hist qs ms1 \<Longrightarrow> (\<forall>m \<in> set ms1. trade_known D m) \<and>
      list_all2 same_message (filter counts ms1) (filter counts (map (\<lambda>q. packet_of (packet_bytes (hist q))) qs))" for ms1
    using Cons.IH Cons.prems(1) by simp
  from Cons.prems(2) consider
      m ms1 where "ms = m # ms1" "carries (hist q) m" "heard hist qs ms1"
    | "\<not> is_handled (hist q)" "heard hist qs ms" by auto
  then show ?case
  proof cases
    case 1
    have "same_message m ?m" by (rule carried_same [OF ok(1) 1(2) carries_canonical])
    then have "same_message m ?m" "counts m = counts ?m" by (simp_all add: same_message_def counts_def)
    with IH [OF 1(3)] carried_known [OF ok(1) assms(2) q 1(2)] 1(1) show ?thesis by simp
  next
    case 2
    have "packet_type (hist q) = END_OF_MASTER" using 2(1) ok by (cases "hist q") auto
    then have "\<not> counts ?m"
      using carried_type [OF ok(1) carries_canonical] by (simp add: counts_def is_order_event_def)
    with IH [OF 2(2)] show ?thesis by simp
  qed
qed simp

lemma history_records:
  assumes "hist_ok hist" and "hist_known hist D" and "in_range 32 n"
    and "heard hist [1..n] ms" and "handler_inv D s" and "g_pcTradeMsgStore s = []"
  shows "mapR g_pcConRevQ (foldR (WriteDataInFile1 push) ms s) = mapR (\<lambda>rs. push_all push rs (g_pcConRevQ s))
    (stream_records (g_pcTokenDataStore s) [] (history_messages hist n))"
proof -
  have "\<forall>q \<in> set [1..n]. 0 \<le> q \<and> in_range 32 q" using assms(3) by (auto simp: in_range_def)
  from heard_same [OF assms(1,2) this assms(4)] have k: "\<forall>m \<in> set ms. trade_known D m"
    and same: "list_all2 same_message (filter counts ms) (filter counts (history_messages hist n))"
    by (simp_all add: history_messages_def)
  have "stream_records (g_pcTokenDataStore s) [] (filter counts ms) =
      stream_records (g_pcTokenDataStore s) [] (filter counts (history_messages hist n))"
    using k assms(5) same by (intro stream_records_same) (simp_all add: handler_inv_def)
  then have "stream_records (g_pcTokenDataStore s) [] ms = stream_records (g_pcTokenDataStore s) [] (history_messages hist n)"
    by (simp only: stream_records_counts)
  with handler_records [OF assms(5) k, of push] assms(6) show ?thesis by simp
qed

section \<open>A conversion for evaluation\<close>

text \<open>A contract file with a future, a call and a put.\<close>

definition conv_columns :: "string \<Rightarrow> string \<Rightarrow> string \<Rightarrow> string list" where
  "conv_columns token k series = [token, ''x'', ''x'', ''NIFTY'', ''x'', ''x'', ''1000'', k, series] @
     replicate 21 ''0'' @ [''5'', ''5'', ''5''] @ replicate 20 ''0'' @ [''N'']"

definition conv_file :: "string list" where
  "conv_file = ''version'' # map (\<lambda>fs. bar_line fs [])
     [conv_columns ''1'' ''-1'' ''XX'', conv_columns ''2'' ''100'' ''CE'', conv_columns ''3'' ''100'' ''PE'']"

definition conv_scrip :: "int \<Rightarrow> int \<Rightarrow> int \<Rightarrow> string \<Rightarrow> OMSScripInfo" where
  "conv_scrip t ty k series = \<lparr>nExpiryDate = 1000, nStrikePrice = k, nToken = t, nBoardLotQty = 5, nMinLotQty = 5,
     nTickSize = 5, nCustomInstrumentType = ty, cSymbol = ''NIFTY'', cSeries = series, cSymbolName = ''N'',
     nBoardLotQty2 = 0, nTotalTraded = 0\<rparr>"

definition conv_table :: TOKENDATA_STORE where
  "conv_table = [1 \<mapsto> conv_scrip 1 1 0 ''XX'', 2 \<mapsto> conv_scrip 2 2 100 ''CE'', 3 \<mapsto> conv_scrip 3 3 100 ''PE'']"

lemma conv_line:
  assumes "set token \<subseteq> set ''123''" and "set k \<subseteq> set ''-01''" and "set series \<subseteq> set ''XCEP''"
  shows "digest_line (bar_line (conv_columns token k series) []) = scrip_of_columns (conv_columns token k series)"
  by (rule digest_line_scrip) (use assms in \<open>auto simp: bar_line_def conv_columns_def\<close>)

lemma conv_scrips:
  "scrip_of_columns (conv_columns ''1'' ''-1'' ''XX'') = conv_scrip 1 1 0 ''XX''"
  "scrip_of_columns (conv_columns ''2'' ''100'' ''CE'') = conv_scrip 2 2 100 ''CE''"
  "scrip_of_columns (conv_columns ''3'' ''100'' ''PE'') = conv_scrip 3 3 100 ''PE''"
  by (simp_all add: conv_columns_def scrip_of_columns_def conv_scrip_def scrip_type_def atoi_def atol_def is_space_def
    is_digit_def digits_value_def nth_append wrap32_small del: upt_Suc)

lemma conv_file_table: "snd (FileDigester (Some conv_file) Map.empty) = conv_table"
  by (simp add: conv_file_def FileDigester_table conv_line conv_scrips conv_table_def)
    (simp add: conv_scrip_def fun_eq_iff)

text \<open>The history: the three trades of a conversion of ten, and orders ever after.\<close>

definition conv_hist :: "int \<Rightarrow> packet" where
  "conv_hist q =
    (if q = 1 then TradePacket (trade_msg 1 1 0 (dbl_of_id 0 1) 24100 10)
     else if q = 2 then TradePacket (trade_msg 2 3 0 (dbl_of_id 0 1) 50 10)
     else if q = 3 then TradePacket (trade_msg 3 2 (dbl_of_id 0 1) 0 150 10)
     else order_hist q)"

definition conv_record :: tagConRevTradeDetails where
  "conv_record = \<lparr>tagConRevTradeDetails.nTimestamp = 0, nTotalTradeLot = 2, nExpirayDate = 1000,
      nSpread = 150 - 50 + 100 - 24100, nStrikePrice = 100, nExchangeSequenceNo = 3, nStreamId = 1,
      nStrategyIndentifier = 1, cSymbol = ''NIFTY''\<rparr>"

lemma conv_hist_ok: "hist_ok conv_hist"
  using order_hist_ok trade_msg_ok by (auto simp: hist_ok_def conv_hist_def small_def) (simp_all add: trade_msg_def)

lemma conv_hist_known: "hist_known conv_hist (dom conv_table)"
  by (auto simp: hist_known_def conv_hist_def order_hist_def conv_table_def trade_msg_def split: if_splits)

lemma order_message:
  assumes "small q"
  shows "msgType (packet_of (packet_bytes (order_hist q))) = NEW_ORDER"
    and "STREAM_HEADER.wStremID (stHeader (stBcastMsg (packet_of (packet_bytes (order_hist q))))) = 1"
proof -
  have o: "stGegenricOrdMsg (stBcastMsg (packet_of (packet_bytes (order_hist q)))) = order_msg q"
    using order_packet [OF assms] by (simp add: order_hist_def)
  show "msgType (packet_of (packet_bytes (order_hist q))) = NEW_ORDER"
    "STREAM_HEADER.wStremID (stHeader (stBcastMsg (packet_of (packet_bytes (order_hist q))))) = 1"
    unfolding msgType_def common_prefix(2) common_prefix(9) [symmetric] by (simp_all only: o) (simp_all add: order_msg_def)
qed

lemma orders_publish_nothing:
  "\<forall>q \<in> set qs. small q \<Longrightarrow> stream_records tbl [] (map (\<lambda>q. packet_of (packet_bytes (order_hist q))) qs) = Inr []"
  by (induction qs) (simp_all add: order_message is_order_event_def burst_records_def)

definition conv_burst :: TRADE_MSG_STORE where
  "conv_burst = [sample_trade 1 1 True 24100 10, sample_trade 2 3 True 50 10, sample_trade 3 2 False 150 10]"

lemma conv_trades [simp]:
  "tok (sample_trade 1 1 True 24100 10) = 1" "tok (sample_trade 2 3 True 50 10) = 3"
  "tok (sample_trade 3 2 False 150 10) = 2" "qty (sample_trade 1 1 True 24100 10) = 10"
  "qty (sample_trade 2 3 True 50 10) = 10" "qty (sample_trade 3 2 False 150 10) = 10"
  "buyId (sample_trade 1 1 True 24100 10) = 0" "buyId (sample_trade 2 3 True 50 10) = 0"
  "buyId (sample_trade 3 2 False 150 10) = 1" "sellId (sample_trade 1 1 True 24100 10) = 1"
  "sellId (sample_trade 2 3 True 50 10) = 1" "sellId (sample_trade 3 2 False 150 10) = 0"
  "nTradePrice (trd (sample_trade 1 1 True 24100 10)) = 24100" "nTradePrice (trd (sample_trade 2 3 True 50 10)) = 50"
  "nTradePrice (trd (sample_trade 3 2 False 150 10)) = 150" "seqNo (sample_trade 3 2 False 150 10) = 3"
  "lTimestamp (trd (sample_trade 3 2 False 150 10)) = 0"
  "msgType (sample_trade 1 1 True 24100 10) = 84" "msgType (sample_trade 2 3 True 50 10) = 84"
  "msgType (sample_trade 3 2 False 150 10) = 84"
  by (simp_all add: sample_trade_simps small_def seqNo_def sample_trade_trd) (simp_all add: trade_msg_def)

lemma conv_infos [simp]:
  "conv_table 1 = Some (conv_scrip 1 1 0 ''XX'')" "conv_table 2 = Some (conv_scrip 2 2 100 ''CE'')"
  "conv_table 3 = Some (conv_scrip 3 3 100 ''PE'')"
  "nCustomInstrumentType (conv_scrip t ty k z) = ty" "OMSScripInfo.nStrikePrice (conv_scrip t ty k z) = k"
  "nExpiryDate (conv_scrip t ty k z) = 1000" "nBoardLotQty (conv_scrip t ty k z) = 5"
  "OMSScripInfo.cSymbol (conv_scrip t ty k z) = ''NIFTY''"
  by (simp_all add: conv_table_def conv_scrip_def)

lemma conv_burst_group: "add_record conv_table 1 conv_burst [] = Inr [conv_record]"
proof -
  have i: "info_of conv_table (sample_trade 1 1 True 24100 10) = conv_scrip 1 1 0 ''XX''"
      "info_of conv_table (sample_trade 2 3 True 50 10) = conv_scrip 3 3 100 ''PE''"
      "info_of conv_table (sample_trade 3 2 False 150 10) = conv_scrip 2 2 100 ''CE''"
    by (simp_all add: info_of_def)
  have "IsValidateConRev conv_burst conv_table = Inr True"
    by (simp add: conv_burst_def IsValidateConRev_def conrev_scan_init_def conrev_leg_def not_one_sided_def
      Let_def side_leg_def sides_init_def side_of_def conrev_accept_def sides_match_def find_into_def wrap32_small)
  moreover have "group_record conv_table 1 conv_burst = Inr conv_record"
    by (simp add: group_record_def conv_burst_def i leg_def leg_value_def leg_qty_def options_of_def conv_record_def
      group_strategy_def trade_value_def wrap32_small wrap64_small cdiv_def cquot_def array_lengths Let_def)
  ultimately show ?thesis by (simp add: add_record_def)
qed

lemma conv_burst_records: "burst_records conv_table 1 conv_burst = Inr [conv_record]"
proof -
  have t: "tok ` set conv_burst = {1, 2, 3}" by (auto simp: conv_burst_def)
  have "sorted_list_of_set {1, 2, 3 :: int} = [1, 2, 3]" by simp
  then have "token_status conv_table {1, 2, 3}"
    by (simp add: token_status_def token_scan_init_def token_scan_step_def token_scan_leg_def
      token_scan_complete_def Let_def)
  moreover have "sides_match (store_sides conv_table conv_burst)"
    by (simp add: store_sides_def conv_burst_def info_of_def side_add_def side_leg_def side_of_def sides_init_def sides_match_def)
  moreover have "SplitTrade conv_burst {1, 2, 3} conv_table = Inr [conv_burst]"
    by (simp add: SplitTrade_def conv_burst_def)
  ultimately show ?thesis
    using conv_burst_group by (simp add: burst_records_def t)
qed

lemma conv_records:
  assumes "4 \<le> n" and "in_range 32 n"
  shows "stream_records conv_table [] (history_messages conv_hist n) = Inr [conv_record]"
proof -
  let ?m = "\<lambda>q. packet_of (packet_bytes (conv_hist q))" and ?o = "\<lambda>q. packet_of (packet_bytes (order_hist q))"
  have ns: "[1..n] = 1 # 2 # 3 # 4 # [5..n]"
    using assms(1) by (simp add: upto_rec1)
  have m: "?m 1 = sample_trade 1 1 True 24100 10" "?m 2 = sample_trade 2 3 True 50 10"
      "?m 3 = sample_trade 3 2 False 150 10" "?m 4 = ?o 4"
    by (simp_all add: conv_hist_def sample_trade_def)
  have "\<forall>q \<in> set [5..n]. small q" "small 4"
    using assms(2) by (auto simp: small_def in_range_def)
  moreover have o: "map ?m [5..n] = map ?o [5..n]" by (simp add: conv_hist_def)
  ultimately have "stream_records conv_table [] (map ?m [5..n]) = Inr []" "small 4"
    unfolding o by (simp_all add: orders_publish_nothing)
  then show ?thesis
    using conv_burst_records
    by (simp add: history_messages_def ns m is_order_event_def trade_lots_def not_one_sided_def cdiv_def
      order_message) (simp add: conv_burst_def)
qed

section \<open>Properties\<close>

text \<open>
  C18. From the contract file on, over any sequence of messages on its contracts, every field of
  every contract in the table and of every record that is published holds a value of its C type,
  and its texts fit their arrays, unless a division ends the process. The queue is any whose
  contents stay well-typed (\<open>J\<close>) when a well-typed record is pushed.
\<close>

lemma published_typed:
  assumes "g_pcTokenDataStore s = snd (FileDigester file Map.empty)"
    and "g_pcTradeMsgStore s = []" and "g_pccTokenStore s = {}"
    and "\<forall>m \<in> set ms. trade_known (dom (snd (FileDigester file Map.empty))) m"
    and "pushes_typed push J" and "J (sqPtrQ (g_pcConRevQ s))"
  shows "wpost {Sigfpe} (foldR (WriteDataInFile1 push) ms s) (\<lambda>s1.
    table_typed (g_pcTokenDataStore s1) \<and> J (sqPtrQ (g_pcConRevQ s1)))"
proof -
  have "table_typed (snd (FileDigester file Map.empty))"
    by (rule FileDigester_typed) (simp add: table_typed_def)
  then have "typed_inv push J (dom (snd (FileDigester file Map.empty))) s"
    using assms by (simp add: typed_inv_def handler_inv_def store_ok_def known_def)
  from typed_handler.handle_all [OF this assms(4)] show ?thesis
    by (rule wpost_mono) (simp add: typed_inv_def)
qed

text \<open>The conversion, from its contract file to the record on the queue.\<close>

definition conv_start :: "tagConRevTradeDetails list trade_state" where
  "conv_start = \<lparr>g_pcTradeMsgStore = [], g_pccTokenStore = {},
     g_pcTokenDataStore = snd (FileDigester (Some conv_file) Map.empty), g_pcConRevQ = \<lparr>sqSize = 0, sqPtrQ = []\<rparr>\<rparr>"

lemma conv_messages_known: "\<forall>m \<in> set (history_messages conv_hist 4). trade_known (dom conv_table) m"
proof -
  have "packet_ok (conv_hist q)" if "0 \<le> q" "in_range 32 q" for q
    using conv_hist_ok that by (simp add: hist_ok_def)
  then show ?thesis
    using carried_known [OF _ conv_hist_known _ _ carries_canonical]
    by (auto simp: history_messages_def in_range_def)
qed

lemma conv_run:
  "\<exists>s1. foldR (WriteDataInFile1 (list_push 9)) (history_messages conv_hist 4) conv_start = Inr s1 \<and>
    sqPtrQ (g_pcConRevQ s1) = [conv_record]"
proof -
  have "handler_inv (dom conv_table) conv_start"
    by (simp add: handler_inv_def store_ok_def conv_start_def conv_file_table)
  from handler_records [OF this conv_messages_known, of "list_push 9"] conv_records [of 4]
  have "mapR g_pcConRevQ (foldR (WriteDataInFile1 (list_push 9)) (history_messages conv_hist 4) conv_start) =
      Inr \<lparr>sqSize = 1, sqPtrQ = [conv_record]\<rparr>"
    by (simp add: in_range_def push_all_def shmQueue1_enqueue_def list_push_def wrap32_small Let_def conv_start_def
      conv_file_table)
  then show ?thesis by (auto simp: mapR_def split: sum.splits)
qed

lemma published_typed_witness:
  "\<exists>s1. foldR (WriteDataInFile1 (list_push 9)) (history_messages conv_hist 4) conv_start = Inr s1 \<and>
    sqPtrQ (g_pcConRevQ s1) = [conv_record] \<and> record_typed conv_record \<and> table_typed (g_pcTokenDataStore s1)"
proof -
  have "wpost {Sigfpe} (foldR (WriteDataInFile1 (list_push 9)) (history_messages conv_hist 4) conv_start) (\<lambda>s1.
      table_typed (g_pcTokenDataStore s1) \<and> (\<forall>r \<in> set (sqPtrQ (g_pcConRevQ s1)). record_typed r))"
    by (rule published_typed [of _ "Some conv_file", OF _ _ _ _ list_push_typed])
      (use conv_messages_known in \<open>simp_all add: conv_start_def conv_file_table\<close>)
  with conv_run show ?thesis by auto
qed

end
