(* ===== verification/LogRing.thy ===== *)
theory LogRing
  imports Prelude
begin

text \<open>
  The logger, \<^verbatim>\<open>src/log.h\<close> and \<^verbatim>\<open>src/logs.cpp\<close>: a ring of records shared by the logging
  threads and one background thread, as a step relation in which every access to a shared
  variable is a step of its own; and \<open>TaskSet\<close> of \<^verbatim>\<open>src/setaffinity.cpp\<close>, which pins the
  background thread. Accesses are interleaved in one order; what the relaxed orderings of the
  source allow beyond that is in \<open>LogMemory\<close>, the texts and lines are in \<open>LogText\<close>.
\<close>

section \<open>TaskSet\<close>

text \<open>\<open>strStatus\<close> is left as it is, or one of the two texts with its arguments in their order.\<close>

datatype task_status = Unchanged | InvalidCore "32 word" "32 word" | AffinityError int int

definition TaskSet :: "32 word \<Rightarrow> int \<Rightarrow> 32 word \<Rightarrow> (nat \<Rightarrow> int) \<Rightarrow> int \<Rightarrow> int \<times> task_status" where
  "TaskSet nCoreID nPid nThreads setaffinity errno =
    (if nThreads \<le> nCoreID then (- 1, InvalidCore nCoreID (nThreads - 1))
     else if setaffinity (unat nCoreID) < 0 then (- 1, AffinityError errno nPid)
     else (0, Unchanged))"

section \<open>Messages and levels\<close>

definition MSG_SIZE :: nat where "MSG_SIZE = 768"
definition LOGGER_QUEUE_SIZE :: nat where "LOGGER_QUEUE_SIZE = 10000"

definition ERROR :: int where "ERROR = 3"
definition PERF :: int where "PERF = 5"
definition REVY :: int where "REVY = 6"

definition levels :: "string list" where
  "levels = [''TRACE'', ''DEBUG'', ''INFO '', ''ERROR'', ''FATAL'', ''PERF'', ''REVY'']"

record LogMsg =
  lmMessage :: string
  lmLevel :: "32 word"

text \<open>The string that the array holds: cut at the terminator, and to \<open>MSG_SIZE - 1\<close> characters.\<close>

definition LogMsg_new :: "int \<Rightarrow> string \<Rightarrow> LogMsg" where
  "LogMsg_new level text =
    \<lparr>lmMessage = take (MSG_SIZE - 1) (takeWhile (\<lambda>c. c \<noteq> CHR 0x00) text), lmLevel = word_of_int level\<rparr>"

definition LogMsg_reset :: LogMsg where
  "LogMsg_reset = \<lparr>lmMessage = [], lmLevel = - 1\<rparr>"

definition level_name :: "LogMsg \<Rightarrow> string res" where
  "level_name m = vec_get levels (unat (lmLevel m))"

definition setLevel :: "int \<Rightarrow> int \<Rightarrow> int" where
  "setLevel level old = (if level < 0 \<or> PERF < level then old else level)"

section \<open>The ring\<close>

text \<open>
  A logging thread: idle; holding ticket \<open>w\<close> and about to read \<open>_readIndex\<close>; having read it
  as \<open>r\<close> and about to compare with \<open>_writeIndex\<close>; past the spin loop and about to construct
  the record; about to set the flag.
\<close>

datatype producer =
  PIdle | PSpin nat LogMsg | PLoaded nat LogMsg nat | PFill nat LogMsg | PPublish nat LogMsg

text \<open>
  The background thread: about to test \<open>_exit\<close> in the outer loop; about to take the next index;
  waiting for index \<open>i\<close> and about to test \<open>_exit\<close>, or to load the flag; about to move the record
  out; holding it and about to clear the flag. After the outer loop: about to take an index, to load
  its flag, to move the record out and to clear the flag; and finished.
\<close>

datatype reader =
  RIdle | RTake | RWait nat | RLook nat | RMove nat | RClear nat LogMsg
| RLast | RDrain nat | RDrainMove nat | RDrainClear nat LogMsg | RDone | RFault fault

record ring =
  rgRead :: nat
  rgWrite :: nat
  rgRecord :: "nat \<Rightarrow> LogMsg"
  rgFlag :: "nat \<Rightarrow> bool"
  rgProd :: "nat \<Rightarrow> producer"
  rgReader :: reader
  rgExit :: bool
  rgOut :: "LogMsg list"
  rgLogged :: "LogMsg list"

text \<open>
  \<open>rgOut\<close> is what has been written to the file; \<open>rgLogged\<close>, the messages in the order of their
  tickets, is a history variable that no step reads.
\<close>

definition ring_init :: "ring" where
  "ring_init = \<lparr>rgRead = 0, rgWrite = 0, rgRecord = (\<lambda>_. LogMsg_reset), rgFlag = (\<lambda>_. False),
     rgProd = (\<lambda>_. PIdle), rgReader = RIdle, rgExit = False, rgOut = [], rgLogged = []\<rparr>"

text \<open>\<open>log(level, message)\<close> called by thread \<open>p\<close>: the first guard and the ticket.\<close>

definition Logger_log :: "nat \<Rightarrow> int \<Rightarrow> string \<Rightarrow> ring \<Rightarrow> ring" where
  "Logger_log p level text s =
    (if PERF < level then s
     else s\<lparr>rgProd := (rgProd s)(p := PSpin (rgWrite s) (LogMsg_new level text)),
            rgWrite := rgWrite s + 1, rgLogged := rgLogged s @ [LogMsg_new level text]\<rparr>)"

definition producer_step :: "nat \<Rightarrow> nat \<Rightarrow> ring \<Rightarrow> ring" where
  "producer_step N p s =
    (case rgProd s p of
       PIdle \<Rightarrow> s
     | PSpin w m \<Rightarrow> s\<lparr>rgProd := (rgProd s)(p := PLoaded w m (rgRead s))\<rparr>
     | PLoaded w m r \<Rightarrow>
         s\<lparr>rgProd := (rgProd s)(p := if r + N \<le> rgWrite s then PSpin w m else PFill w m)\<rparr>
     | PFill w m \<Rightarrow>
         s\<lparr>rgRecord := (rgRecord s)(w mod N := m), rgProd := (rgProd s)(p := PPublish w m)\<rparr>
     | PPublish w m \<Rightarrow>
         s\<lparr>rgFlag := (rgFlag s)(w mod N := True), rgProd := (rgProd s)(p := PIdle)\<rparr>)"

text \<open>
  The record goes to the file with the name of its level, an unchecked array access, and the thread
  goes on at \<open>r\<close>.
\<close>

definition emit :: "LogMsg \<Rightarrow> reader \<Rightarrow> ring \<Rightarrow> ring" where
  "emit m r s = (case level_name m of
      Inl e \<Rightarrow> s\<lparr>rgReader := RFault e\<rparr> | Inr _ \<Rightarrow> s\<lparr>rgReader := r, rgOut := rgOut s @ [m]\<rparr>)"

definition reader_step :: "nat \<Rightarrow> ring \<Rightarrow> ring" where
  "reader_step N s =
    (case rgReader s of
       RIdle \<Rightarrow> s\<lparr>rgReader := (if rgExit s then RLast else RTake)\<rparr>
     | RTake \<Rightarrow> s\<lparr>rgRead := rgRead s + 1, rgReader := RWait (rgRead s)\<rparr>
     | RWait i \<Rightarrow> s\<lparr>rgReader := (if rgExit s then RMove i else RLook i)\<rparr>
     | RLook i \<Rightarrow> s\<lparr>rgReader := (if rgFlag s (i mod N) then RMove i else RWait i)\<rparr>
     | RMove i \<Rightarrow>
         s\<lparr>rgReader := RClear i (rgRecord s (i mod N)),
           rgRecord := (rgRecord s)(i mod N := LogMsg_reset)\<rparr>
     | RClear i m \<Rightarrow> emit m RIdle (s\<lparr>rgFlag := (rgFlag s)(i mod N := False)\<rparr>)
     | RLast \<Rightarrow> s\<lparr>rgRead := rgRead s + 1, rgReader := RDrain (rgRead s)\<rparr>
     | RDrain i \<Rightarrow> s\<lparr>rgReader := (if rgFlag s (i mod N) then RDrainMove i else RDone)\<rparr>
     | RDrainMove i \<Rightarrow>
         s\<lparr>rgReader := RDrainClear i (rgRecord s (i mod N)),
           rgRecord := (rgRecord s)(i mod N := LogMsg_reset)\<rparr>
     | RDrainClear i m \<Rightarrow> emit m RLast (s\<lparr>rgFlag := (rgFlag s)(i mod N := False)\<rparr>)
     | RDone \<Rightarrow> s
     | RFault e \<Rightarrow> s)"

text \<open>
  Any level that is not negative may be passed; above \<open>PERF\<close> the call does nothing. A negative one
  would index outside the level names; the program passes only the constants of \<^verbatim>\<open>log.h\<close>.
\<close>

inductive ring_step :: "nat \<Rightarrow> ring \<Rightarrow> ring \<Rightarrow> bool" for N where
  log_call: "rgProd s p = PIdle \<Longrightarrow> 0 \<le> level \<Longrightarrow> ring_step N s (Logger_log p level text s)"
| produce: "rgProd s p \<noteq> PIdle \<Longrightarrow> ring_step N s (producer_step N p s)"
| consume: "ring_step N s (reader_step N s)"
| exit_call: "ring_step N s (s\<lparr>rgExit := True\<rparr>)"

inductive_cases ring_stepE: "ring_step N s t"

inductive running :: "nat \<Rightarrow> ring \<Rightarrow> ring \<Rightarrow> bool" for N where
  refl: "running N s s"
| step: "running N s t \<Longrightarrow> ring_step N t u \<Longrightarrow> running N s u"

section \<open>The invariant of the ring\<close>

fun holds :: "producer \<Rightarrow> (nat \<times> LogMsg) option" where
  "holds PIdle = None"
| "holds (PSpin w m) = Some (w, m)"
| "holds (PLoaded w m r) = Some (w, m)"
| "holds (PFill w m) = Some (w, m)"
| "holds (PPublish w m) = Some (w, m)"

definition held :: "ring \<Rightarrow> nat \<Rightarrow> bool" where
  "held s w \<longleftrightarrow> (\<exists>p m. holds (rgProd s p) = Some (w, m))"

text \<open>The indices below \<open>consumed\<close> are done with.\<close>

definition consumed :: "ring \<Rightarrow> nat" where
  "consumed s = (case rgReader s of RWait i \<Rightarrow> i | RLook i \<Rightarrow> i | RMove i \<Rightarrow> i | RClear i m \<Rightarrow> i | _ \<Rightarrow> rgRead s)"

text \<open>A ticket that is published: taken, no longer held, not yet consumed.\<close>

definition published :: "ring \<Rightarrow> nat \<Rightarrow> bool" where
  "published s w \<longleftrightarrow> consumed s \<le> w \<and> w < rgWrite s \<and> \<not> held s w"

definition reader_ok :: "ring \<Rightarrow> bool" where
  "reader_ok s \<longleftrightarrow>
    (case rgReader s of
       RIdle \<Rightarrow> rgRead s \<le> rgWrite s
     | RTake \<Rightarrow> rgRead s \<le> rgWrite s
     | RWait i \<Rightarrow> rgRead s = i + 1 \<and> i \<le> rgWrite s
     | RLook i \<Rightarrow> rgRead s = i + 1 \<and> i \<le> rgWrite s
     | RMove i \<Rightarrow> rgRead s = i + 1 \<and> published s i
     | RClear i m \<Rightarrow> rgRead s = i + 1 \<and> published s i \<and> m = rgLogged s ! i
     | _ \<Rightarrow> False)"

definition history_ok :: "ring \<Rightarrow> bool" where
  "history_ok s \<longleftrightarrow> length (rgLogged s) = rgWrite s \<and> rgOut s = take (consumed s) (rgLogged s) \<and>
     (\<forall>m \<in> set (rgLogged s). \<exists>n. level_name m = Inr n)"

definition tickets_ok :: "ring \<Rightarrow> bool" where
  "tickets_ok s \<longleftrightarrow>
    (\<forall>p w m. holds (rgProd s p) = Some (w, m) \<longrightarrow> consumed s \<le> w \<and> w < rgWrite s \<and> rgLogged s ! w = m) \<and>
    (\<forall>p q w m m'. holds (rgProd s p) = Some (w, m) \<longrightarrow> holds (rgProd s q) = Some (w, m') \<longrightarrow> p = q)"

definition guard_ok :: "nat \<Rightarrow> ring \<Rightarrow> bool" where
  "guard_ok N s \<longleftrightarrow>
    (\<forall>p w m r. rgProd s p = PLoaded w m r \<longrightarrow> r \<le> rgRead s) \<and>
    (\<forall>p w m. rgProd s p = PFill w m \<or> rgProd s p = PPublish w m \<longrightarrow> w + 2 \<le> rgRead s + N) \<and>
    (\<forall>w. published s w \<longrightarrow> w + 2 \<le> rgRead s + N)"

definition slots_ok :: "nat \<Rightarrow> ring \<Rightarrow> bool" where
  "slots_ok N s \<longleftrightarrow>
    (\<forall>p w m. rgProd s p = PPublish w m \<longrightarrow> rgRecord s (w mod N) = m) \<and>
    (\<forall>w. published s w \<longrightarrow> rgFlag s (w mod N) \<and>
       ((\<exists>m. rgReader s = RClear w m) \<or> rgRecord s (w mod N) = rgLogged s ! w)) \<and>
    (\<forall>j. rgFlag s j \<longrightarrow> (\<exists>w. published s w \<and> j = w mod N))"

definition ring_inv :: "nat \<Rightarrow> ring \<Rightarrow> bool" where
  "ring_inv N s \<longleftrightarrow> reader_ok s \<and> history_ok s \<and> tickets_ok s \<and> guard_ok N s \<and> slots_ok N s"

lemma ticketD:
  "tickets_ok s \<Longrightarrow> holds (rgProd s p) = Some (w, m) \<Longrightarrow>
   consumed s \<le> w \<and> w < rgWrite s \<and> rgLogged s ! w = m"
  by (simp add: tickets_ok_def)

lemma ticket_unique:
  "tickets_ok s \<Longrightarrow> holds (rgProd s p) = Some (w, m) \<Longrightarrow> holds (rgProd s q) = Some (w, m') \<Longrightarrow> p = q"
  unfolding tickets_ok_def by blast

lemma ticketsI:
  assumes "\<And>p w m. holds (rgProd s p) = Some (w, m) \<Longrightarrow>
      consumed s \<le> w \<and> w < rgWrite s \<and> rgLogged s ! w = m"
    and "\<And>p q w m m'. holds (rgProd s p) = Some (w, m) \<Longrightarrow> holds (rgProd s q) = Some (w, m') \<Longrightarrow> p = q"
  shows "tickets_ok s"
  using assms unfolding tickets_ok_def by blast

lemma mod_window:
  assumes "x mod N = y mod N" and "c \<le> x" "x < c + N" "c \<le> y" "y < c + (N::nat)"
  shows "x = y"
proof -
  have eq: "x = y" if "x mod N = y mod N" "x \<le> y" "y < x + N" for x y :: nat
  proof -
    from that(1,2) have "N dvd y - x" by (metis mod_eq_dvd_iff_nat)
    moreover from that have "y - x < N" by linarith
    ultimately show ?thesis using that(2) by (auto dest: dvd_imp_le)
  qed
  show ?thesis
  proof (cases "x \<le> y")
    case True
    with assms show ?thesis by (rule_tac eq) simp_all
  next
    case False
    with assms show ?thesis by (rule_tac eq [symmetric]) simp_all
  qed
qed

lemma reader_ok_bounds: "reader_ok s \<Longrightarrow> consumed s \<le> rgRead s \<and> rgRead s \<le> consumed s + 1 \<and> consumed s \<le> rgWrite s"
  by (auto simp: reader_ok_def consumed_def published_def split: reader.splits)

text \<open>Two published or filling tickets never share a slot.\<close>

lemma slot_unique:
  assumes "reader_ok s" and "v + 2 \<le> rgRead s + N" and "w + 2 \<le> rgRead s + N"
    and "consumed s \<le> v" and "consumed s \<le> w" and "v mod N = w mod N"
  shows "v = w"
  using mod_window [OF assms(6), of "consumed s"] reader_ok_bounds [OF assms(1)] assms(2-5) by linarith

lemma ring_inv_init: "ring_inv N ring_init"
  by (simp add: ring_inv_def reader_ok_def history_ok_def tickets_ok_def guard_ok_def slots_ok_def
    ring_init_def consumed_def published_def)

subsection \<open>Logging threads\<close>

lemma level_name_new: "0 \<le> level \<Longrightarrow> level \<le> PERF \<Longrightarrow> \<exists>n. level_name (LogMsg_new level text) = Inr n"
proof -
  assume "0 \<le> level" "level \<le> PERF"
  then have "unat (word_of_int level :: 32 word) = nat level"
    by (simp add: PERF_def unat_eq_nat_uint uint_word_of_int)
  with \<open>level \<le> PERF\<close> show ?thesis
    by (simp add: level_name_def LogMsg_new_def vec_get_def levels_def PERF_def)
qed

lemma ring_inv_log:
  assumes inv: "ring_inv N s" and p: "rgProd s p = PIdle" and "0 \<le> level"
  shows "ring_inv N (Logger_log p level text s)"
proof (cases "PERF < level")
  case False
  define m where "m = LogMsg_new level text"
  define t where "t = Logger_log p level text s"
  have t: "rgProd t = (rgProd s)(p := PSpin (rgWrite s) m)" "rgWrite t = rgWrite s + 1"
      "rgLogged t = rgLogged s @ [m]" "rgRead t = rgRead s" "rgReader t = rgReader s"
      "rgOut t = rgOut s" "rgFlag t = rgFlag s" "rgRecord t = rgRecord s"
    using False by (simp_all add: t_def m_def Logger_log_def)
  have inv1: "reader_ok s" "history_ok s" "tickets_ok s" "guard_ok N s" "slots_ok N s"
    using inv by (simp_all add: ring_inv_def)
  have len: "length (rgLogged s) = rgWrite s" using inv1(2) by (simp add: history_ok_def)
  have cons: "consumed t = consumed s" by (simp add: t consumed_def split: reader.split)
  have c: "consumed s \<le> rgWrite s" using reader_ok_bounds [OF inv1(1)] by simp
  have held: "held t w \<longleftrightarrow> held s w \<or> w = rgWrite s" for w
    using p by (auto simp: held_def t) (metis holds.simps(1) option.distinct(1))+
  have pub: "published t w \<longleftrightarrow> published s w" for w
    by (auto simp: published_def cons held t)
  have nth: "published s w \<Longrightarrow> rgLogged t ! w = rgLogged s ! w" for w
    by (simp add: t nth_append len published_def)
  have "reader_ok t"
    using inv1(1) nth by (auto simp: reader_ok_def t(2,4,5) pub split: reader.splits)
  moreover have "\<exists>n. level_name m = Inr n"
    unfolding m_def using False by (intro level_name_new assms) simp
  then have "history_ok t"
    using inv1(2) c by (auto simp: history_ok_def cons t)
  moreover have "tickets_ok t"
    using c len ticketD [OF inv1(3)] ticket_unique [OF inv1(3)]
    by (intro ticketsI; force simp: cons t nth_append split: if_splits)
  moreover have "guard_ok N t"
    using inv1(4) unfolding guard_ok_def pub t by auto
  moreover have "slots_ok N t"
    using inv1(5) nth unfolding slots_ok_def pub by (auto simp: t(1,5,7,8))
  ultimately show ?thesis by (simp add: ring_inv_def t_def)
qed (use inv in \<open>simp add: Logger_log_def\<close>)

lemma ring_invD:
  "ring_inv N s \<Longrightarrow> reader_ok s" "ring_inv N s \<Longrightarrow> history_ok s" "ring_inv N s \<Longrightarrow> tickets_ok s"
  "ring_inv N s \<Longrightarrow> guard_ok N s" "ring_inv N s \<Longrightarrow> slots_ok N s"
  by (simp_all add: ring_inv_def)

lemma guardD:
  assumes "guard_ok N s"
  shows "rgProd s p = PLoaded w m r \<Longrightarrow> r \<le> rgRead s"
    and "rgProd s p = PFill w m \<Longrightarrow> w + 2 \<le> rgRead s + N"
    and "rgProd s p = PPublish w m \<Longrightarrow> w + 2 \<le> rgRead s + N"
    and "published s w \<Longrightarrow> w + 2 \<le> rgRead s + N"
  using assms unfolding guard_ok_def by blast+

lemma slotD:
  assumes "slots_ok N s"
  shows "rgProd s p = PPublish w m \<Longrightarrow> rgRecord s (w mod N) = m"
    and "published s w \<Longrightarrow> rgFlag s (w mod N)"
    and "published s w \<Longrightarrow> (\<exists>m. rgReader s = RClear w m) \<or> rgRecord s (w mod N) = rgLogged s ! w"
    and "rgFlag s j \<Longrightarrow> \<exists>w. published s w \<and> j = w mod N"
  using assms unfolding slots_ok_def by blast+

text \<open>A step of a logging thread that keeps its ticket touches neither counters nor history.\<close>

definition same_tickets :: "ring \<Rightarrow> ring \<Rightarrow> bool" where
  "same_tickets s t \<longleftrightarrow> (\<forall>q. holds (rgProd t q) = holds (rgProd s q)) \<and> rgRead t = rgRead s \<and>
     rgWrite t = rgWrite s \<and> rgReader t = rgReader s \<and> rgOut t = rgOut s \<and> rgLogged t = rgLogged s \<and>
     rgFlag t = rgFlag s"

lemma same_tickets_inv:
  assumes "same_tickets s t"
  shows "published t w = published s w" and "consumed t = consumed s"
    and "reader_ok s \<Longrightarrow> reader_ok t" and "history_ok s \<Longrightarrow> history_ok t" and "tickets_ok s \<Longrightarrow> tickets_ok t"
proof -
  have c: "consumed t = consumed s"
    using assms by (simp add: same_tickets_def consumed_def split: reader.split)
  have "held t w = held s w" for w
    using assms by (simp add: same_tickets_def held_def)
  then have pub: "published t w = published s w" for w
    using assms c by (simp add: same_tickets_def published_def)
  show "published t w = published s w" "consumed t = consumed s" by (fact pub, fact c)
  show "reader_ok s \<Longrightarrow> reader_ok t"
    using assms by (auto simp: reader_ok_def same_tickets_def pub split: reader.splits)
  show "history_ok s \<Longrightarrow> history_ok t"
    using assms by (simp add: history_ok_def same_tickets_def c)
  show "tickets_ok s \<Longrightarrow> tickets_ok t"
    using assms by (simp add: tickets_ok_def same_tickets_def c)
qed

lemma ring_inv_same:
  assumes inv: "ring_inv N s" and t: "same_tickets s t" and "rgRecord t = rgRecord s"
    and p: "\<And>q. q \<noteq> p \<Longrightarrow> rgProd t q = rgProd s q"
    and l: "\<And>w m r. rgProd t p = PLoaded w m r \<Longrightarrow> r \<le> rgRead s"
    and f: "\<And>w m. rgProd t p = PFill w m \<Longrightarrow> w + 2 \<le> rgRead s + N"
    and u: "\<And>w m. rgProd t p \<noteq> PPublish w m"
  shows "ring_inv N t"
proof -
  have r: "rgRead t = rgRead s" "rgFlag t = rgFlag s" "rgLogged t = rgLogged s" "rgReader t = rgReader s"
    using t by (simp_all add: same_tickets_def)
  have "guard_ok N t"
    using guardD [OF ring_invD(4) [OF inv]] l f u p
    unfolding guard_ok_def same_tickets_inv(1) [OF t] r by metis
  moreover have "slots_ok N t"
    using slotD [OF ring_invD(5) [OF inv]] u p
    unfolding slots_ok_def same_tickets_inv(1) [OF t] r assms(3) by metis
  ultimately show ?thesis
    using inv same_tickets_inv [OF t] by (simp add: ring_inv_def)
qed

lemma ring_inv_fill:
  assumes inv: "ring_inv N s" and p: "rgProd s p = PFill w m"
  shows "ring_inv N (producer_step N p s)"
proof -
  define t where "t = producer_step N p s"
  have t: "rgProd t = (rgProd s)(p := PPublish w m)" "rgRecord t = (rgRecord s)(w mod N := m)"
      "rgRead t = rgRead s" "rgFlag t = rgFlag s" "rgLogged t = rgLogged s" "rgReader t = rgReader s"
    by (simp_all add: t_def producer_step_def p)
  have same: "same_tickets s t"
    by (auto simp: t_def same_tickets_def producer_step_def p)
  note g = guardD [OF ring_invD(4) [OF inv]]
  note tk = ticketD [OF ring_invD(3) [OF inv]]
  have own: "holds (rgProd s p) = Some (w, m)" by (simp add: p)
  have other: "v mod N \<noteq> w mod N" if "v \<noteq> w" "v + 2 \<le> rgRead s + N" "consumed s \<le> v" for v
    using slot_unique [OF ring_invD(1) [OF inv] that(2) g(2) [OF p] that(3)] tk [OF own] that(1) by blast
  have pub: "v \<noteq> w" "v mod N \<noteq> w mod N" if "published s v" for v
  proof -
    show "v \<noteq> w" using that own by (auto simp: published_def held_def)
    then show "v mod N \<noteq> w mod N"
      using that g(4) [OF that] by (intro other) (simp_all add: published_def)
  qed
  have publishing: "v mod N \<noteq> w mod N" if "rgProd s q = PPublish v m'" for q v m'
  proof (rule other)
    have h: "holds (rgProd s q) = Some (v, m')" by (simp add: that)
    show "v \<noteq> w" using ticket_unique [OF ring_invD(3) [OF inv] own, of q] h p that by auto
    show "v + 2 \<le> rgRead s + N" by (rule g(3) [OF that])
    show "consumed s \<le> v" using tk [OF h] by simp
  qed
  have "guard_ok N t"
    using g p unfolding guard_ok_def same_tickets_inv(1) [OF same] t by (auto simp: fun_upd_def)
  moreover have "slots_ok N t"
    using slotD [OF ring_invD(5) [OF inv]] pub publishing
    unfolding slots_ok_def same_tickets_inv(1) [OF same] t by (auto simp: fun_upd_def)
  ultimately show ?thesis
    using inv same_tickets_inv [OF same] by (simp add: ring_inv_def t_def)
qed

lemma ring_inv_publish:
  assumes inv: "ring_inv N s" and p: "rgProd s p = PPublish w m"
  shows "ring_inv N (producer_step N p s)"
proof -
  define t where "t = producer_step N p s"
  have t: "rgProd t = (rgProd s)(p := PIdle)" "rgFlag t = (rgFlag s)(w mod N := True)"
      "rgRead t = rgRead s" "rgWrite t = rgWrite s" "rgRecord t = rgRecord s" "rgLogged t = rgLogged s"
      "rgReader t = rgReader s" "rgOut t = rgOut s"
    by (simp_all add: t_def producer_step_def p)
  note g = guardD [OF ring_invD(4) [OF inv]]
  note tk = ticketD [OF ring_invD(3) [OF inv]] and tu = ticket_unique [OF ring_invD(3) [OF inv]]
  note sl = slotD [OF ring_invD(5) [OF inv]]
  have own: "holds (rgProd s p) = Some (w, m)" by (simp add: p)
  have cons: "consumed t = consumed s" by (simp add: consumed_def t split: reader.split)
  have held: "held t v \<longleftrightarrow> held s v \<and> v \<noteq> w" for v
  proof -
    have "held t v \<longleftrightarrow> (\<exists>q m'. q \<noteq> p \<and> holds (rgProd s q) = Some (v, m'))"
      by (auto simp: held_def t)
    also have "\<dots> \<longleftrightarrow> held s v \<and> v \<noteq> w"
    proof
      assume "\<exists>q m'. q \<noteq> p \<and> holds (rgProd s q) = Some (v, m')"
      with tu own show "held s v \<and> v \<noteq> w" unfolding held_def by blast
    next
      assume "held s v \<and> v \<noteq> w"
      then obtain q m' where "holds (rgProd s q) = Some (v, m')" "v \<noteq> w" by (auto simp: held_def)
      moreover from this own have "q \<noteq> p" by auto
      ultimately show "\<exists>q m'. q \<noteq> p \<and> holds (rgProd s q) = Some (v, m')" by blast
    qed
    finally show ?thesis .
  qed
  have pub: "published t v \<longleftrightarrow> published s v \<or> v = w" for v
    using tk [OF own] by (auto simp: published_def cons held t)
  have "reader_ok t"
    using ring_invD(1) [OF inv] pub by (auto simp: reader_ok_def t split: reader.splits)
  moreover have "history_ok t"
    using ring_invD(2) [OF inv] by (simp add: history_ok_def cons t)
  moreover have "tickets_ok t"
    using tk tu by (intro ticketsI; force simp: cons t split: if_splits)
  moreover have "guard_ok N t"
    using g p unfolding guard_ok_def pub t by (auto simp: fun_upd_def)
  moreover have "\<exists>v. published t v \<and> j = v mod N" if "rgFlag t j" for j
  proof (cases "rgFlag s j")
    case True
    then show ?thesis using sl(4) [of j] pub by blast
  next
    case False
    then show ?thesis using that pub by (auto simp: t split: if_splits)
  qed
  then have "slots_ok N t"
    using sl(1-3) p tk [OF own] unfolding slots_ok_def by (auto simp: pub t)
  ultimately show ?thesis by (simp add: ring_inv_def t_def)
qed

lemma ring_inv_produce:
  assumes inv: "ring_inv N s"
  shows "ring_inv N (producer_step N p s)"
proof (cases "rgProd s p")
  case (PSpin w m)
  then show ?thesis
    by (intro ring_inv_same [OF inv, of _ p]) (auto simp: same_tickets_def producer_step_def)
next
  case (PLoaded w m r)
  have "r \<le> rgRead s" by (rule guardD(1) [OF ring_invD(4) [OF inv] PLoaded])
  moreover have "w < rgWrite s"
    using ticketD [OF ring_invD(3) [OF inv], of p w m] PLoaded by simp
  ultimately show ?thesis
    using PLoaded by (intro ring_inv_same [OF inv, of _ p])
      (auto simp: same_tickets_def producer_step_def split: if_splits)
qed (use inv ring_inv_fill [OF inv] ring_inv_publish [OF inv] in \<open>auto simp: producer_step_def\<close>)

subsection \<open>The background thread\<close>

text \<open>Steps that only go on to the next access.\<close>

lemma ring_inv_goes_on:
  assumes inv: "ring_inv N s" and "consumed (s\<lparr>rgReader := r\<rparr>) = consumed s"
    and ok: "reader_ok s \<Longrightarrow> reader_ok (s\<lparr>rgReader := r\<rparr>)" and nc: "\<And>i m. rgReader s \<noteq> RClear i m"
  shows "ring_inv N (s\<lparr>rgReader := r\<rparr>)"
proof -
  let ?t = "s\<lparr>rgReader := r\<rparr>"
  have pub: "published ?t v = published s v" for v by (simp add: published_def assms(2) held_def)
  have "history_ok ?t" using ring_invD(2) [OF inv] by (simp add: history_ok_def assms(2))
  moreover have "tickets_ok ?t" using ring_invD(3) [OF inv] by (simp add: tickets_ok_def assms(2))
  moreover have "guard_ok N ?t" using ring_invD(4) [OF inv] unfolding guard_ok_def pub by simp
  moreover have "slots_ok N ?t" using ring_invD(5) [OF inv] nc unfolding slots_ok_def pub by auto
  ultimately show ?thesis using ok [OF ring_invD(1) [OF inv]] by (simp add: ring_inv_def)
qed

lemma ring_inv_claim:
  assumes inv: "ring_inv N s" and r: "rgReader s = RTake"
  shows "ring_inv N (reader_step N s)"
proof -
  define t where "t = reader_step N s"
  have t: "rgRead t = rgRead s + 1" "rgReader t = RWait (rgRead s)" "rgProd t = rgProd s"
      "rgWrite t = rgWrite s" "rgRecord t = rgRecord s" "rgLogged t = rgLogged s" "rgOut t = rgOut s"
      "rgFlag t = rgFlag s"
    by (simp_all add: t_def reader_step_def r)
  have cons: "consumed t = consumed s" by (simp add: consumed_def t r)
  have pub: "published t v = published s v" for v by (simp add: published_def cons t held_def)
  have "reader_ok t" using ring_invD(1) [OF inv] by (simp add: reader_ok_def t r)
  moreover have "history_ok t" using ring_invD(2) [OF inv] by (simp add: history_ok_def t cons)
  moreover have "tickets_ok t" using ring_invD(3) [OF inv] by (simp add: tickets_ok_def t cons)
  moreover have "guard_ok N t"
    using ring_invD(4) [OF inv] unfolding guard_ok_def pub t by fastforce
  moreover have "slots_ok N t"
    using ring_invD(5) [OF inv] unfolding slots_ok_def pub t by (simp add: r)
  ultimately show ?thesis by (simp add: ring_inv_def t_def)
qed

text \<open>The flag the reader sees set is that of the index it waits for.\<close>

lemma awaited_published:
  assumes inv: "ring_inv N s" and r: "rgReader s = RLook i" and f: "rgFlag s (i mod N)"
  shows "published s i"
proof -
  obtain w where w: "published s w" "i mod N = w mod N"
    using slotD(4) [OF ring_invD(5) [OF inv] f] by blast
  have rd: "rgRead s = i + 1" "consumed s = i"
    using ring_invD(1) [OF inv] by (simp_all add: reader_ok_def r consumed_def)
  have "w + 2 \<le> rgRead s + N" by (rule guardD(4) [OF ring_invD(4) [OF inv] w(1)])
  moreover have "i \<le> w" using w(1) rd by (simp add: published_def)
  ultimately have "i = w" using rd by (intro mod_window [OF w(2), of i]) simp_all
  with w(1) show ?thesis by simp
qed

lemma ring_inv_wait:
  assumes inv: "ring_inv N s" and x: "\<not> rgExit s" and r: "rgReader s = RIdle \<or> rgReader s = RWait i"
  shows "ring_inv N (reader_step N s)"
proof -
  obtain r1 where t: "reader_step N s = s\<lparr>rgReader := r1\<rparr>" and
      r1: "rgReader s = RIdle \<and> r1 = RTake \<or> rgReader s = RWait i \<and> r1 = RLook i"
    using r x by (auto simp: reader_step_def)
  show ?thesis
    unfolding t by (rule ring_inv_goes_on [OF inv]) (use r1 in \<open>auto simp: consumed_def reader_ok_def\<close>)
qed

lemma ring_inv_see:
  assumes inv: "ring_inv N s" and r: "rgReader s = RLook i"
  shows "ring_inv N (reader_step N s)"
proof -
  define r1 where "r1 = (if rgFlag s (i mod N) then RMove i else RWait i)"
  have t: "reader_step N s = s\<lparr>rgReader := r1\<rparr>" by (simp add: reader_step_def r r1_def)
  have "published (s\<lparr>rgReader := RMove i\<rparr>) i" if "rgFlag s (i mod N)"
    using awaited_published [OF inv r that] by (simp add: published_def consumed_def r held_def)
  then show ?thesis
    unfolding t by (intro ring_inv_goes_on [OF inv]) (auto simp: r1_def consumed_def reader_ok_def r)
qed

text \<open>Slots of other tickets than the one being read.\<close>

lemma other_slot:
  assumes inv: "ring_inv N s" and i: "published s i" and v: "v \<noteq> i" "v + 2 \<le> rgRead s + N" "consumed s \<le> v"
  shows "v mod N \<noteq> i mod N"
  using slot_unique [OF ring_invD(1) [OF inv] v(2) guardD(4) [OF ring_invD(4) [OF inv] i] v(3)] i v(1)
  by (auto simp: published_def)

lemma other_slots:
  assumes inv: "ring_inv N s" and i: "published s i"
  shows "published s v \<Longrightarrow> v \<noteq> i \<Longrightarrow> v mod N \<noteq> i mod N"
    and "rgProd s q = PPublish v m \<Longrightarrow> v mod N \<noteq> i mod N"
proof -
  show "published s v \<Longrightarrow> v \<noteq> i \<Longrightarrow> v mod N \<noteq> i mod N"
    using other_slot [OF inv i, of v] guardD(4) [OF ring_invD(4) [OF inv], of v] by (simp add: published_def)
  assume q: "rgProd s q = PPublish v m"
  then have h: "holds (rgProd s q) = Some (v, m)" by simp
  then have "v \<noteq> i" using i by (auto simp: published_def held_def)
  then show "v mod N \<noteq> i mod N"
    using ticketD [OF ring_invD(3) [OF inv] h] guardD(3) [OF ring_invD(4) [OF inv] q]
    by (intro other_slot [OF inv i]) simp_all
qed

lemma ring_inv_move:
  assumes inv: "ring_inv N s" and r: "rgReader s = RMove i"
  shows "ring_inv N (reader_step N s)"
proof -
  define t where "t = reader_step N s"
  have t: "rgRead t = rgRead s" "rgReader t = RClear i (rgRecord s (i mod N))" "rgProd t = rgProd s"
      "rgWrite t = rgWrite s" "rgRecord t = (rgRecord s)(i mod N := LogMsg_reset)"
      "rgLogged t = rgLogged s" "rgOut t = rgOut s" "rgFlag t = rgFlag s"
    by (simp_all add: t_def reader_step_def r)
  have rd: "rgRead s = i + 1" "published s i" using ring_invD(1) [OF inv] by (simp_all add: reader_ok_def r)
  have cons: "consumed t = consumed s" by (simp add: consumed_def t r)
  have pub: "published t v = published s v" for v by (simp add: published_def cons t held_def)
  have rec: "rgRecord s (i mod N) = rgLogged s ! i"
    using slotD(3) [OF ring_invD(5) [OF inv] rd(2)] r by simp
  have "reader_ok t" using rd rec by (simp add: reader_ok_def t pub)
  moreover have "history_ok t" using ring_invD(2) [OF inv] by (simp add: history_ok_def t cons)
  moreover have "tickets_ok t" using ring_invD(3) [OF inv] by (simp add: tickets_ok_def t cons)
  moreover have "guard_ok N t"
    using ring_invD(4) [OF inv] unfolding guard_ok_def pub t by simp
  moreover have "v = i" if "published s v" "v mod N = i mod N" for v
    using other_slots(1) [OF inv rd(2)] that by blast
  then have "slots_ok N t"
    using slotD [OF ring_invD(5) [OF inv]] other_slots(2) [OF inv rd(2)] r
    unfolding slots_ok_def pub t by (auto simp: fun_upd_def)
  ultimately show ?thesis by (simp add: ring_inv_def t_def)
qed

lemma ring_inv_clear:
  assumes inv: "ring_inv N s" and r: "rgReader s = RClear i m"
  shows "ring_inv N (reader_step N s)"
proof -
  have rd: "rgRead s = i + 1" "published s i" "m = rgLogged s ! i" "consumed s = i"
    using ring_invD(1) [OF inv] by (simp_all add: reader_ok_def r consumed_def)
  have len: "i < length (rgLogged s)"
    using rd(2) ring_invD(2) [OF inv] by (simp add: published_def history_ok_def)
  then have "m \<in> set (rgLogged s)" using rd(3) by simp
  then obtain n where n: "level_name m = Inr n" using ring_invD(2) [OF inv] by (auto simp: history_ok_def)
  define t where "t = reader_step N s"
  have t: "rgRead t = rgRead s" "rgReader t = RIdle" "rgProd t = rgProd s" "rgWrite t = rgWrite s"
      "rgRecord t = rgRecord s" "rgLogged t = rgLogged s" "rgOut t = rgOut s @ [m]"
      "rgFlag t = (rgFlag s)(i mod N := False)"
    by (simp_all add: t_def reader_step_def r emit_def n)
  have cons: "consumed t = i + 1" by (simp add: consumed_def t rd)
  have pub: "published t v \<longleftrightarrow> published s v \<and> v \<noteq> i" for v
    by (auto simp: published_def cons t held_def rd)
  note tk = ticketD [OF ring_invD(3) [OF inv]]
  have "reader_ok t" using rd(1,2) by (simp add: reader_ok_def t published_def)
  moreover have "history_ok t"
    using ring_invD(2) [OF inv] len rd(3,4) by (simp add: history_ok_def t cons take_Suc_conv_app_nth)
  moreover have "i \<noteq> w" if "holds (rgProd s q) = Some (w, m')" for q w m'
    using that rd(2) by (auto simp: published_def held_def)
  then have "tickets_ok t"
    using tk ticket_unique [OF ring_invD(3) [OF inv]] rd(4)
    by (intro ticketsI; fastforce simp: cons t)
  moreover have "guard_ok N t"
    using ring_invD(4) [OF inv] unfolding guard_ok_def pub t by simp
  moreover have "slots_ok N t"
    using slotD [OF ring_invD(5) [OF inv]] other_slots [OF inv rd(2)] r
    unfolding slots_ok_def pub t by (auto simp: fun_upd_def) (metis reader.inject(4))+
  ultimately show ?thesis by (simp add: ring_inv_def t_def)
qed

lemma ring_inv_step:
  assumes "ring_step N s t" and "ring_inv N s" and "\<not> rgExit t"
  shows "ring_inv N t"
  using assms(1)
proof cases
  case consume
  then have "\<not> rgExit s"
    using assms(3) by (auto simp: reader_step_def emit_def split: reader.splits sum.splits)
  then show ?thesis
    using consume ring_invD(1) [OF assms(2)] ring_inv_wait ring_inv_claim ring_inv_see ring_inv_move ring_inv_clear
      assms(2)
    by (cases "rgReader s") (auto simp: reader_ok_def)
qed (use assms ring_inv_log ring_inv_produce in auto)

lemma exit_stays: "ring_step N s t \<Longrightarrow> rgExit s \<Longrightarrow> rgExit t"
  by (auto elim!: ring_stepE simp: Logger_log_def producer_step_def reader_step_def emit_def
    split: producer.splits reader.splits sum.splits)

lemma ring_inv_running: "running N s t \<Longrightarrow> ring_inv N s \<Longrightarrow> \<not> rgExit t \<Longrightarrow> ring_inv N t"
  by (induction rule: running.induct) (auto dest: exit_stays intro: ring_inv_step)

section \<open>Runs for evaluation\<close>

lemma running_log:
  "running N s t \<Longrightarrow> rgProd t p = PIdle \<Longrightarrow> 0 \<le> level \<Longrightarrow> running N s (Logger_log p level text t)"
  by (erule running.step) (rule ring_step.log_call)

lemma running_produce: "running N s t \<Longrightarrow> rgProd t p \<noteq> PIdle \<Longrightarrow> running N s (producer_step N p t)"
  by (erule running.step) (rule ring_step.produce)

lemma running_consume: "running N s t \<Longrightarrow> running N s (reader_step N t)"
  by (erule running.step) (rule ring_step.consume)

lemma running_exit: "running N s t \<Longrightarrow> running N s (t\<lparr>rgExit := True\<rparr>)"
  by (erule running.step) (rule ring_step.exit_call)

lemmas run_steps = running_log running_produce running_consume running_exit running.refl

lemmas step_defs = Logger_log_def producer_step_def reader_step_def emit_def ring_init_def
  level_name_def LogMsg_new_def vec_get_def levels_def PERF_def REVY_def LogMsg_reset_def

text \<open>One message written by thread 0 and read; three threads that each took a ticket of a ring of
  two while the reader waits for the first.\<close>

definition sample_filled :: ring where
  "sample_filled = producer_step 2 0 (producer_step 2 0 (Logger_log 0 2 ''up'' ring_init))"

definition sample_logged :: ring where
  "sample_logged = reader_step 2 (reader_step 2 (reader_step 2 (reader_step 2 (reader_step 2 (reader_step 2
     (producer_step 2 0 (producer_step 2 0 sample_filled)))))))"

definition sample_published :: ring where
  "sample_published = producer_step 2 0 (producer_step 2 0 sample_filled)"

definition sample_full :: ring where
  "sample_full = Logger_log 0 2 ''more'' (producer_step 2 0 (producer_step 2 0 sample_filled))"

definition sample_jam :: ring where
  "sample_jam = Logger_log 2 2 ''c'' (Logger_log 1 2 ''b'' (Logger_log 0 2 ''a'' (reader_step 2 (reader_step 2 ring_init))))"

lemma sample_filled_state:
  "rgProd sample_filled 0 = PFill 0 (LogMsg_new 2 ''up'')" "\<not> rgExit sample_filled"
  by (simp_all add: sample_filled_def step_defs)

lemma sample_filled_running: "running 2 ring_init sample_filled"
  unfolding sample_filled_def by (intro run_steps) (simp_all add: step_defs)

lemma sample_logged_state: "rgOut sample_logged = [LogMsg_new 2 ''up'']" "\<not> rgExit sample_logged"
  by (simp_all add: sample_logged_def sample_filled_def step_defs MSG_SIZE_def)

lemma sample_logged_running: "running 2 ring_init sample_logged"
  unfolding sample_logged_def sample_filled_def by (intro run_steps) (simp_all add: step_defs)

lemma sample_published_state:
  "rgReader sample_published = RIdle" "\<not> rgExit sample_published" "\<forall>p. rgProd sample_published p = PIdle"
  "rgRead sample_published = 0" "rgWrite sample_published = 1" "rgLogged sample_published = [LogMsg_new 2 ''up'']"
  by (simp_all add: sample_published_def sample_filled_def step_defs)

lemma sample_published_running: "running 2 ring_init sample_published"
  unfolding sample_published_def sample_filled_def by (intro run_steps) (simp_all add: step_defs)

lemma sample_full_state:
  "rgRead sample_full = 0" "rgWrite sample_full = 2" "\<not> rgExit sample_full"
  "\<forall>q. q \<noteq> 0 \<longrightarrow> rgProd sample_full q = PIdle" "rgProd sample_full 0 = PSpin 1 (LogMsg_new 2 ''more'')"
  by (simp_all add: sample_full_def sample_filled_def step_defs)

lemma sample_full_running: "running 2 ring_init sample_full"
  unfolding sample_full_def sample_filled_def by (intro run_steps) (simp_all add: step_defs)

lemma sample_jam_state:
  "rgReader sample_jam = RWait 0" "rgProd sample_jam 0 = PSpin 0 (LogMsg_new 2 ''a'')" "\<not> rgExit sample_jam"
  "rgRead sample_jam = 1" "rgWrite sample_jam = 3" "\<not> rgFlag sample_jam 0" "rgOut sample_jam = []"
  by (simp_all add: sample_jam_def step_defs)

lemma sample_jam_running: "running 2 ring_init sample_jam"
  unfolding sample_jam_def by (intro run_steps) (simp_all add: step_defs)

section \<open>A jammed ring\<close>

text \<open>The reader waits for a ticket whose holder waits for the reader.\<close>

definition jammed :: "nat \<Rightarrow> ring \<Rightarrow> bool" where
  "jammed N s \<longleftrightarrow> \<not> rgExit s \<and> rgRead s + N \<le> rgWrite s \<and>
    (\<exists>i p m. (rgReader s = RWait i \<or> rgReader s = RLook i) \<and> \<not> rgFlag s (i mod N) \<and>
       (rgProd s p = PSpin i m \<or> (\<exists>r. rgProd s p = PLoaded i m r)))"

lemma jammed_step:
  assumes inv: "ring_inv N s" and jam: "jammed N s" and st: "ring_step N s t" and x: "\<not> rgExit t"
  shows "jammed N t \<and> rgOut t = rgOut s"
proof -
  obtain i p m where j: "rgReader s = RWait i \<or> rgReader s = RLook i" "\<not> rgFlag s (i mod N)" "\<not> rgExit s" "rgRead s + N \<le> rgWrite s"
      "rgProd s p = PSpin i m \<or> (\<exists>r. rgProd s p = PLoaded i m r)"
    using jam by (auto simp: jammed_def)
  have h: "holds (rgProd s p) = Some (i, m)" using j(5) by auto
  have stays: ?thesis
    if "rgProd t p = rgProd s p" "rgReader t = RWait i \<or> rgReader t = RLook i" "rgFlag t (i mod N) = rgFlag s (i mod N)"
      "rgRead t = rgRead s" "rgWrite s \<le> rgWrite t" "rgOut t = rgOut s"
    using j x that unfolding jammed_def by (metis le_trans)
  from st show ?thesis
  proof cases
    case (log_call q level msg)
    then have "q \<noteq> p" using j(5) by auto
    then show ?thesis using j(1) by (intro stays) (simp_all add: log_call(1) Logger_log_def)
  next
    case (produce q)
    show ?thesis
    proof (cases "q = p")
      case True
      have "r + N \<le> rgWrite s" if "rgProd s p = PLoaded i m r" for r
        using guardD(1) [OF ring_invD(4) [OF inv] that] j(4) by linarith
      then show ?thesis
        using j True produce(1) by (auto simp: jammed_def producer_step_def)
    next
      case False
      have "w mod N \<noteq> i mod N" if "rgProd s q = PPublish w m'" for w m'
      proof
        assume e: "w mod N = i mod N"
        have hq: "holds (rgProd s q) = Some (w, m')" by (simp add: that)
        have "rgRead s = i + 1" "consumed s = i"
          using ring_invD(1) [OF inv] j(1) by (auto simp: reader_ok_def consumed_def)
        then have "w = i"
          using ticketD [OF ring_invD(3) [OF inv] hq] guardD(3) [OF ring_invD(4) [OF inv] that]
          by (intro mod_window [OF e, of i]) simp_all
        with hq h False ticket_unique [OF ring_invD(3) [OF inv]] show False by blast
      qed
      with False j(1) show ?thesis
        by (intro stays) (auto simp: produce(1) producer_step_def split: producer.split)
    qed
  next
    case consume
    with j(1-3) show ?thesis by (intro stays) (auto simp: reader_step_def)
  qed (use x in auto)
qed

lemma jammed_running:
  assumes "running N s t" and "ring_inv N s" and "jammed N s" and "\<not> rgExit t"
  shows "jammed N t \<and> rgOut t = rgOut s"
  using assms
proof (induction rule: running.induct)
  case (step s t u)
  then have "\<not> rgExit t" using exit_stays by blast
  with step ring_inv_running jammed_step show ?case by metis
qed simp

section \<open>Shutting down\<close>

text \<open>
  The destructor joins the background thread: it returns when that thread has returned. Nothing
  in the program calls \<open>exit\<close>, and the assignment that would set \<open>_exit\<close> in the destructor is
  commented out.
\<close>

definition Logger_joined :: "ring \<Rightarrow> bool" where
  "Logger_joined s \<longleftrightarrow> rgReader s = RDone"

text \<open>After \<open>exit\<close>, between two records, with no logging thread under way: what is left to write.\<close>

definition drain_inv :: "nat \<Rightarrow> ring \<Rightarrow> bool" where
  "drain_inv N s \<longleftrightarrow> rgExit s \<and> rgReader s = RLast \<and> rgRead s \<le> rgWrite s \<and>
     length (rgLogged s) = rgWrite s \<and> rgOut s = take (rgRead s) (rgLogged s) \<and>
     (\<forall>m \<in> set (rgLogged s). \<exists>n. level_name m = Inr n) \<and>
     (\<forall>w. rgRead s \<le> w \<and> w < rgWrite s \<longrightarrow>
        w + 2 \<le> rgRead s + N \<and> rgFlag s (w mod N) \<and> rgRecord s (w mod N) = rgLogged s ! w) \<and>
     (\<forall>j. rgFlag s j \<longrightarrow> (\<exists>w. rgRead s \<le> w \<and> w < rgWrite s \<and> j = w mod N))"

lemma drain_invI:
  assumes inv: "ring_inv N s" and "rgReader s = RIdle" and "\<forall>p. rgProd s p = PIdle"
  shows "drain_inv N (reader_step N (s\<lparr>rgExit := True\<rparr>))"
proof -
  have t: "reader_step N (s\<lparr>rgExit := True\<rparr>) = s\<lparr>rgExit := True, rgReader := RLast\<rparr>"
    by (simp add: reader_step_def assms(2))
  have c: "consumed s = rgRead s" by (simp add: consumed_def assms(2))
  have p: "published s w \<longleftrightarrow> rgRead s \<le> w \<and> w < rgWrite s" for w
    using assms(3) by (simp add: published_def c held_def)
  have "rgRead s \<le> rgWrite s" using reader_ok_bounds [OF ring_invD(1) [OF inv]] c by simp
  moreover have "rgReader s \<noteq> RClear w m" for w m by (simp add: assms(2))
  ultimately show ?thesis
    using ring_invD(2) [OF inv] guardD(4) [OF ring_invD(4) [OF inv], unfolded p]
      slotD(2-4) [OF ring_invD(5) [OF inv], unfolded p] assms(2)
    unfolding t drain_inv_def history_ok_def c by auto
qed

text \<open>Four steps of the thread write one record; two find the next slot empty and return.\<close>

lemma drain_one:
  assumes inv: "drain_inv N s" and lt: "rgRead s < rgWrite s"
  shows "\<exists>t. (reader_step N ^^ 4) s = t \<and> drain_inv N t \<and> rgRead t = rgRead s + 1 \<and>
    rgWrite t = rgWrite s \<and> rgLogged t = rgLogged s"
proof -
  let ?r = "rgRead s" and ?j = "rgRead s mod N"
  have len: "length (rgLogged s) = rgWrite s" and out: "rgOut s = take ?r (rgLogged s)"
    and st: "rgExit s" "rgReader s = RLast"
    and cell: "\<And>w. ?r \<le> w \<Longrightarrow> w < rgWrite s \<Longrightarrow>
      w + 2 \<le> ?r + N \<and> rgFlag s (w mod N) \<and> rgRecord s (w mod N) = rgLogged s ! w"
    and flag: "\<And>j. rgFlag s j \<Longrightarrow> \<exists>w. ?r \<le> w \<and> w < rgWrite s \<and> j = w mod N"
    using inv by (simp_all add: drain_inv_def)
  have nth: "rgLogged s ! ?r \<in> set (rgLogged s)" using lt len by simp
  then obtain n where n: "level_name (rgLogged s ! ?r) = Inr n"
    using inv unfolding drain_inv_def by blast
  define t where "t = s\<lparr>rgRead := ?r + 1, rgRecord := (rgRecord s)(?j := LogMsg_reset),
     rgFlag := (rgFlag s)(?j := False), rgOut := rgOut s @ [rgLogged s ! ?r]\<rparr>"
  have steps: "(reader_step N ^^ 4) s = t"
    using cell [of ?r] lt st n
    by (simp add: eval_nat_numeral reader_step_def emit_def t_def fun_upd_def)
  have other: "w mod N \<noteq> ?j" if "?r + 1 \<le> w" "w < rgWrite s" for w
    using mod_window [of w N ?r ?r] cell [of w] that by auto
  have "rgFlag t (w mod N) \<and> rgRecord t (w mod N) = rgLogged s ! w \<and> w + 2 \<le> rgRead t + N"
    if "rgRead t \<le> w" "w < rgWrite t" for w
    using cell [of w] other [of w] that by (simp add: t_def)
  moreover have "\<exists>w. rgRead t \<le> w \<and> w < rgWrite t \<and> j = w mod N" if "rgFlag t j" for j
  proof -
    have "rgFlag s j" "j \<noteq> ?j" using that by (simp_all add: t_def split: if_splits)
    then obtain w where w: "?r \<le> w" "w < rgWrite s" "j = w mod N" using flag by blast
    with \<open>j \<noteq> ?j\<close> have "w \<noteq> ?r" by blast
    with w show ?thesis by (intro exI [of _ w]) (simp add: t_def)
  qed
  moreover have "rgExit t" "rgReader t = RLast" "rgRead t \<le> rgWrite t" "length (rgLogged t) = rgWrite t"
      "rgOut t = take (rgRead t) (rgLogged t)" "\<forall>m \<in> set (rgLogged t). \<exists>n. level_name m = Inr n"
    using inv st lt len out by (simp_all add: t_def drain_inv_def take_Suc_conv_app_nth)
  moreover have "rgLogged t = rgLogged s" by (simp add: t_def)
  ultimately have "drain_inv N t" unfolding drain_inv_def by metis
  with steps show ?thesis by (simp add: t_def)
qed

lemma drain_end:
  assumes "drain_inv N s" and "rgRead s = rgWrite s"
  shows "rgReader ((reader_step N ^^ 2) s) = RDone \<and> rgOut ((reader_step N ^^ 2) s) = rgLogged s \<and>
    rgLogged ((reader_step N ^^ 2) s) = rgLogged s"
proof -
  have "\<not> rgFlag s j" for j using assms by (auto simp: drain_inv_def)
  with assms show ?thesis by (simp add: eval_nat_numeral reader_step_def drain_inv_def)
qed

lemma drain_all:
  assumes "drain_inv N s"
  shows "let t = (reader_step N ^^ (4 * (rgWrite s - rgRead s) + 2)) s
    in rgReader t = RDone \<and> rgOut t = rgLogged s \<and> rgLogged t = rgLogged s"
  using assms
proof (induction "rgWrite s - rgRead s" arbitrary: s)
  case 0
  then have "rgRead s = rgWrite s" by (simp add: drain_inv_def)
  then show ?case using drain_end [OF 0(2)] by (simp add: Let_def eval_nat_numeral)
next
  case (Suc d)
  then have lt: "rgRead s < rgWrite s" by simp
  obtain t where t: "(reader_step N ^^ 4) s = t" "drain_inv N t" "rgRead t = rgRead s + 1"
      "rgWrite t = rgWrite s" "rgLogged t = rgLogged s"
    using drain_one [OF Suc(3) lt] by blast
  have d: "4 * (rgWrite s - rgRead s) + 2 = (4 * d + 2) + 4" "rgWrite t - rgRead t = d"
    using Suc(2) t(3,4) by simp_all
  show ?case
    using Suc(1) [OF d(2) [symmetric] t(2)] d(2) t(1,5)
    unfolding d(1) funpow_add by (simp add: Let_def)
qed

section \<open>Progress of the background thread\<close>

text \<open>After \<open>k\<close> of its steps the background thread has taken the next index.\<close>

definition advances :: "nat \<Rightarrow> nat \<Rightarrow> ring \<Rightarrow> bool" where
  "advances N k s \<longleftrightarrow> (let t = (reader_step N ^^ k) s
     in rgRead t = rgRead s + 1 \<and> rgWrite t = rgWrite s \<and> rgProd t = rgProd s)"

lemma advances_Suc:
  "advances N k (reader_step N s) \<Longrightarrow> rgRead (reader_step N s) = rgRead s \<Longrightarrow>
   rgWrite (reader_step N s) = rgWrite s \<Longrightarrow> rgProd (reader_step N s) = rgProd s \<Longrightarrow> advances N (Suc k) s"
  by (simp add: advances_def funpow_Suc_right del: funpow.simps)

lemma advances_take: "rgReader s = RTake \<Longrightarrow> advances N 1 s"
  by (simp add: advances_def reader_step_def)

lemma advances_idle: "rgReader s = RIdle \<Longrightarrow> \<not> rgExit s \<Longrightarrow> advances N (Suc 1) s"
  by (rule advances_Suc [OF advances_take]) (simp_all add: reader_step_def)

lemma advances_clear:
  assumes inv: "ring_inv N s" and x: "\<not> rgExit s" and r: "rgReader s = RClear i m"
  shows "advances N (Suc (Suc 1)) s"
proof -
  have "i < length (rgLogged s)" "m = rgLogged s ! i"
    using ring_invD(1,2) [OF inv] by (simp_all add: reader_ok_def r published_def history_ok_def)
  then have "m \<in> set (rgLogged s)" by simp
  then obtain n where "level_name m = Inr n"
    using ring_invD(2) [OF inv] by (auto simp: history_ok_def)
  then show ?thesis
    by (intro advances_Suc advances_idle) (simp_all add: reader_step_def r emit_def x)
qed

lemma advances_move:
  assumes inv: "ring_inv N s" and x: "\<not> rgExit s" and r: "rgReader s = RMove i"
  shows "advances N (Suc (Suc (Suc 1))) s"
  by (rule advances_Suc [OF advances_clear [OF ring_inv_move [OF inv r]]])
    (simp_all add: reader_step_def r x)

lemma advances_look:
  assumes inv: "ring_inv N s" and x: "\<not> rgExit s" and r: "rgReader s = RLook i" and f: "rgFlag s (i mod N)"
  shows "advances N (Suc (Suc (Suc (Suc 1)))) s"
  by (rule advances_Suc [OF advances_move [OF ring_inv_see [OF inv r]]])
    (simp_all add: reader_step_def r x f)

lemma advances_wait:
  assumes inv: "ring_inv N s" and x: "\<not> rgExit s" and r: "rgReader s = RWait i" and f: "rgFlag s (i mod N)"
  shows "advances N (Suc (Suc (Suc (Suc (Suc 1))))) s"
  by (rule advances_Suc [OF advances_look [OF ring_inv_wait [OF inv x disjI2 [OF r]], of i]])
    (simp_all add: reader_step_def r x f)

lemma reader_advances:
  assumes inv: "ring_inv N s" and x: "\<not> rgExit s"
    and f: "\<And>i. rgReader s = RWait i \<or> rgReader s = RLook i \<Longrightarrow> rgFlag s (i mod N)"
  shows "\<exists>k \<le> 6. advances N k s"
proof (cases "rgReader s")
  case RIdle
  then show ?thesis using advances_idle [OF _ x] by (intro exI [of _ "Suc 1"]) simp
next
  case RTake
  then show ?thesis using advances_take by (intro exI [of _ 1]) simp
next
  case (RWait i)
  then show ?thesis using advances_wait [OF inv x RWait] f by (intro exI [of _ "Suc (Suc (Suc (Suc (Suc 1))))"]) simp
next
  case (RLook i)
  then show ?thesis using advances_look [OF inv x RLook] f by (intro exI [of _ "Suc (Suc (Suc (Suc 1)))"]) simp
next
  case (RMove i)
  then show ?thesis using advances_move [OF inv x RMove] by (intro exI [of _ "Suc (Suc (Suc 1))"]) simp
next
  case (RClear i m)
  then show ?thesis using advances_clear [OF inv x RClear] by (intro exI [of _ "Suc (Suc 1)"]) simp
qed (use ring_invD(1) [OF inv] in \<open>simp_all add: reader_ok_def\<close>)

text \<open>
  With one logging thread: when it finds the ring full it holds the newest ticket, so every other
  ticket is published, and the ring is full by exactly one.
\<close>

lemma single_producer_full:
  assumes inv: "ring_inv N s" and "0 < N" and one: "\<forall>q. q \<noteq> p \<longrightarrow> rgProd s q = PIdle"
    and full: "rgRead s + N \<le> rgWrite s"
  shows "rgWrite s = rgRead s + N" and "consumed s \<le> w \<Longrightarrow> w + 1 < rgWrite s \<Longrightarrow> published s w"
proof -
  have b: "consumed s \<le> rgRead s" "rgRead s \<le> consumed s + 1"
    using reader_ok_bounds [OF ring_invD(1) [OF inv]] by simp_all
  have p: "\<exists>m. holds (rgProd s p) = Some (v, m)" if "held s v" for v
    using that one unfolding held_def by (metis holds.simps(1) option.distinct(1))
  have newest: "held s (rgWrite s - 1)"
  proof (rule ccontr)
    assume "\<not> held s (rgWrite s - 1)"
    then have "published s (rgWrite s - 1)" using b assms(2) full by (simp add: published_def)
    from guardD(4) [OF ring_invD(4) [OF inv] this] assms(2) full show False by linarith
  qed
  have pub: "published s w" if "consumed s \<le> w" "w + 1 < rgWrite s" for w
    using that p [OF newest] p [of w] by (auto simp: published_def)
  show "rgWrite s = rgRead s + N"
  proof (cases "consumed s + 1 < rgWrite s")
    case True
    then have "published s (rgWrite s - 2)" using b by (intro pub) simp_all
    from guardD(4) [OF ring_invD(4) [OF inv] this] full True show ?thesis by linarith
  qed (use b full assms(2) in linarith)
  show "consumed s \<le> w \<Longrightarrow> w + 1 < rgWrite s \<Longrightarrow> published s w" by (rule pub)
qed

section \<open>Properties\<close>

text \<open>
  C14. As long as \<open>exit\<close> is not called, and however the steps of the logging threads and of the
  background thread interleave, the file holds the accepted messages in the order of their
  tickets: none is lost, doubled, reordered or torn.
\<close>

lemma log_file_is_fifo:
  assumes "running N ring_init s" and "\<not> rgExit s"
  shows "\<exists>waiting. rgLogged s = rgOut s @ waiting"
proof -
  have "history_ok s" by (rule ring_invD(2) [OF ring_inv_running [OF assms(1) ring_inv_init assms(2)]])
  then show ?thesis
    by (intro exI [of _ "drop (consumed s) (rgLogged s)"]) (simp add: history_ok_def)
qed

lemma log_file_is_fifo_witness: "\<exists>waiting. rgLogged sample_logged = LogMsg_new 2 ''up'' # waiting"
  using log_file_is_fifo [OF sample_logged_running] sample_logged_state by simp

text \<open>
  C15. A logging thread that has left its spin loop owns its slot: the slot holds no record that is
  still to be read, and no other thread past its spin loop writes to it.
\<close>

lemma slot_is_free:
  assumes "running N ring_init s" and "\<not> rgExit s" and "rgProd s p = PFill w m"
  shows "\<not> rgFlag s (w mod N) \<and>
    (\<forall>q v m'. (rgProd s q = PFill v m' \<or> rgProd s q = PPublish v m') \<and> v mod N = w mod N \<longrightarrow> q = p)"
proof -
  have inv: "ring_inv N s" by (rule ring_inv_running [OF assms(1) ring_inv_init assms(2)])
  note g = guardD [OF ring_invD(4) [OF inv]]
  have h: "holds (rgProd s p) = Some (w, m)" by (simp add: assms(3))
  have c: "consumed s \<le> w" using ticketD [OF ring_invD(3) [OF inv] h] by simp
  have "\<not> rgFlag s (w mod N)"
  proof
    assume "rgFlag s (w mod N)"
    then obtain v where v: "published s v" "w mod N = v mod N"
      using slotD(4) [OF ring_invD(5) [OF inv]] by blast
    have "w = v"
      using slot_unique [OF ring_invD(1) [OF inv] g(2) [OF assms(3)] g(4) [OF v(1)] c _ v(2)] v(1)
      by (simp add: published_def)
    with v(1) h show False by (auto simp: published_def held_def)
  qed
  moreover have "q = p" if q: "rgProd s q = PFill v m' \<or> rgProd s q = PPublish v m'" "v mod N = w mod N" for q v m'
  proof -
    have hq: "holds (rgProd s q) = Some (v, m')" using q(1) by auto
    have "v = w"
      using slot_unique [OF ring_invD(1) [OF inv] _ g(2) [OF assms(3)] _ c q(2)] g(2,3) q(1)
        ticketD [OF ring_invD(3) [OF inv] hq] by blast
    with hq h ticket_unique [OF ring_invD(3) [OF inv]] show ?thesis by blast
  qed
  ultimately show ?thesis by blast
qed

lemma slot_is_free_witness: "\<not> rgFlag sample_filled (0 mod 2)"
  using slot_is_free [OF sample_filled_running sample_filled_state(2,1)] by blast

text \<open>
  C26. With a single logging thread the spin loop ends: when the thread finds the ring full, six
  steps of the background thread are enough for it to leave the loop with two more of its own.
\<close>

lemma single_producer_progress:
  assumes "running N ring_init s" and "\<not> rgExit s" and "0 < N"
    and "\<forall>q. q \<noteq> p \<longrightarrow> rgProd s q = PIdle" and "rgProd s p = PSpin w m" and "rgRead s + N \<le> rgWrite s"
  shows "\<exists>k \<le> 6. rgProd (producer_step N p (producer_step N p ((reader_step N ^^ k) s))) p = PFill w m"
proof -
  have inv: "ring_inv N s" by (rule ring_inv_running [OF assms(1) ring_inv_init assms(2)])
  note full = single_producer_full [OF inv assms(3,4,6)]
  have "rgFlag s (i mod N)" if "rgReader s = RWait i \<or> rgReader s = RLook i" for i
  proof -
    have "consumed s = i" "rgRead s = i + 1"
      using ring_invD(1) [OF inv] that by (auto simp: reader_ok_def consumed_def)
    with assms(3,6) have "published s i" by (intro full(2)) simp_all
    then show ?thesis by (rule slotD(2) [OF ring_invD(5) [OF inv]])
  qed
  from reader_advances [OF inv assms(2) this] obtain k where "k \<le> 6" "advances N k s" by blast
  with full(1) assms(5) show ?thesis
    by (intro exI [of _ k]) (simp add: advances_def Let_def producer_step_def)
qed

lemma single_producer_progress_witness:
  "\<exists>k \<le> 6. rgProd (producer_step 2 0 (producer_step 2 0 ((reader_step 2 ^^ k) sample_full))) 0 = PFill 1 (LogMsg_new 2 ''more'')"
  using single_producer_progress [OF sample_full_running sample_full_state(3) _ sample_full_state(4,5)]
  by (simp add: sample_full_state)

text \<open>
  C27. With several logging threads it can be one: when the thread that holds the ticket the
  background thread waits for is still in its spin loop while the others have taken tickets up to
  the capacity, no later interleaving writes another record, because the loop compares with the
  write index instead of with the thread's own ticket.
\<close>

lemma full_ring_deadlocks:
  assumes "running N ring_init s" and "jammed N s" and "running N s t" and "\<not> rgExit t"
  shows "rgOut t = rgOut s"
proof -
  have "\<not> rgExit s" using assms(2) by (simp add: jammed_def)
  with assms(1) have "ring_inv N s" using ring_inv_running ring_inv_init by blast
  with assms(2-4) show ?thesis using jammed_running by blast
qed

lemma full_ring_deadlocks_witness: "rgOut (producer_step 2 0 sample_jam) = []"
proof -
  have j: "jammed 2 sample_jam"
    unfolding jammed_def using sample_jam_state by simp blast
  have r: "running 2 sample_jam (producer_step 2 0 sample_jam)"
    by (intro run_steps) (simp add: sample_jam_state)
  have "\<not> rgExit (producer_step 2 0 sample_jam)" by (simp add: producer_step_def sample_jam_state)
  then show ?thesis
    using full_ring_deadlocks [OF sample_jam_running j r] by (simp add: sample_jam_state)
qed

text \<open>
  \<open>exit\<close>, called while the background thread waits for a message, makes it take the slot it
  waits at as a record although nothing was published there; the level of such a record is
  outside the array of level names.
\<close>

lemma exit_reads_unpublished: "\<exists>s. running N ring_init s \<and> rgLogged s = [] \<and> rgReader s = RFault OutOfRange"
proof -
  define s where "s = reader_step N (reader_step N (reader_step N ((reader_step N (reader_step N ring_init))\<lparr>rgExit := True\<rparr>)))"
  have "running N ring_init s" unfolding s_def by (intro run_steps)
  moreover have "level_name LogMsg_reset = Inl OutOfRange"
    by (simp add: level_name_def LogMsg_reset_def vec_get_def levels_def unat_eq_nat_uint uint_word_ariths)
  then have "rgLogged s = []" "rgReader s = RFault OutOfRange"
    by (simp_all add: s_def reader_step_def emit_def ring_init_def)
  ultimately show ?thesis by blast
qed

text \<open>
  C35. \<open>exit\<close>, called while the background thread is about to test \<open>_exit\<close> in its outer loop and no
  logging thread is under way, lets it write every accepted message and then return, after four
  steps for each message that is left and three more.
\<close>

lemma exit_flushes:
  assumes "running N ring_init s" and "\<not> rgExit s" and "rgReader s = RIdle"
    and "\<forall>p. rgProd s p = PIdle"
  shows "let t = (reader_step N ^^ (4 * (rgWrite s - rgRead s) + 3)) (s\<lparr>rgExit := True\<rparr>)
    in Logger_joined t \<and> rgOut t = rgLogged s"
proof -
  let ?t = "reader_step N (s\<lparr>rgExit := True\<rparr>)"
  have "drain_inv N ?t"
    by (rule drain_invI [OF ring_inv_running [OF assms(1) ring_inv_init assms(2)] assms(3,4)])
  moreover have "rgWrite ?t = rgWrite s" "rgRead ?t = rgRead s" "rgLogged ?t = rgLogged s"
    using assms(3) by (simp_all add: reader_step_def)
  moreover have "(reader_step N ^^ (k + 3)) (s\<lparr>rgExit := True\<rparr>) = (reader_step N ^^ (k + 2)) ?t" for k
    using funpow_Suc_right [of "k + 2" "reader_step N"] by (simp add: numeral_3_eq_3 numeral_2_eq_2)
  ultimately show ?thesis
    using drain_all [of N ?t] by (simp add: Let_def Logger_joined_def)
qed

lemma exit_flushes_witness:
  "\<exists>k. Logger_joined ((reader_step 2 ^^ k) (sample_published\<lparr>rgExit := True\<rparr>)) \<and>
    rgOut ((reader_step 2 ^^ k) (sample_published\<lparr>rgExit := True\<rparr>)) = [LogMsg_new 2 ''up'']"
  using exit_flushes [OF sample_published_running sample_published_state(2,1,3)]
  unfolding Let_def sample_published_state(6) by blast

text \<open>
  As long as \<open>exit\<close> is not called the background thread never returns, in no interleaving, and it
  does not fault either.
\<close>

lemma never_joined:
  assumes "running N ring_init s" and "\<not> rgExit s"
  shows "\<not> Logger_joined s \<and> (\<forall>e. rgReader s \<noteq> RFault e)"
  using ring_invD(1) [OF ring_inv_running [OF assms(1) ring_inv_init assms(2)]]
  by (auto simp: Logger_joined_def reader_ok_def)

end
