(* ===== verification/LogText.thy ===== *)
theory LogText
  imports LogRing Report
begin

text \<open>
  The texts of the logger (\<^verbatim>\<open>src/log.h\<close>, \<^verbatim>\<open>src/logs.cpp\<close>): what \<open>snprintf\<close> makes of a format and
  its arguments, the \<open>log\<close> template that calls it, the rest of \<open>LogMsg\<close>, and the lines that the
  background thread writes. Cut at its brackets a line gives back what was logged.
\<close>

section \<open>snprintf\<close>

text \<open>
  The directives that the program uses: flag \<open>0\<close>, a width, \<open>h\<close> or \<open>l\<close>, and one of \<open>d\<close>, \<open>u\<close>, \<open>c\<close>,
  \<open>s\<close>, \<open>%\<close>. An argument that is missing or of the wrong kind is undefined behaviour, \<open>None\<close>.
\<close>

datatype arg = AStr string | AInt int

record directive =
  dZero :: bool
  dWidth :: nat
  dLength :: string
  dConv :: char

definition directive_of :: "string \<Rightarrow> (directive \<times> string) option" where
  "directive_of f =
    (let f1 = dropWhile (\<lambda>c. c = CHR ''0'') f;
         f2 = dropWhile is_digit f1;
         f3 = dropWhile (\<lambda>c. c = CHR ''h'' \<or> c = CHR ''l'') f2
     in case f3 of
          [] \<Rightarrow> None
        | c # rest \<Rightarrow> Some (\<lparr>dZero = (f1 \<noteq> f), dWidth = nat (digits_value (takeWhile is_digit f1)),
            dLength = takeWhile (\<lambda>c. c = CHR ''h'' \<or> c = CHR ''l'') f2, dConv = c\<rparr>, rest))"

lemma directive_of_shorter: "directive_of f = Some (d, rest) \<Longrightarrow> length rest < length f"
proof -
  assume d: "directive_of f = Some (d, rest)"
  let ?f1 = "dropWhile (\<lambda>c. c = CHR ''0'') f"
  let ?f3 = "dropWhile (\<lambda>c. c = CHR ''h'' \<or> c = CHR ''l'') (dropWhile is_digit ?f1)"
  have "length ?f3 \<le> length f"
    by (meson length_dropWhile_le order_trans)
  moreover have "length rest < length ?f3"
    using d by (auto simp: directive_of_def Let_def split: list.splits)
  ultimately show ?thesis by simp
qed

definition int_bits :: "string \<Rightarrow> nat" where
  "int_bits len = (if len = ''hh'' then 8 else if len = ''h'' then 16 else if len = [] then 32 else 64)"

definition pad :: "directive \<Rightarrow> string \<Rightarrow> string" where
  "pad d z =
    (if dZero d then
       (case z of
          [] \<Rightarrow> replicate (dWidth d) CHR ''0''
        | c # ds \<Rightarrow> if c = CHR ''-'' then c # replicate (dWidth d - length z) CHR ''0'' @ ds
            else replicate (dWidth d - length z) CHR ''0'' @ z)
     else replicate (dWidth d - length z) CHR '' '' @ z)"

definition convert :: "directive \<Rightarrow> arg \<Rightarrow> string option" where
  "convert d a =
    (case a of
       AInt n \<Rightarrow>
         if dConv d = CHR ''d'' then Some (pad d (show_int (wrap (int_bits (dLength d)) n)))
         else if dConv d = CHR ''u'' then Some (pad d (digits (nat (n mod 2 ^ int_bits (dLength d)))))
         else if dConv d = CHR ''c'' then Some (pad d [char_of (nat (n mod 256))])
         else None
     | AStr z \<Rightarrow> if dConv d = CHR ''s'' then Some (pad d (takeWhile (\<lambda>c. c \<noteq> CHR 0x00) z)) else None)"

function printf :: "string \<Rightarrow> arg list \<Rightarrow> string option" where
  "printf [] as = Some []"
| "printf (c # f) as =
    (if c \<noteq> CHR ''%'' then map_option (\<lambda>z. c # z) (printf f as)
     else (case directive_of f of
       None \<Rightarrow> None
     | Some (d, rest) \<Rightarrow>
         if dConv d = CHR ''%'' then map_option (\<lambda>z. CHR ''%'' # z) (printf rest as)
         else (case as of
           [] \<Rightarrow> None
         | a # bs \<Rightarrow>
             (case convert d a of
                None \<Rightarrow> None
              | Some y \<Rightarrow> map_option (\<lambda>z. y @ z) (printf rest bs)))))"
  by pat_completeness auto
termination
  by (relation "measure (\<lambda>(f, as). length f)") (auto dest: directive_of_shorter)

definition snprintf :: "nat \<Rightarrow> string \<Rightarrow> arg list \<Rightarrow> string option" where
  "snprintf n f as = map_option (take (n - 1)) (printf f as)"

lemma printf_plain: "CHR ''%'' \<notin> set f \<Longrightarrow> printf f as = Some f"
  by (induction f) auto

lemma snprintf_fits: "snprintf n f as = Some z \<Longrightarrow> 0 < n \<Longrightarrow> length z < n"
  by (auto simp: snprintf_def)

lemmas printf_eval = directive_of_def Let_def is_digit_def digits_value_def convert_def int_bits_def

text \<open>The contract name that \<open>Report\<close> writes out by hand is what \<open>snprintf\<close> makes of its format.\<close>

lemma contract_name_snprintf:
  assumes "CHR 0x00 \<notin> set (OMSScripInfo.cSymbol i)" and "in_range 32 (tagTradeDetails.nStrikePrice d)"
    and "month_name (tm_mon t) = Inr mon" and "letter \<in> {CHR ''C'', CHR ''R''}"
  shows "\<exists>z. contract_name t i d [CHR ''('', letter, CHR '')''] = Inr z \<and>
    snprintf 65 (''%s%hd%s-%d('' @ [letter, CHR '')'']) [AStr (OMSScripInfo.cSymbol i),
      AInt (tm_year t + 1900 - cquot (tm_year t + 1900) 100 * 100), AStr mon,
      AInt (cquot (tagTradeDetails.nStrikePrice d) 100)] = Some z"
proof -
  have mon: "CHR 0x00 \<notin> set mon"
    using assms(3) by (auto simp: month_name_def vec_get_def MONTH_def less_Suc_eq numeral_eq_Suc split: if_splits)
  have str: "takeWhile (\<lambda>c. c \<noteq> CHR 0x00) z = z" if "CHR 0x00 \<notin> set z" for z
    using that by (auto simp: takeWhile_eq_all_conv)
  have pad: "pad \<lparr>dZero = False, dWidth = 0, dLength = l, dConv = c\<rparr> z = z" for l c z
    by (simp add: pad_def)
  have "wrap32 (cquot (tagTradeDetails.nStrikePrice d) 100) = cquot (tagTradeDetails.nStrikePrice d) 100"
    using cquot_in_range [OF assms(2)] by (simp add: wrap_id)
  then show ?thesis
    using assms(3,4)
    by (elim insertE emptyE)
      (simp_all add: contract_name_def snprintf_def printf_eval pad str [OF assms(1)] str [OF mon] del: take_append)
qed

section \<open>LogMsg\<close>

text \<open>The constructor of the template: formatted into the array, read as a string.\<close>

definition LogMsg_format :: "int \<Rightarrow> string \<Rightarrow> arg list \<Rightarrow> LogMsg option" where
  "LogMsg_format level f as = map_option (LogMsg_new level) (printf f as)"

text \<open>\<open>set\<close> copies without a bound before it terminates: a longer text is written past the array.\<close>

definition LogMsg_set :: "int \<Rightarrow> string \<Rightarrow> LogMsg \<Rightarrow> LogMsg res" where
  "LogMsg_set level text m =
    (let z = takeWhile (\<lambda>c. c \<noteq> CHR 0x00) text
     in if MSG_SIZE \<le> length z then Inl OutOfRange
        else Inr (m\<lparr>lmLevel := word_of_int level, lmMessage := take (MSG_SIZE - 1) z\<rparr>))"

definition reset :: "LogMsg \<Rightarrow> LogMsg" where
  "reset m = m\<lparr>lmMessage := [], lmLevel := - 1\<rparr>"

text \<open>\<open>Logger::log\<close> with arguments: the guard and the ticket as for a text, the record formatted.\<close>

definition Logger_log_format :: "nat \<Rightarrow> int \<Rightarrow> string \<Rightarrow> arg list \<Rightarrow> ring \<Rightarrow> ring option" where
  "Logger_log_format p level f as s =
    (if PERF < level then Some s
     else map_option (\<lambda>m. s\<lparr>rgProd := (rgProd s)(p := PSpin (rgWrite s) m),
       rgWrite := rgWrite s + 1, rgLogged := rgLogged s @ [m]\<rparr>) (LogMsg_format level f as))"

text \<open>So the template is the other \<open>log\<close> on the formatted text, and adds no runs to the ring.\<close>

lemma Logger_log_format_text:
  assumes "printf f as = Some text"
  shows "Logger_log_format p level f as s = Some (Logger_log p level text s)"
  by (simp add: Logger_log_format_def Logger_log_def LogMsg_format_def assms)

lemma Logger_log_format_runs:
  assumes "running N ring_init s" and "rgProd s p = PIdle" and "0 \<le> level"
    and "Logger_log_format p level f as s = Some t"
  shows "running N ring_init t"
proof (cases "PERF < level")
  case True
  with assms(1,4) show ?thesis by (simp add: Logger_log_format_def)
next
  case False
  with assms(4) obtain z where "printf f as = Some z"
    by (auto simp: Logger_log_format_def LogMsg_format_def)
  from Logger_log_format_text [OF this] assms show ?thesis by (auto intro: running_log)
qed

section \<open>The lines of the file\<close>

text \<open>The time stamps, formatted into 33 bytes.\<close>

definition log_time :: "tm \<Rightarrow> int \<Rightarrow> string option" where
  "log_time t usec = snprintf 33 ''%02d:%02d:%02d.%06ld'' [AInt (tm_hour t), AInt (tm_min t), AInt (tm_sec t), AInt usec]"

definition drain_time :: "tm \<Rightarrow> int \<Rightarrow> string option" where
  "drain_time t usec = snprintf 33 ''%02d-%02d-%02d %02d:%02d:%02d.%06ld''
     [AInt (tm_mday t), AInt (tm_mon t + 1), AInt (tm_year t + 1900), AInt (tm_hour t), AInt (tm_min t),
      AInt (tm_sec t), AInt usec]"

text \<open>What is written for a record in the loop, and after \<open>exit\<close>.\<close>

definition log_line :: "string \<Rightarrow> LogMsg \<Rightarrow> string res" where
  "log_line date m = bindR (level_name m) (\<lambda>name.
     Inr (''['' @ name @ ''] ['' @ date @ ''] '' @ lmMessage m @ [CHR 0x0A]))"

definition drain_line :: "string \<Rightarrow> LogMsg \<Rightarrow> string res" where
  "drain_line date m = bindR (level_name m) (\<lambda>name.
     Inr (name @ '': '' @ date @ '': '' @ lmMessage m @ [CHR 0x0A]))"

section \<open>Reading a line back\<close>

definition plain :: "string \<Rightarrow> bool" where
  "plain z \<longleftrightarrow> CHR '']'' \<notin> set z \<and> CHR 0x0A \<notin> set z"

lemma plain_simps [simp]:
  "plain []" "plain (c # z) \<longleftrightarrow> c \<noteq> CHR '']'' \<and> c \<noteq> CHR 0x0A \<and> plain z"
  "plain (y @ z) \<longleftrightarrow> plain y \<and> plain z"
  by (auto simp: plain_def)

lemma plain_take: "plain z \<Longrightarrow> plain (take n z)"
  by (auto simp: plain_def dest: in_set_takeD)

lemma plain_pad: "plain z \<Longrightarrow> plain (pad d z)"
  by (auto simp: plain_def pad_def split: list.split)

lemma plain_show_int: "plain (show_int n)"
proof -
  have "\<not> is_digit CHR '']''" "\<not> is_digit CHR 0x0A" by (simp_all add: is_digit_def)
  then have "plain (digits k)" for k
    using digits_all [of k] by (auto simp: plain_def list_all_iff)
  then show ?thesis by (auto simp: show_int_def plain_def)
qed

lemma log_time_plain: "\<exists>z. log_time t usec = Some z \<and> plain z"
  by (simp add: log_time_def snprintf_def printf_eval plain_take plain_pad plain_show_int del: take_append)

lemma drain_time_plain: "\<exists>z. drain_time t usec = Some z \<and> plain z"
  by (simp add: drain_time_def snprintf_def printf_eval plain_take plain_pad plain_show_int del: take_append)

lemma level_name_plain: "level_name m = Inr name \<Longrightarrow> plain name"
  by (auto simp: level_name_def vec_get_def levels_def plain_def less_Suc_eq numeral_eq_Suc split: if_splits)

text \<open>The level, the time and the message of a line.\<close>

definition read_line :: "string \<Rightarrow> string \<times> string \<times> string" where
  "read_line z =
    (let r = tl z; name = takeWhile (\<lambda>c. c \<noteq> CHR '']'') r; r1 = drop (length name + 3) r;
         date = takeWhile (\<lambda>c. c \<noteq> CHR '']'') r1
     in (name, date, drop (length date + 2) r1))"

fun text_lines :: "string \<Rightarrow> string list" where
  "text_lines [] = []"
| "text_lines (c # z) =
    (if c = CHR 0x0A then [] # text_lines z
     else (case text_lines z of [] \<Rightarrow> [[c]] | l # ls \<Rightarrow> (c # l) # ls))"

lemma text_lines_append: "CHR 0x0A \<notin> set l \<Longrightarrow> text_lines (l @ CHR 0x0A # z) = l # text_lines z"
  by (induction l) auto

lemma takeWhile_bracket: "plain y \<Longrightarrow> takeWhile (\<lambda>c. c \<noteq> CHR '']'') (y @ CHR '']'' # z) = y"
  by (induction y) (auto simp: plain_def)

lemma log_line_reads:
  assumes "level_name m = Inr name" and "plain date" and "CHR 0x0A \<notin> set (lmMessage m)"
  shows "\<exists>l. log_line date m = Inr (l @ [CHR 0x0A]) \<and> CHR 0x0A \<notin> set l \<and> read_line l = (name, date, lmMessage m)"
proof -
  let ?r = "name @ CHR '']'' # '' ['' @ date @ CHR '']'' # '' '' @ lmMessage m"
  have "read_line (CHR ''['' # ?r) = (name, date, lmMessage m)"
    using takeWhile_bracket [OF level_name_plain [OF assms(1)], of "'' ['' @ date @ CHR '']'' # '' '' @ lmMessage m"]
      takeWhile_bracket [OF assms(2), of "'' '' @ lmMessage m"]
    by (simp add: read_line_def Let_def numeral_eq_Suc del: takeWhile.simps)
  with assms level_name_plain [OF assms(1)] show ?thesis
    by (intro exI [of _ "CHR ''['' # ?r"]) (simp add: log_line_def plain_def)
qed

section \<open>The file\<close>

text \<open>
  The text of the file after the records \<open>out\<close>, as long as \<open>exit\<close> is not called; \<open>now k\<close> is the local
  time and the microseconds when the record \<open>k\<close> was written.
\<close>

fun file_text :: "(nat \<Rightarrow> tm \<times> int) \<Rightarrow> nat \<Rightarrow> LogMsg list \<Rightarrow> string res" where
  "file_text now k [] = Inr []"
| "file_text now k (m # ms) =
    bindR (log_line (the (log_time (fst (now k)) (snd (now k)))) m) (\<lambda>l.
    bindR (file_text now (Suc k) ms) (\<lambda>z. Inr (l @ z)))"

definition entry :: "(nat \<Rightarrow> tm \<times> int) \<Rightarrow> nat \<Rightarrow> LogMsg \<Rightarrow> string \<times> string \<times> string" where
  "entry now k m = (levels ! unat (lmLevel m), the (log_time (fst (now k)) (snd (now k))), lmMessage m)"

lemma file_text_reads:
  assumes "\<forall>m \<in> set ms. (\<exists>n. level_name m = Inr n) \<and> CHR 0x0A \<notin> set (lmMessage m)"
  shows "\<exists>z. file_text now k ms = Inr z \<and>
    map read_line (text_lines z) = map (\<lambda>(j, m). entry now j m) (enumerate k ms)"
  using assms
proof (induction ms arbitrary: k)
  case (Cons m ms)
  then obtain z where z: "file_text now (Suc k) ms = Inr z"
      "map read_line (text_lines z) = map (\<lambda>(j, m). entry now j m) (enumerate (Suc k) ms)"
    by (metis list.set_intros(2))
  obtain date where date: "log_time (fst (now k)) (snd (now k)) = Some date" "plain date"
    using log_time_plain by blast
  obtain name where name: "level_name m = Inr name" using Cons.prems by auto
  then have n: "name = levels ! unat (lmLevel m)" by (auto simp: level_name_def vec_get_def split: if_splits)
  obtain l where l: "log_line date m = Inr (l @ [CHR 0x0A])" "CHR 0x0A \<notin> set l"
      "read_line l = (name, date, lmMessage m)"
    using log_line_reads [OF name date(2)] Cons.prems by auto
  then show ?case
    using z text_lines_append [OF l(2), of z] by (simp add: date(1) entry_def n)
qed simp

section \<open>Properties\<close>

text \<open>
  C25. The file can be read back. As long as \<open>exit\<close> is not called and no message holds a line
  break, in every interleaving the file, cut at its line ends and each line at its brackets, gives
  level, time and text of the logged messages in the order of their tickets.
\<close>

lemma log_file_reads_back:
  assumes "running N ring_init s" and "\<not> rgExit s" and "\<forall>m \<in> set (rgLogged s). CHR 0x0A \<notin> set (lmMessage m)"
  shows "\<exists>z waiting. file_text now 0 (rgOut s) = Inr z \<and>
    rgLogged s = rgOut s @ waiting \<and>
    map read_line (text_lines z) = map (\<lambda>(k, m). entry now k m) (enumerate 0 (rgOut s))"
proof -
  have h: "history_ok s" by (rule ring_invD(2) [OF ring_inv_running [OF assms(1) ring_inv_init assms(2)]])
  then have w: "rgLogged s = rgOut s @ drop (consumed s) (rgLogged s)" by (simp add: history_ok_def)
  then have "set (rgOut s) \<subseteq> set (rgLogged s)" by (metis Un_upper1 set_append)
  then have "\<forall>m \<in> set (rgOut s). (\<exists>n. level_name m = Inr n) \<and> CHR 0x0A \<notin> set (lmMessage m)"
    using h assms(3) unfolding history_ok_def by blast
  from file_text_reads [OF this, of now 0] w show ?thesis by blast
qed

lemma log_file_reads_back_witness:
  "\<exists>z. file_text (\<lambda>_. (\<lparr>tm_sec = 7, tm_min = 5, tm_hour = 9, tm_mday = 1, tm_mon = 8, tm_year = 117\<rparr>, 42)) 0
      (rgOut sample_logged) = Inr z \<and>
    map read_line (text_lines z) = [(''INFO '', ''09:05:07.000042'', ''up'')]"
proof -
  let ?t = "\<lparr>tm_sec = 7, tm_min = 5, tm_hour = 9, tm_mday = 1, tm_mon = 8, tm_year = 117\<rparr> :: tm"
  have logged: "rgLogged sample_logged = [LogMsg_new 2 ''up'']"
    by (simp add: sample_logged_def sample_filled_def step_defs)
  have m: "lmMessage (LogMsg_new 2 ''up'') = ''up''" "lmLevel (LogMsg_new 2 ''up'') = 2"
    by (simp_all add: LogMsg_new_def MSG_SIZE_def)
  have "log_time ?t 42 = Some ''09:05:07.000042''"
    unfolding log_time_def by code_simp
  then have "entry (\<lambda>_. (?t, 42)) 0 (LogMsg_new 2 ''up'') = (''INFO '', ''09:05:07.000042'', ''up'')"
    by (simp add: entry_def m levels_def)
  with log_file_reads_back [OF sample_logged_running sample_logged_state(2), of "\<lambda>_. (?t, 42)"]
  show ?thesis by (auto simp: logged m sample_logged_state(1) simp del: file_text.simps)
qed

end
