(* ===== verification/LogMemory.thy ===== *)
theory LogMemory
  imports LogRing
begin

text \<open>
  What the memory orderings of \<open>Logger::log\<close> allow (\<^verbatim>\<open>src/log.h\<close>, \<^verbatim>\<open>src/logs.cpp\<close>). A logging
  thread constructs the record with plain stores and then sets the flag with a relaxed store, so
  the record may become visible after its flag. The steps of \<open>LogRing\<close> are refined to such late
  stores. A run in which no flag overtakes the record of its thread is a run of \<open>LogRing\<close>; when one
  does, the background thread can take a record that is not there. The accesses of the background
  thread stay in their order.
\<close>

section \<open>Late stores\<close>

text \<open>
  \<open>mrLate\<close> holds the record stores that are not visible yet, with thread and slot. \<open>mrEarly\<close>, a
  history variable that no step reads, tells whether a flag has been set before the record of its
  thread was visible.
\<close>

record mem_ring =
  mrRing :: ring
  mrLate :: "(nat \<times> nat \<times> LogMsg) list"
  mrEarly :: bool

definition late_of :: "nat \<Rightarrow> mem_ring \<Rightarrow> bool" where
  "late_of p t \<longleftrightarrow> p \<in> fst ` set (mrLate t)"

text \<open>Constructing the record: its stores are issued.\<close>

definition issue_record :: "nat \<Rightarrow> nat \<Rightarrow> nat \<Rightarrow> LogMsg \<Rightarrow> mem_ring \<Rightarrow> mem_ring" where
  "issue_record N p w m t =
    t\<lparr>mrRing := (mrRing t)\<lparr>rgProd := (rgProd (mrRing t))(p := PPublish w m)\<rparr>,
      mrLate := mrLate t @ [(p, w mod N, m)]\<rparr>"

definition store_record :: "nat \<Rightarrow> LogMsg \<Rightarrow> ring \<Rightarrow> ring" where
  "store_record j m s = s\<lparr>rgRecord := (rgRecord s)(j := m)\<rparr>"

inductive mem_step :: "nat \<Rightarrow> mem_ring \<Rightarrow> mem_ring \<Rightarrow> bool" for N where
  log_call: "rgProd (mrRing t) p = PIdle \<Longrightarrow> 0 \<le> level \<Longrightarrow>
    mem_step N t (t\<lparr>mrRing := Logger_log p level z (mrRing t)\<rparr>)"
| spin: "rgProd (mrRing t) p = PSpin w m \<or> rgProd (mrRing t) p = PLoaded w m r \<Longrightarrow>
    mem_step N t (t\<lparr>mrRing := producer_step N p (mrRing t)\<rparr>)"
| fill: "rgProd (mrRing t) p = PFill w m \<Longrightarrow> mem_step N t (issue_record N p w m t)"
| visible: "mrLate t = us @ (p, j, m) # vs \<Longrightarrow> j \<notin> (fst \<circ> snd) ` set us \<Longrightarrow>
    mem_step N t (t\<lparr>mrRing := store_record j m (mrRing t), mrLate := us @ vs\<rparr>)"
| publish: "rgProd (mrRing t) p = PPublish w m \<Longrightarrow>
    mem_step N t (t\<lparr>mrRing := producer_step N p (mrRing t), mrEarly := mrEarly t \<or> late_of p t\<rparr>)"
| consume: "mem_step N t (t\<lparr>mrRing := reader_step N (mrRing t)\<rparr>)"
| exit_call: "mem_step N t (t\<lparr>mrRing := (mrRing t)\<lparr>rgExit := True\<rparr>\<rparr>)"

definition mem_init :: mem_ring where
  "mem_init = \<lparr>mrRing = ring_init, mrLate = [], mrEarly = False\<rparr>"

inductive mem_running :: "nat \<Rightarrow> mem_ring \<Rightarrow> bool" for N where
  start: "mem_running N mem_init"
| step: "mem_running N t \<Longrightarrow> mem_step N t u \<Longrightarrow> mem_running N u"

lemma early_stays: "mem_step N t u \<Longrightarrow> mrEarly t \<Longrightarrow> mrEarly u"
  by (induction rule: mem_step.induct) (simp_all add: issue_record_def)

section \<open>Runs without overtaking\<close>

text \<open>A thread whose record is not visible yet is one that has still to construct it.\<close>

definition unissue :: "bool \<Rightarrow> producer \<Rightarrow> producer" where
  "unissue late c = (case c of PPublish w m \<Rightarrow> if late then PFill w m else c | _ \<Rightarrow> c)"

definition relabel :: "(nat \<Rightarrow> bool) \<Rightarrow> ring \<Rightarrow> ring" where
  "relabel late s = s\<lparr>rgProd := \<lambda>p. unissue (late p) (rgProd s p)\<rparr>"

definition in_order :: "mem_ring \<Rightarrow> ring" where
  "in_order t = relabel (\<lambda>p. late_of p t) (mrRing t)"

lemma unissue_simps [simp]:
  "unissue late PIdle = PIdle" "unissue late (PSpin w m) = PSpin w m" "unissue late (PLoaded w m r) = PLoaded w m r"
  "unissue late (PFill w m) = PFill w m" "unissue False c = c" "unissue True (PPublish w m) = PFill w m"
  by (simp_all add: unissue_def split: producer.split)

lemma unissue_upd:
  "(\<lambda>q. unissue (late q) (((pr)(p := c)) q)) = (\<lambda>q. unissue (late q) (pr q))(p := unissue (late p) c)"
  by (simp add: fun_eq_iff)

lemma relabel_log: "\<not> late p \<Longrightarrow> relabel late (Logger_log p level z s) = Logger_log p level z (relabel late s)"
  by (simp add: relabel_def Logger_log_def unissue_upd del: fun_upd_apply)

lemma relabel_producer:
  "\<not> late p \<Longrightarrow> relabel late (producer_step N p s) = producer_step N p (relabel late s)"
  by (cases "rgProd s p") (simp_all add: relabel_def producer_step_def unissue_upd del: fun_upd_apply)

lemma relabel_reader: "relabel late (reader_step N s) = reader_step N (relabel late s)"
  by (simp add: relabel_def reader_step_def emit_def split: reader.split sum.split)

lemma relabel_issue:
  "rgProd s p = PFill w m \<Longrightarrow> \<not> late p \<Longrightarrow>
   relabel (late(p := True)) (s\<lparr>rgProd := (rgProd s)(p := PPublish w m)\<rparr>) = relabel late s"
  by (auto simp: relabel_def fun_eq_iff intro!: arg_cong [where f = "\<lambda>pr. s\<lparr>rgProd := pr\<rparr>"])

lemma relabel_visible:
  "rgProd s p = PPublish w m \<Longrightarrow> late p \<Longrightarrow>
   relabel (late(p := False)) (store_record (w mod N) m s) = producer_step N p (relabel late s)"
  by (auto simp: relabel_def store_record_def producer_step_def fun_eq_iff
    intro!: arg_cong [where f = "\<lambda>pr. s\<lparr>rgRecord := (rgRecord s)(w mod N := m), rgProd := pr\<rparr>"])

definition late_ok :: "nat \<Rightarrow> mem_ring \<Rightarrow> bool" where
  "late_ok N t \<longleftrightarrow> distinct (map fst (mrLate t)) \<and>
     (\<forall>(p, j, m) \<in> set (mrLate t). \<exists>w. rgProd (mrRing t) p = PPublish w m \<and> j = w mod N)"

lemma late_okD: "late_ok N t \<Longrightarrow> late_of p t \<Longrightarrow> \<exists>w m. rgProd (mrRing t) p = PPublish w m"
  by (fastforce simp: late_ok_def late_of_def)

lemma in_order_prod: "rgProd (in_order t) p = unissue (late_of p t) (rgProd (mrRing t) p)"
  by (simp add: in_order_def relabel_def)

lemma late_of_same [simp]: "late_of p (t\<lparr>mrRing := s\<rparr>) = late_of p t" "late_of p (t\<lparr>mrEarly := b\<rparr>) = late_of p t"
  by (simp_all add: late_of_def)

lemma same_but_early [simp]: "late_ok N (t\<lparr>mrEarly := b\<rparr>) = late_ok N t" "in_order (t\<lparr>mrEarly := b\<rparr>) = in_order t"
  by (simp_all add: late_ok_def in_order_def)

text \<open>A step of a thread without late stores, or of the background thread, touches none of them.\<close>

lemma late_ok_other:
  assumes "late_ok N t" and "\<And>q. late_of q t \<Longrightarrow> rgProd s q = rgProd (mrRing t) q"
  shows "late_ok N (t\<lparr>mrRing := s\<rparr>)"
  using assms unfolding late_ok_def late_of_def by fastforce

lemma producer_step_other: "q \<noteq> p \<Longrightarrow> rgProd (producer_step N p s) q = rgProd s q"
  by (simp add: producer_step_def split: producer.split)

lemma reader_step_prod: "rgProd (reader_step N s) = rgProd s"
  by (simp add: reader_step_def emit_def split: reader.split sum.split)

lemma mem_step_in_order:
  assumes "mem_step N t u" and ok: "late_ok N t" and "\<not> mrEarly u"
  shows "late_ok N u \<and> (in_order u = in_order t \<or> ring_step N (in_order t) (in_order u))"
proof -
  have idle: "\<not> late_of p t" if "\<And>w m. rgProd (mrRing t) p \<noteq> PPublish w m" for p
    using late_okD [OF ok] that by blast
  have move_to: "late_ok N u \<and> ring_step N (in_order t) (in_order u)"
    if "u = t\<lparr>mrRing := producer_step N p (mrRing t)\<rparr>" "\<not> late_of p t" "rgProd (mrRing t) p \<noteq> PIdle" for u p
  proof
    show "late_ok N u"
      unfolding that(1) using that(2) producer_step_other by (intro late_ok_other [OF ok]) metis
    have "in_order u = producer_step N p (in_order t)"
      using relabel_producer [of "\<lambda>p. late_of p t" p] that(1,2) by (simp add: in_order_def)
    with ring_step.produce [of "in_order t" p N] that(2,3) show "ring_step N (in_order t) (in_order u)"
      by (simp add: in_order_prod)
  qed
  from assms(1) show ?thesis
  proof cases
    case (log_call p level z)
    then have nl: "\<not> late_of p t" by (intro idle) simp
    have "late_ok N u"
      unfolding log_call(1) using nl by (intro late_ok_other [OF ok]) (auto simp: Logger_log_def)
    moreover have "in_order u = Logger_log p level z (in_order t)"
      using relabel_log [of "\<lambda>p. late_of p t" p] nl by (simp add: in_order_def log_call(1))
    ultimately show ?thesis
      using ring_step.log_call [of "in_order t" p level N z] log_call(2,3) by (simp add: in_order_prod)
  next
    case (spin p w m r)
    then show ?thesis using move_to [of u p] idle [of p] by auto
  next
    case (fill p w m)
    then have nl: "\<not> late_of p t" by (intro idle) simp
    have "(\<lambda>q. late_of q u) = (\<lambda>q. late_of q t)(p := True)"
      by (auto simp: fun_eq_iff fill(1) issue_record_def late_of_def)
    then have "in_order u = in_order t"
      using relabel_issue [OF fill(2), of "\<lambda>q. late_of q t"] nl by (simp add: in_order_def fill(1) issue_record_def)
    moreover have "late_ok N u"
      using ok nl unfolding late_ok_def fill(1) issue_record_def late_of_def by (auto simp: image_iff) force+
    ultimately show ?thesis by simp
  next
    case (visible us p j m vs)
    obtain w where w: "rgProd (mrRing t) p = PPublish w m" "j = w mod N"
      using ok by (auto simp: late_ok_def visible(2))
    have l: "late_of p t" by (simp add: late_of_def visible(2))
    have "(\<lambda>q. late_of q u) = (\<lambda>q. late_of q t)(p := False)"
      using ok by (auto simp: fun_eq_iff visible(1,2) late_of_def late_ok_def)
    then have "in_order u = producer_step N p (in_order t)"
      using relabel_visible [OF w(1), of "\<lambda>q. late_of q t", OF l] by (simp add: in_order_def visible(1) w(2))
    moreover have "late_ok N u"
      using ok by (auto simp: late_ok_def visible(1,2) store_record_def)
    ultimately show ?thesis
      using ring_step.produce [of "in_order t" p N] by (simp add: in_order_prod l w(1))
  next
    case (publish p w m)
    let ?u = "t\<lparr>mrRing := producer_step N p (mrRing t)\<rparr>"
    have "u = ?u\<lparr>mrEarly := mrEarly u\<rparr>" by (simp add: publish(1))
    moreover have "\<not> late_of p t" using assms(3) by (simp add: publish(1))
    ultimately show ?thesis using move_to [of ?u p] publish(2) same_but_early by (metis producer.distinct(7))
  next
    case consume
    have "late_ok N u" unfolding consume by (intro late_ok_other [OF ok]) (simp add: reader_step_prod)
    then show ?thesis
      using ring_step.consume [of N "in_order t"] by (simp add: in_order_def consume relabel_reader)
  next
    case exit_call
    have "late_ok N u" unfolding exit_call by (intro late_ok_other [OF ok]) simp
    moreover have "in_order u = (in_order t)\<lparr>rgExit := True\<rparr>" by (simp add: in_order_def exit_call relabel_def)
    ultimately show ?thesis using ring_step.exit_call [of N "in_order t"] by simp
  qed
qed

lemma mem_running_in_order:
  assumes "mem_running N t" and "\<not> mrEarly t"
  shows "late_ok N t \<and> running N ring_init (in_order t)"
  using assms
proof (induction rule: mem_running.induct)
  case start
  have "in_order mem_init = ring_init"
    by (simp add: in_order_def mem_init_def relabel_def ring_init_def)
  then show ?case by (simp add: running.refl late_ok_def mem_init_def)
next
  case (step t u)
  then show ?case using mem_step_in_order [OF step.hyps(2)] early_stays running.step by fastforce
qed

section \<open>A message for evaluation\<close>

text \<open>A thread has logged the first message and issued the stores of its record.\<close>

lemma run_consume:
  "mem_running N \<lparr>mrRing = s, mrLate = l, mrEarly = b\<rparr> \<Longrightarrow>
   mem_running N \<lparr>mrRing = (reader_step N ^^ k) s, mrLate = l, mrEarly = b\<rparr>"
proof (induction k)
  case (Suc k)
  then show ?case
    using mem_running.step [OF Suc.IH [OF Suc.prems] mem_step.consume] by simp
qed simp

lemma run_spin:
  assumes "mem_running N \<lparr>mrRing = s, mrLate = l, mrEarly = b\<rparr>"
    and "rgProd s p = PSpin w m \<or> rgProd s p = PLoaded w m r"
  shows "mem_running N \<lparr>mrRing = producer_step N p s, mrLate = l, mrEarly = b\<rparr>"
  using mem_running.step [OF assms(1) mem_step.spin] assms(2) by simp

lemma run_publish:
  assumes "mem_running N \<lparr>mrRing = s, mrLate = l, mrEarly = b\<rparr>" and "rgProd s p = PPublish w m"
  shows "mem_running N \<lparr>mrRing = producer_step N p s, mrLate = l, mrEarly = b \<or> p \<in> fst ` set l\<rparr>"
  using mem_running.step [OF assms(1) mem_step.publish] assms(2) by (simp add: late_of_def)

definition first_fill :: ring where
  "first_fill = producer_step LOGGER_QUEUE_SIZE 0 (producer_step LOGGER_QUEUE_SIZE 0 (Logger_log 0 2 ''up'' ring_init))"

definition first_issued :: ring where
  "first_issued = first_fill\<lparr>rgProd := (rgProd first_fill)(0 := PPublish 0 (LogMsg_new 2 ''up''))\<rparr>"

lemmas first_defs = first_fill_def first_issued_def producer_step_def Logger_log_def ring_init_def PERF_def
  LOGGER_QUEUE_SIZE_def

lemma first_issued_run:
  "mem_running LOGGER_QUEUE_SIZE \<lparr>mrRing = first_issued, mrLate = [(0, 0, LogMsg_new 2 ''up'')], mrEarly = False\<rparr>"
proof -
  have "mem_running LOGGER_QUEUE_SIZE \<lparr>mrRing = Logger_log 0 2 ''up'' ring_init, mrLate = [], mrEarly = False\<rparr>"
    using mem_running.step [OF mem_running.start mem_step.log_call [of mem_init 0 2 LOGGER_QUEUE_SIZE "''up''"]]
    by (simp add: mem_init_def ring_init_def)
  then have "mem_running LOGGER_QUEUE_SIZE \<lparr>mrRing = first_fill, mrLate = [], mrEarly = False\<rparr>"
    unfolding first_fill_def
    by (intro run_spin [where w = 0 and m = "LogMsg_new 2 ''up''" and r = 0]) (simp_all add: first_defs)
  from mem_running.step [OF this mem_step.fill [of _ 0 0 "LogMsg_new 2 ''up''"]] show ?thesis
    by (simp add: issue_record_def first_issued_def) (simp add: first_defs)
qed

lemma funpow_6: "(f ^^ 6) x = f (f (f (f (f (f x)))))"
  by (simp add: eval_nat_numeral)

section \<open>Properties\<close>

text \<open>
  C16. What a logging thread stores late shows only if its flag overtakes it: every run of the relaxed
  steps in which no flag is set before the record of its thread is visible is one of the runs of
  \<open>LogRing\<close>, with the threads whose record is not visible yet about to construct it, so that the
  file holds the messages in the order of their tickets, none lost, doubled or torn.
\<close>

lemma disorder_needs_overtaking:
  assumes "mem_running N t" and "\<not> mrEarly t"
  shows "running N ring_init (in_order t) \<and>
    (\<not> rgExit (mrRing t) \<longrightarrow> (\<exists>waiting. rgLogged (mrRing t) = rgOut (mrRing t) @ waiting))"
proof -
  have r: "running N ring_init (in_order t)" using mem_running_in_order [OF assms] by simp
  have same: "rgExit (in_order t) = rgExit (mrRing t)" "rgLogged (in_order t) = rgLogged (mrRing t)"
      "rgOut (in_order t) = rgOut (mrRing t)"
    by (simp_all add: in_order_def relabel_def)
  have "\<exists>waiting. rgLogged (in_order t) = rgOut (in_order t) @ waiting" if "\<not> rgExit (in_order t)"
  proof -
    have "history_ok (in_order t)" by (rule ring_invD(2) [OF ring_inv_running [OF r ring_inv_init that]])
    then show ?thesis
      by (intro exI [of _ "drop (consumed (in_order t)) (rgLogged (in_order t))"]) (simp add: history_ok_def)
  qed
  with r show ?thesis by (simp add: same)
qed

lemma disorder_needs_overtaking_witness:
  "\<exists>t waiting. mem_running LOGGER_QUEUE_SIZE t \<and> rgOut (mrRing t) = [LogMsg_new 2 ''up''] \<and>
    rgLogged (mrRing t) = [LogMsg_new 2 ''up''] @ waiting"
proof -
  let ?s = "store_record 0 (LogMsg_new 2 ''up'') first_issued"
  let ?t = "\<lparr>mrRing = (reader_step LOGGER_QUEUE_SIZE ^^ 6) (producer_step LOGGER_QUEUE_SIZE 0 ?s), mrLate = [],
    mrEarly = False\<rparr>"
  have "mem_running LOGGER_QUEUE_SIZE \<lparr>mrRing = ?s, mrLate = [], mrEarly = False\<rparr>"
    using mem_running.step [OF first_issued_run mem_step.visible [where us = "[]"]] by simp
  from run_consume [OF run_publish [OF this, of 0], of 0 "LogMsg_new 2 ''up''" 6] have run: "mem_running LOGGER_QUEUE_SIZE ?t"
    by (simp add: first_issued_def store_record_def)
  have "level_name (LogMsg_new 2 ''up'') = Inr ''INFO ''"
    by (simp add: level_name_def LogMsg_new_def vec_get_def levels_def)
  then have "rgOut (mrRing ?t) = [LogMsg_new 2 ''up'']" "\<not> rgExit (mrRing ?t)" "\<not> mrEarly ?t"
    by (simp_all add: first_defs store_record_def reader_step_def emit_def funpow_6)
  with disorder_needs_overtaking [OF run] run show ?thesis by metis
qed

text \<open>
  C17. The flag is stored with relaxed ordering, and that is not enough: without any \<open>exit\<close>, the first
  message ever logged can make the background thread take a record that is not visible yet, whose
  level is outside the array of level names.
\<close>

lemma relaxed_flag_faults:
  "\<exists>t. mem_running LOGGER_QUEUE_SIZE t \<and> \<not> rgExit (mrRing t) \<and>
     rgLogged (mrRing t) = [LogMsg_new 2 ''up''] \<and> rgReader (mrRing t) = RFault OutOfRange"
proof -
  let ?s = "(reader_step LOGGER_QUEUE_SIZE ^^ 6) (producer_step LOGGER_QUEUE_SIZE 0 first_issued)"
  let ?t = "\<lparr>mrRing = ?s, mrLate = [(0, 0, LogMsg_new 2 ''up'')], mrEarly = True\<rparr>"
  from run_consume [OF run_publish [OF first_issued_run, of 0], of 0 "LogMsg_new 2 ''up''" 6]
  have "mem_running LOGGER_QUEUE_SIZE ?t" by (simp add: first_issued_def)
  moreover have "level_name LogMsg_reset = Inl OutOfRange"
    by (simp add: level_name_def LogMsg_reset_def vec_get_def levels_def unat_eq_nat_uint uint_word_ariths)
  then have "\<not> rgExit ?s" "rgLogged ?s = [LogMsg_new 2 ''up'']" "rgReader ?s = RFault OutOfRange"
    by (simp_all add: first_defs reader_step_def emit_def funpow_6)
  ultimately show ?thesis by (intro exI [of _ ?t]) simp
qed

end
