(* ===== verification/Startup.thy ===== *)
theory Startup
  imports Feed LogRing
begin

text \<open>
  From the configuration to the receive loop: \<open>main\<close> of \<^verbatim>\<open>src/main.cpp\<close> up to its \<open>while(1)\<close>, the
  two \<open>setDump\<close> of \<^verbatim>\<open>src/logs.cpp\<close> that start the background thread of the logger, and
  \<open>SetListenerConfiguration\<close> of \<^verbatim>\<open>src/recoverymgr.h\<close>. What the operating system answers, the
  properties of the configuration file and the contract file are parameters; the calls made are
  the trace of the model.
\<close>

section \<open>Starting the logger\<close>

record logger_thread =
  lgFilePath :: string
  lgCoreId :: int
  lgRunning :: bool

definition logger_thread_new :: logger_thread where
  "logger_thread_new = \<lparr>lgFilePath = [], lgCoreId = 0, lgRunning = False\<rparr>"

text \<open>\<open>call_once\<close>: the first call makes the only instance.\<close>

definition getLogger :: "logger_thread option \<Rightarrow> logger_thread \<times> logger_thread option" where
  "getLogger inst = (case inst of None \<Rightarrow> (logger_thread_new, Some logger_thread_new) | Some l \<Rightarrow> (l, Some l))"

lemma getLogger_once: "getLogger (snd (getLogger inst)) = getLogger inst"
  by (simp add: getLogger_def split: option.split)

text \<open>
  Assigning to a \<open>std::thread\<close> that still runs ends the process; that is the value \<open>None\<close>.
\<close>

definition start_thread :: "logger_thread \<Rightarrow> logger_thread option" where
  "start_thread l = (if lgRunning l then None else Some (l\<lparr>lgRunning := True\<rparr>))"

definition setDump :: "string \<Rightarrow> int \<Rightarrow> logger_thread \<Rightarrow> logger_thread option" where
  "setDump filePathPrefix nCoreId l = start_thread (l\<lparr>lgFilePath := filePathPrefix, lgCoreId := nCoreId\<rparr>)"

definition setDump_core :: "int \<Rightarrow> logger_thread \<Rightarrow> logger_thread option" where
  "setDump_core nCoreId l = start_thread (l\<lparr>lgCoreId := nCoreId\<rparr>)"

text \<open>\<open>date\<close> is the text \<open>strftime\<close> makes of the day with the format \<^verbatim>\<open>"_%Y%m%d"\<close>.\<close>

definition log_file_name :: "string \<Rightarrow> logger_thread \<Rightarrow> string" where
  "log_file_name date l = lgFilePath l @ date @ ''.log''"

section \<open>The settings\<close>

text \<open>\<open>prop\<close> is \<open>ConfigReader::getProperty\<close>; \<open>c_str\<close> ends a string at its first null.\<close>

definition c_str :: "string \<Rightarrow> string" where
  "c_str s = takeWhile (\<lambda>c. c \<noteq> CHR 0x00) s"

record settings =
  lnReceiverCoreID :: int
  lnStremID :: int
  lnMaxPacketCountInRecovery :: int
  lnLoggerCoreId :: int
  lszLogFileName :: string
  lcRecoveryIPAddr :: string
  lnRecoveryPort :: int
  lnMulticastPortNumber :: int
  lszSourceMultiCastIpAddr :: string
  lszInterfaceIpAddr :: string
  lszContractFilePath :: string
  lszShmQFilePath :: string
  lnConnectionDelay :: int

definition read_settings :: "nat \<Rightarrow> (string \<Rightarrow> string) \<Rightarrow> settings" where
  "read_settings ipLen prop =
    \<lparr>lnReceiverCoreID = atoi (c_str (prop ''RECEIVER_CORE_ID'')),
     lnStremID = wrap 16 (atoi (c_str (prop ''STREAM_ID''))),
     lnMaxPacketCountInRecovery = atoi (c_str (prop ''SINGLE_RECOVERY_COUNT'')),
     lnLoggerCoreId = atoi (c_str (prop ''LOGGER_CORE_ID'')),
     lszLogFileName = prop ''LOG_FILE_NAME'',
     lcRecoveryIPAddr = take ipLen (c_str (prop ''RECOVERY_IP_ADDR'')),
     lnRecoveryPort = atoi (c_str (prop ''RECOVERY_PORT'')) mod 2 ^ 32,
     lnMulticastPortNumber = atoi (c_str (prop ''SOURCE_MULTI_CAST_PORT_NUMBER'')),
     lszSourceMultiCastIpAddr = prop ''SOURCE_MULTI_CAST_IP_ADDR'',
     lszInterfaceIpAddr = prop ''INTERFACE_IP_ADDR'',
     lszContractFilePath = c_str (prop ''CONTRACT_FILE_PATH''),
     lszShmQFilePath = c_str (prop ''SHM_FILE_PATH''),
     lnConnectionDelay = atoi (c_str (prop ''CONNECTION_DELAY''))\<rparr>"

section \<open>The multicast socket\<close>

text \<open>
  The calls that have an effect outside. \<open>Bind\<close> has the port after \<open>htons\<close> cut it to 16 bits;
  \<open>LogError\<close> is a message that goes to standard output and to the logger.
\<close>

datatype sys_call =
    StartThread logger_thread
  | SchedSetaffinity "int list"
  | MakeSocket
  | SetReceiveBuffer int int
  | SetReuseAddr int
  | Bind int int
  | AddMembership int string string
  | LogError string
  | CloseSocket int

text \<open>
  A call whose answer is tested: on failure the calls of the early return follow and the result
  is \<open>None\<close>, the \<open>return -1\<close>.
\<close>

definition attempt ::
  "sys_call \<Rightarrow> bool \<Rightarrow> sys_call list \<Rightarrow> sys_call list \<times> 'a option \<Rightarrow> sys_call list \<times> 'a option" where
  "attempt c failed early rest = (if failed then (c # early, None) else (c # fst rest, snd rest))"

text \<open>\<open>err\<close> is \<open>strerror(errno)\<close> after the call.\<close>

definition open_multicast ::
  "(sys_call \<Rightarrow> int) \<Rightarrow> (sys_call \<Rightarrow> string) \<Rightarrow> settings \<Rightarrow> sys_call list \<times> int option" where
  "open_multicast sys err st =
    (let m_nSockMulticast = sys MakeSocket;
         rcvbuf = SetReceiveBuffer m_nSockMulticast 134217728;
         reuse = SetReuseAddr m_nSockMulticast;
         bnd = Bind m_nSockMulticast (lnMulticastPortNumber st mod 2 ^ 16);
         member = AddMembership m_nSockMulticast (lszSourceMultiCastIpAddr st) (lszInterfaceIpAddr st)
     in attempt MakeSocket (m_nSockMulticast < 0)
          [LogError (''Error in creation of Sockets with error : '' @ err MakeSocket @ ''.'')]
       (attempt rcvbuf (sys rcvbuf \<noteq> 0)
          [LogError (''Error while setting SO_RCVBUF. Error number returned : '' @ err rcvbuf), CloseSocket m_nSockMulticast]
       (attempt reuse (sys reuse < 0)
          [CloseSocket m_nSockMulticast, LogError (''Error while setting REUSEADDR. Error number returned : '' @ err reuse)]
       (attempt bnd (sys bnd < 0)
          [LogError (''Error while binding socket : '' @ err bnd), CloseSocket m_nSockMulticast]
       (attempt member (sys member < 0)
          [CloseSocket m_nSockMulticast, LogError (''Error while setsockopt : '' @ err member)]
       ([], Some m_nSockMulticast))))))"

section \<open>The start of the program\<close>

text \<open>
  What the program finds outside: \<open>IP_ADDRESS_LEN\<close>, the configuration, the segment at a path and the
  empty queue that is constructed in it, the contract files, the answers of the system, and what
  the uninitialised \<open>lstCompositeBcastMsg\<close> holds.
\<close>

record 'q startup_env =
  seIpLen :: nat
  seProperty :: "string \<Rightarrow> string"
  seSegment :: "string \<Rightarrow> 'q shm_env"
  seEmptyQ :: 'q
  seFile :: "string \<Rightarrow> string list option"
  seSys :: "sys_call \<Rightarrow> int"
  seStrError :: "sys_call \<Rightarrow> string"
  seLocal :: CompositeBcastMsg

text \<open>The process aborts in an assertion, leaves with a code, or comes to the receive loop.\<close>

datatype 'q outcome = Aborts | Leaves int | Receives "'q trade_state feed"

text \<open>\<open>CPU_SET\<close> ignores a core outside its set of 1024.\<close>

definition cpu_set :: "int \<Rightarrow> int list" where
  "cpu_set core = (if 0 \<le> core \<and> core < 1024 then [core] else [])"

fun open_after :: "(sys_call \<Rightarrow> int) \<Rightarrow> sys_call list \<Rightarrow> int set" where
  "open_after sys [] = {}"
| "open_after sys (c # cs) =
     (case c of
        MakeSocket \<Rightarrow> (if sys c < 0 then open_after sys cs
                       else if CloseSocket (sys c) \<in> set cs then open_after sys cs
                       else insert (sys c) (open_after sys cs))
      | _ \<Rightarrow> open_after sys cs)"

definition first_state :: "'q \<Rightarrow> TOKENDATA_STORE \<Rightarrow> 'q trade_state" where
  "first_state q tbl =
    \<lparr>g_pcTradeMsgStore = [], g_pccTokenStore = {}, g_pcTokenDataStore = tbl,
     g_pcConRevQ = \<lparr>sqSize = 0, sqPtrQ = q\<rparr>\<rparr>"

definition first_feed :: "'q startup_env \<Rightarrow> settings \<Rightarrow> 'q \<Rightarrow> TOKENDATA_STORE \<Rightarrow> int \<Rightarrow> 'q trade_state feed" where
  "first_feed E st q tbl fd =
    \<lparr>fdMsg = seLocal E, fdLastSeqNo = 0,
     fdWorld = \<lparr>rwMgr = CRecoveryMgr_new (seIpLen E) (lnRecoveryPort st) (lcRecoveryIPAddr st) (lnStremID st)
                  (lnMaxPacketCountInRecovery st) (lnConnectionDelay st),
       rwTick = 0, rwSession = 0, rwOpen = {fd}, rwSent = [], rwSlept = [], rwApp = first_state q tbl\<rparr>\<rparr>"

definition start_program :: "'q startup_env \<Rightarrow> sys_call list \<times> 'q outcome" where
  "start_program E =
    (let st = read_settings (seIpLen E) (seProperty E)
     in case setDump (lszLogFileName st) (lnLoggerCoreId st) logger_thread_new of
          None \<Rightarrow> ([], Aborts)
        | Some l \<Rightarrow>
       (case shmQueue1_new (lszShmQFilePath st) 0 (seSegment E (lszShmQFilePath st)) (seEmptyQ E) of
          Attached q \<Rightarrow>
            (let aff = SchedSetaffinity (cpu_set (lnReceiverCoreID st))
             in if seSys E aff < 0 then ([StartThread l, aff], Leaves 1)
                else
                  (let tbl = snd (FileDigester (seFile E (lszContractFilePath st)) Map.empty);
                       (calls, sock) = open_multicast (seSys E) (seStrError E) st
                   in (StartThread l # aff # calls,
                       case sock of None \<Rightarrow> Leaves (- 1) | Some fd \<Rightarrow> Receives (first_feed E st q tbl fd))))
        | AssertFails \<Rightarrow> ([StartThread l], Aborts)
        | _ \<Rightarrow> ([StartThread l], Leaves 1)))"

text \<open>The program: the start, then the datagrams. It returns only from a failed start.\<close>

definition program :: "'q startup_env \<Rightarrow> 'q trade_state recovery_env \<Rightarrow> byte list list \<Rightarrow> 'q outcome run" where
  "program E Env ds =
    (case snd (start_program E) of
       Receives f \<Rightarrow> bindO (feed_run Env ds f) (\<lambda>f1. Some (Inr (Receives f1)))
     | out \<Rightarrow> Some (Inr out))"

text \<open>
  Leaving \<open>main\<close> or calling \<open>exit(1)\<close> runs the destructor of the logger, which waits for the
  thread if it was started; an assertion ends the process at once. \<open>r\<close> is the state of the logger.
\<close>

definition process_ends :: "sys_call list \<Rightarrow> 'q outcome \<Rightarrow> ring \<Rightarrow> bool" where
  "process_ends calls out r =
    (case out of
       Aborts \<Rightarrow> True
     | Leaves c \<Rightarrow> list_all (\<lambda>s. case s of StartThread l \<Rightarrow> Logger_joined r | _ \<Rightarrow> True) calls
     | Receives f \<Rightarrow> False)"

text \<open>
  The two threads of the process: \<open>main\<close> makes its calls in order, of which only the error messages
  reach the ring of the logger, and at its end the destructor runs; the background thread steps once
  it has been started. \<open>calls\<close> are those made so far, \<open>ended\<close> tells whether the destructor has come to
  its \<open>join\<close>.
\<close>

definition main_call :: "sys_call \<Rightarrow> ring \<Rightarrow> ring" where
  "main_call c s = (case c of LogError t \<Rightarrow> Logger_log 0 ERROR t s | _ \<Rightarrow> s)"

text \<open>Of the statements before the \<open>join\<close> there is one, commented out: \<^verbatim>\<open>//_exit=true;\<close>\<close>

definition Logger_destroy :: "ring \<Rightarrow> ring" where
  "Logger_destroy s = s"

inductive process :: "nat \<Rightarrow> sys_call list \<Rightarrow> bool \<Rightarrow> ring \<Rightarrow> bool" for N where
  starts: "process N [] False ring_init"
| calls: "process N calls False s \<Longrightarrow> rgProd s 0 = PIdle \<Longrightarrow> process N (calls @ [c]) False (main_call c s)"
| logs: "process N calls ended s \<Longrightarrow> rgProd s 0 \<noteq> PIdle \<Longrightarrow> process N calls ended (producer_step N 0 s)"
| thread: "process N calls ended s \<Longrightarrow> StartThread l \<in> set calls \<Longrightarrow> process N calls ended (reader_step N s)"
| ends: "process N calls False s \<Longrightarrow> rgProd s 0 = PIdle \<Longrightarrow> process N calls True (Logger_destroy s)"

section \<open>SetListenerConfiguration\<close>

text \<open>The options a listening socket is given, in order; the first that fails ends the function.\<close>

datatype listener_option =
  OptLinger int int | OptReuseAddr int | OptSndBuf int | OptRcvBuf int | OptNonBlocking int | OptNoDelay int

definition SYSTEM_CALL_ERROR :: int where "SYSTEM_CALL_ERROR = - 1"

definition listener_options :: "listener_option list" where
  "listener_options = [OptLinger 1 10, OptReuseAddr 1, OptSndBuf 134217728, OptRcvBuf 134217728,
     OptNonBlocking 1, OptNoDelay 1]"

fun set_options :: "(listener_option \<Rightarrow> int) \<Rightarrow> listener_option list \<Rightarrow> listener_option list \<times> int" where
  "set_options sys [] = ([], 0)"
| "set_options sys (c # cs) =
     (if sys c = SYSTEM_CALL_ERROR then ([c], SYSTEM_CALL_ERROR)
      else (let (done, r) = set_options sys cs in (c # done, r)))"

definition SetListenerConfiguration :: "(listener_option \<Rightarrow> int) \<Rightarrow> listener_option list \<times> int" where
  "SetListenerConfiguration sys = set_options sys listener_options"

lemma set_options_result:
  "snd (set_options sys cs) = (if SYSTEM_CALL_ERROR \<in> sys ` set cs then SYSTEM_CALL_ERROR else 0)"
  by (induction cs) (auto simp: SYSTEM_CALL_ERROR_def split: prod.splits)

section \<open>What a start leaves behind\<close>

lemma attempt_simps [simp]:
  "attempt c True early rest = (c # early, None)"
  "attempt c False early rest = (c # fst rest, snd rest)"
  by (simp_all add: attempt_def)

lemma open_multicast_result:
  assumes "open_multicast sys err st = (calls, r)"
  shows "(case r of
      None \<Rightarrow> open_after sys calls = {}
    | Some fd \<Rightarrow> fd = sys MakeSocket \<and> 0 \<le> fd \<and> open_after sys calls = {fd} \<and> (\<forall>t. LogError t \<notin> set calls))"
  using assms by (auto simp: open_multicast_def Let_def attempt_def split: if_splits)

lemma shmQueue1_new_fresh:
  "shmQueue1_new path 0 env fresh = Attached q \<Longrightarrow> q = fresh"
  "shmQueue1_new path 0 env fresh = AssertFails \<Longrightarrow> 1024 < length path"
  by (auto simp: shmQueue1_new_def attach_segment_def split: if_splits option.splits)

lemma setDump_new: "setDump path core logger_thread_new = Some \<lparr>lgFilePath = path, lgCoreId = core, lgRunning = True\<rparr>"
  by (simp add: setDump_def start_thread_def logger_thread_new_def)

lemma start_program_receives:
  assumes "snd (start_program E) = Receives f"
  shows "\<exists>fd. f = first_feed E (read_settings (seIpLen E) (seProperty E)) (seEmptyQ E)
      (snd (FileDigester (seFile E (lszContractFilePath (read_settings (seIpLen E) (seProperty E)))) Map.empty)) fd"
  using assms
  by (auto simp: start_program_def setDump_new Let_def dest: shmQueue1_new_fresh
    split: attach.splits if_splits prod.splits option.splits)

lemma read_settings_typed:
  "in_range 32 (lnMaxPacketCountInRecovery (read_settings n prop))" "in_range 16 (lnStremID (read_settings n prop))"
  by (simp_all add: read_settings_def atoi_def wrap_in_range)

text \<open>A system in which every call succeeds and the settings are the given texts.\<close>

definition sample_properties :: "string \<Rightarrow> string" where
  "sample_properties k = (if k = ''SINGLE_RECOVERY_COUNT'' then ''10'' else ''1'')"

definition sample_startup :: "int \<Rightarrow> tagConRevTradeDetails list startup_env" where
  "sample_startup key =
    \<lparr>seIpLen = 32, seProperty = sample_properties,
     seSegment = (\<lambda>_. \<lparr>envKey = key, envGetExcl = 1, envErrno = 0, envGet = 1, envAttach = Some []\<rparr>),
     seEmptyQ = [], seFile = (\<lambda>_. None), seSys = (\<lambda>c. if c = MakeSocket then 3 else 0),
     seStrError = (\<lambda>_. []), seLocal = packet_of []\<rparr>"

lemma sample_startup_settings:
  "lnMaxPacketCountInRecovery (read_settings 32 sample_properties) = 10"
  "lszShmQFilePath (read_settings 32 sample_properties) = ''1''"
proof -
  have "atoi ''10'' = 10" by code_simp
  then show "lnMaxPacketCountInRecovery (read_settings 32 sample_properties) = 10"
    by (simp add: read_settings_def sample_properties_def c_str_def)
qed (simp add: read_settings_def sample_properties_def c_str_def)

lemma sample_startup_receives: "\<exists>f. snd (start_program (sample_startup 1)) = Receives f"
  by (simp add: start_program_def setDump_new Let_def sample_startup_def sample_startup_settings
    shmQueue1_new_def attach_segment_def open_multicast_def)

section \<open>The logger of the process\<close>

lemma process_running: "process N calls ended s \<Longrightarrow> running N ring_init s \<and> \<not> rgExit s"
proof (induction rule: process.induct)
  case starts
  then show ?case by (simp add: running.refl) (simp add: ring_init_def)
next
  case (calls cs s c)
  then show ?case
    by (cases c) (auto simp: main_call_def ERROR_def Logger_log_def PERF_def
      intro: running_log [of N ring_init s 0 3, unfolded Logger_log_def PERF_def, simplified])
next
  case (logs cs ended s)
  then show ?case
    using running_produce by (auto simp: producer_step_def split: producer.splits)
next
  case (thread cs ended s l)
  then show ?case
    using running_consume by (auto simp: reader_step_def emit_def split: reader.splits sum.splits)
next
  case (ends cs s)
  then show ?case by (simp add: Logger_destroy_def)
qed

section \<open>Properties\<close>

text \<open>
  C20. A start ends in one of three ways. It comes to the receive loop with the multicast socket as
  the only open descriptor, no error reported, empty stores, an empty queue, the contract file as
  the table, and the sequence number 0; or it leaves with a code after every descriptor it opened
  has been closed; or the path of the segment is too long for the assertion.
\<close>

lemma startup_outcome:
  "case start_program E of
     (calls, Receives f) \<Rightarrow>
       \<exists>fd. rwOpen (fdWorld f) = {fd} \<and> open_after (seSys E) calls = {fd} \<and> 0 \<le> fd \<and>
         (\<forall>t. LogError t \<notin> set calls) \<and> fdLastSeqNo f = 0 \<and>
         rwApp (fdWorld f) = first_state (seEmptyQ E)
           (snd (FileDigester (seFile E (lszContractFilePath (read_settings (seIpLen E) (seProperty E)))) Map.empty))
   | (calls, Leaves c) \<Rightarrow> open_after (seSys E) calls = {} \<and> c \<in> {1, - 1}
   | (calls, Aborts) \<Rightarrow> 1024 < length (lszShmQFilePath (read_settings (seIpLen E) (seProperty E)))"
  by (auto simp: start_program_def setDump_new Let_def first_feed_def
    dest: shmQueue1_new_fresh dest!: open_multicast_result
    split: attach.splits if_splits prod.splits option.splits)

text \<open>
  C37. A start that fails with a code never ends the process: the background thread of the logger has
  been started before anything can fail, and neither \<open>main\<close> nor the destructor of the logger sets
  \<open>_exit\<close>. When \<open>main\<close> has made the calls of such a start and the destructor has come to its \<open>join\<close>,
  then however the two threads have interleaved and will interleave, the thread has not returned.
\<close>

lemma failed_start_hangs:
  assumes "start_program E = (calls, Leaves c)" and "process N calls True r"
  shows "\<not> process_ends calls (Leaves c) r"
proof -
  have "running N ring_init r" "\<not> rgExit r" using process_running [OF assms(2)] by simp_all
  then have "\<not> Logger_joined r" using never_joined by blast
  with assms(1) show ?thesis
    by (auto simp: start_program_def setDump_new Let_def process_ends_def
      split: attach.splits if_splits prod.splits option.splits)
qed

text \<open>The key of the segment cannot be made: the process waits although it has logged nothing.\<close>

lemma failed_start_hangs_witness:
  "\<exists>calls r. start_program (sample_startup (- 1)) = (calls, Leaves 1) \<and> process 2 calls True r \<and>
    \<not> process_ends calls (Leaves 1 :: tagConRevTradeDetails list outcome) r"
proof -
  obtain l where s: "start_program (sample_startup (- 1)) = ([StartThread l], Leaves 1)"
    by (simp add: start_program_def setDump_new Let_def sample_startup_def sample_startup_settings shmQueue1_new_def)
  have i: "rgProd ring_init 0 = PIdle" by (simp add: ring_init_def)
  have "process 2 [StartThread l] False ring_init"
    using process.calls [OF process.starts i, of 2 "StartThread l"] by (simp add: main_call_def)
  from process.ends [OF this i] have p: "process 2 [StartThread l] True (Logger_destroy ring_init)" .
  from failed_start_hangs [OF s p] s p show ?thesis by blast
qed

end
