(* ===== verification/Spec2Isabelle.thy ===== *)
theory Spec2Isabelle
  imports Prelude Wire Contracts Trades Split ShmQueue QueueLock ConRev Typed Report Recovery ParserLoop Feed Replay Payload History LogRing LogText LogMemory Startup
begin

text \<open>
  A verification development of the real-time conversion/reversal trade generator.

  \<^bold>\<open>The program.\<close> \<open>main\<close> (\<^verbatim>\<open>src/main.cpp\<close>) reads the contract file into a table, attaches a queue
  in shared memory, and receives the exchange's multicast feed one datagram at a time. A gap in
  the sequence numbers is recovered over TCP (\<^verbatim>\<open>src/recoverymgr.h\<close>) before the datagram is
  handled; recovered messages and datagrams go to the same handler, \<open>WriteDataInFile\<close>. The
  handler stores trades of which one side is unknown (the marks of a multi-leg order) and, at the
  next order message, looks for groups of a future, a call and a put of one strike and expiry in
  which future and put are on one side and the call on the other: a conversion or a reversal. Each
  group becomes one record, with its spread, on the queue. Everything logs through a ring buffer
  that a background thread writes to a file (\<^verbatim>\<open>src/log.h\<close>, \<^verbatim>\<open>src/logs.cpp\<close>).

  \<^bold>\<open>The theories\<close>, in the order in which they build on each other:
  \<^item> \<open>Prelude\<close>: the faults a statement can end in (null dereference, dereference of an end
    iterator, index outside a vector, division trap), the result type \<open>'a res\<close> with \<open>bindR\<close>, loops
    over a vector (\<open>foldR\<close>) with their invariant rules, integers that wrap at 16, 32 or 64 bits
    (\<open>wrap\<close>), and the division of C++ (\<open>cquot\<close>, \<open>cdiv\<close>).
  \<^item> \<open>Wire\<close>: \<^verbatim>\<open>src/nsetbt_mcast_msg.h\<close>. Every packed struct \<open>X\<close> is a record with \<open>sizeof_X\<close>, the
    decoder \<open>X_of\<close> and the encoder \<open>X_bytes\<close>; the union \<open>BcastMsg\<close> is the bytes its members overlay.
    The locale \<open>packed_struct\<close> states what the program relies on when it casts buffers to structs, and
    is interpreted on all eleven of them. The conversion of an order id from \<open>double\<close> to \<open>int64_t\<close> is
    defined on the bit pattern. The locale \<open>message_sink\<close> is the contract of the message handler
    that the recovery manager only declares.
  \<^item> \<open>Contracts\<close>: \<open>OMSScripInfo\<close> (\<^verbatim>\<open>src/struct_conrevtrade.h\<close>), the columns of
    \<^verbatim>\<open>src/defines_conrevtrades.h\<close>, and \<open>FileDigester\<close>.
  \<^item> \<open>Trades\<close>: the helpers of \<^verbatim>\<open>src/main.cpp\<close> on a vector of stored trades
    (\<open>ValidateTradeMsgRecords\<close>, \<open>IsValidateConRev\<close>, the two \<open>DeletePacketTill...\<close>,
    \<open>SecondLevelOrderValidation\<close>, \<open>ResetExtraDetails\<close>, \<open>GetExtraDetails\<close>, \<open>GetMiddleQty\<close>), each with
    its closed form on trades of known contracts.
  \<^item> \<open>Split\<close>: \<open>SplitTrade\<close>, which cuts a burst into candidate groups.
  \<^item> \<open>ShmQueue\<close>: \<^verbatim>\<open>src/shmQueue.h\<close>, attaching the three queue classes and their operations. The
    locale \<open>spsc_queue\<close> is the documented behaviour of the wrapped boost queue; the locale
    \<open>bounded_fifo\<close>, of which it is a \<open>sublocale\<close>, what the program's consumers see.
  \<^item> \<open>QueueLock\<close>: the statements of \<open>shmQueue1::enqueue\<close> and \<open>dequeue\<close> as steps of any number of threads in
    any number of processes, with a mutex and a counter in each process and the queue in the segment.
  \<^item> \<open>ConRev\<close>: \<open>WriteDataInFile\<close> on the state \<open>trade_state\<close> of the globals \<open>g_pcTradeMsgStore\<close>,
    \<open>g_pccTokenStore\<close>, \<open>g_pcTokenDataStore\<close> and \<open>g_pcConRevQ\<close>. \<open>publish_burst\<close> is its abstract
    specification: one record per accepted group, a function of that group alone. The handler is an
    interpretation of \<open>message_sink\<close>.
  \<^item> \<open>Typed\<close>: the type invariant of the table and of the published records, with a second
    interpretation of \<open>message_sink\<close> by the handler.
  \<^item> \<open>Report\<close>: the line printed for a published group, with the contract name.
  \<^item> \<open>Recovery\<close>: \<open>CRecoveryMgr\<close>. \<open>recovery_world\<close> is the manager and what it did to the outside (open
    descriptors, requests sent, sleeps); \<open>recovery_env\<close> is what the outside answers. What a handler
    that is a \<open>message_sink\<close> keeps, the whole manager keeps.
  \<^item> \<open>ParserLoop\<close>: on which bytes \<open>GetPacketFromMessage\<close> comes to an end.
  \<^item> \<open>Feed\<close>: the receive loop of \<open>main\<close>, over the recovery manager and the handler.
  \<^item> \<open>Replay\<close>: the feed and the recovery against the history of the exchange, with a server that
    replays any part of it in sessions that may be refused or cut short.
  \<^item> \<open>Payload\<close>: the handler's functions commute with every change of messages and contracts that keeps
    the trade of a message and the terms of a contract (the locale \<open>payload\<close>, interpreted on the bare
    trade and the contract with nothing traded).
  \<^item> \<open>History\<close>: \<open>stream_records\<close>, the records of a sequence of messages as a pure function; the handler
    refines it, and messages that carry the same packets give the same records.
  \<^item> \<open>LogRing\<close>: the logger as a step relation, every access to a shared variable one step, and
    \<open>TaskSet\<close> of \<^verbatim>\<open>src/setaffinity.cpp\<close>.
  \<^item> \<open>LogText\<close>: \<open>snprintf\<close>, the \<open>log\<close> template, the rest of \<open>LogMsg\<close>, and the lines of the log file.
  \<^item> \<open>LogMemory\<close>: the ring with record stores that become visible late, as the relaxed orderings allow.
  \<^item> \<open>Startup\<close>: \<open>main\<close> before its loop as the trace of its system calls, \<open>program\<close>, the process with
    its background thread and the destructor of the logger, and \<open>SetListenerConfiguration\<close>.

  \<^bold>\<open>What the lemmas show.\<close> The program as a whole: C1 (from its start to the end of the
  datagrams), C2 (recovery is transparent: the handler gets the history of the exchange, whatever
  the feed loses), C3 (what is published is a pure function of the contract file and that history),
  C20 and C37 (how a start ends, and that a failed one never does). The handler:
  C4 (refinement of \<open>publish_burst\<close>), C5 (its invariant over any sequence of messages),
  C6 (the published spread is the parity gap), C18 (types), C22 and C23 (what is stored and when it is
  cleared), C29 and C30 (two ways it ends the process), C38 (the printed line agrees
  with the record). The group logic: C7 and C8 (what \<open>IsValidateConRev\<close> accepts), C9 and C10 (the
  split is safe and keeps expiries apart), C21 and C31 (closed forms of the helpers),
  C28 (the strike of the puts is not looked at). The feed and the recovery: C11 (no sequence number is
  lost or taken twice), C12 (a session delivers its whole messages, wherever it is cut but for one place), C13 (requests tile
  the gap), C34 (when the parser returns), C36 and C40 (a server that refuses every session, or rejects every
  request, is asked for ever), C39 (the delay between requests). The contract file: C32, C33. The queues: C19
  (threads of one process each are as if one after the other, first in first out) and
  C24 (those of two processes are not). The logger: C14 and C15 (the file is the tickets in order, a writer owns its slot),
  C25 (the lines of the file read back), C16 and C17 (runs in which no flag overtakes its record are in
  order, and the relaxed store lets it), C26, C27 and C35 (when the ring is live, when it deadlocks, what \<open>exit\<close>
  does).

  \<^bold>\<open>Loops.\<close> No definition has fuel. Loops over data are structural recursions. The loops whose end
  depends on the input, \<open>packet_loop\<close>, \<open>force_loop\<close> and \<open>shmQueue_benqueue\<close>, are partial functions with
  the value \<open>None\<close> for a call that never returns; that a call returns is proved as such (C1, C2,
  C3, C11, C12, C34 and \<open>benqueue_waits\<close>), and so is that it does not (C34, C36, C40 and
  \<open>benqueue_waits\<close>). The logger has no loop in the model: a spin is a step that changes nothing, and the
  properties are about all reachable states.

  \<^bold>\<open>Parameters.\<close> What is not among the sources is an argument: the operations of the wrapped queues,
  the properties of the configuration, the clock and \<open>localtime_r\<close>, the answers of the system calls
  and of the recovery server, \<open>IP_ADDRESS_LEN\<close> (in a missing header), what an uninitialised local
  holds, the text of a \<open>double\<close>, and the message handler of the recovery manager, which C1
  instantiates with the real one.

  \<^bold>\<open>Representation.\<close> Integers are \<open>int\<close> with \<open>wrap\<close> at the width of the source after every addition
  that may exceed it (where the standard leaves signed overflow undefined, the model wraps, as the
  compilers used do); \<open>double\<close> is its 64-bit pattern; a \<open>char\<close> array is the string before its
  terminator; the contract table is a map to the objects its pointers own; the \<open>memcpy\<close> that moves
  the rest of a buffer to its front, whose regions may overlap, is a move.

  \<^bold>\<open>Not modelled.\<close> \<open>ConfigReader\<close> and \<open>CFeedReceiver\<close> are declared without a body. Diagnostic messages
  on standard output are output only. Of the logger's memory orderings, late stores of the logging
  threads are modelled, while the accesses of the background thread stay in their order; indices that
  wrap at 2^64 are not, nor a negative log level, which the program never passes. Of \<open>snprintf\<close> there are
  the directives that the program uses. The recovery
  manager keeps the port and the text of the address, from which its \<open>sockaddr_in\<close> is made. Constants,
  enumerations and the struct \<open>tagPacketControl\<close> that nothing uses are left out.
\<close>

section \<open>The whole program\<close>

definition sample_program_env :: "tagConRevTradeDetails list trade_state recovery_env" where
  "sample_program_env = \<lparr>reClock = (\<lambda>_. \<lparr>tv_sec = 5000, tv_nsec = 0\<rparr>), reLocal = (\<lambda>_. packet_of []),
     reSession = (\<lambda>k r. sample_session (nEndSeqNo r)), reHandle = WriteDataInFile1 (list_push 9)\<rparr>"

lemma sample_program_serves: "serves (trade_known D) sample_program_env"
proof -
  have "stream_accepted (trade_known D) (sample_stream n)" if "small n" for n
  proof (rule trades_of_accepted)
    show "\<forall>x \<in> set (sample_stream n). packet_ok x"
      using sample_stream_ok [OF that] by (simp add: stream_ok_def)
  qed (simp add: trades_of_def sample_stream_def)
  moreover have "connects (sample_session n)" "last_seq (sample_stream n) 0 = n" for n
    by (simp_all add: connects_def sample_session_def sample_stream_def order_msg_def)
  ultimately show ?thesis
    using sample_stream_ok sample_answer by (fastforce simp: serves_def sample_program_env_def small_in_range)
qed

definition replay_env :: "(int \<Rightarrow> packet) \<Rightarrow> tagConRevTradeDetails list trade_state recovery_env" where
  "replay_env hist = sample_program_env\<lparr>reSession := \<lambda>k r. replay_session hist (nBegSeqNo r) (nEndSeqNo r)\<rparr>"

lemma replay_env_archive:
  assumes "hist_ok hist"
  shows "archive hist (replay_env hist)" and "fair hist (replay_env hist)"
proof -
  have p: "plays hist (reSession (replay_env hist) k r) (nBegSeqNo r) (nEndSeqNo r)" if "valid_request r" for k r
    using that replay_session_plays [OF assms] by (simp add: replay_env_def valid_request_def)
  have le: "nBegSeqNo r - 1 \<le> nEndSeqNo r" "nBegSeqNo r \<le> nEndSeqNo r" if "valid_request r" for r
    using that by (auto simp: valid_request_def)
  show "archive hist (replay_env hist)"
    unfolding archive_def using p le by blast
  have "productive hist (replay_env hist) k" for k
    unfolding productive_def using p le by blast
  then show "fair hist (replay_env hist)" by (simp add: fair_def)
qed

text \<open>A feed that brings some messages of a history, in any order.\<close>

lemma some_messages: "\<forall>q \<in> set qs. 0 \<le> q \<and> in_range 32 q \<Longrightarrow> feed_of hist (map (\<lambda>q. packet_bytes (hist q)) qs)"
  by (auto simp: feed_of_def)

lemma program_returns: "snd (start_program E) = Receives f \<Longrightarrow> returns (feed_run Env ds f) Q \<Longrightarrow>
    returns (program E Env ds) (\<lambda>out. \<exists>f1. out = Receives f1 \<and> Q f1)"
  by (cases "feed_run Env ds f" rule: run_cases) (simp_all add: program_def)

text \<open>The start of the sample program with a contract file.\<close>

definition conv_startup :: "string list \<Rightarrow> tagConRevTradeDetails list startup_env" where
  "conv_startup file = (sample_startup 1)\<lparr>seFile := \<lambda>_. Some file\<rparr>"

lemma conv_startup_receives: "\<exists>f. snd (start_program (conv_startup file)) = Receives f"
  by (simp add: conv_startup_def start_program_def setDump_new Let_def sample_startup_def sample_startup_settings
    shmQueue1_new_def attach_segment_def open_multicast_def)

text \<open>A program over a lossy feed: the handler has been given the history, from the first state on.\<close>

lemma program_history:
  assumes "snd (start_program E) = Receives f"
    and "0 < lnMaxPacketCountInRecovery (read_settings (seIpLen E) (seProperty E))"
    and "hist_ok hist" and "archive hist Env" and "fair hist Env" and "feed_of hist ds"
  shows "returns (program E Env ds) (\<lambda>out. \<exists>f1. out = Receives f1 \<and> feed_ok f1 \<and>
    (\<forall>q. 0 \<le> q \<and> in_range 32 q \<and> packet_bytes (hist q) \<in> set ds \<longrightarrow> q \<le> fdLastSeqNo f1) \<and>
    (\<exists>ms. heard hist [1..fdLastSeqNo f1] ms \<and>
      foldR (reHandle Env) ms (rwApp (fdWorld f)) = Inr (rwApp (fdWorld f1))))"
proof -
  obtain q tbl fd where f: "f = first_feed E (read_settings (seIpLen E) (seProperty E)) q tbl fd"
    using start_program_receives [OF assms(1)] by blast
  then have "feed_ok f" and "fdLastSeqNo f = 0"
    using assms(2) by (simp_all add: feed_ok_def first_feed_def in_range_def CRecoveryMgr_new_def)
  from feed_run_replay [OF assms(3-5) this(1) assms(6)] this(2) show ?thesis
    by (intro program_returns [OF assms(1)]) (auto simp: fed_def elim!: returns_mono)
qed

section \<open>Properties\<close>

text \<open>
  C1. The program is safe on known contracts. Suppose it has started, its request size is positive, the
  recovery server answers every request in one session up to the last number asked for, and the trades of the datagrams and of
  the recovered messages are all of contracts of its file (C29 is what happens otherwise). Then it
  comes to the end of the datagrams whatever gaps they have, in the handler's invariant, with a
  well-typed table and well-typed records on the queue, and with the sequence number of the last
  datagram it took; only a division can end the process before.
\<close>

lemma program_safe:
  assumes "snd (start_program E) = Receives f" and "g_pcTokenDataStore (rwApp (fdWorld f)) = tbl"
    and "0 < lnMaxPacketCountInRecovery (read_settings (seIpLen E) (seProperty E))"
    and "pushes_typed push J" and "J (seEmptyQ E)"
    and "reHandle Env = WriteDataInFile1 push" and "serves (trade_known (dom tbl)) Env"
    and "acceptable_feed (trade_known (dom tbl)) (stBcastMsg (seLocal E)) ds"
  shows "\<exists>r. program E Env ds = Some r \<and> wpost {Sigfpe} r (\<lambda>out. \<exists>f1. out = Receives f1 \<and>
    typed_inv push J (dom tbl) (rwApp (fdWorld f1)) \<and>
    fdLastSeqNo f1 = last (0 # accepted (stBcastMsg (seLocal E)) 0 ds))"
proof -
  let ?st = "read_settings (seIpLen E) (seProperty E)"
  obtain fd where f: "f = first_feed E ?st (seEmptyQ E)
      (snd (FileDigester (seFile E (lszContractFilePath ?st)) Map.empty)) fd"
    using start_program_receives [OF assms(1)] by blast
  then have tbl: "tbl = snd (FileDigester (seFile E (lszContractFilePath ?st)) Map.empty)"
    using assms(2) by (simp add: first_feed_def first_state_def)
  have "table_typed tbl"
    unfolding tbl by (rule FileDigester_typed) (simp add: table_typed_def)
  then have inv: "typed_inv push J (dom tbl) (rwApp (fdWorld f))"
    using assms(4,5) by (simp add: f tbl first_feed_def first_state_def typed_inv_def handler_inv_def
      store_ok_def known_def)
  have msg: "fdMsg f = seLocal E" and q: "fdLastSeqNo f = 0" by (simp_all add: f first_feed_def)
  have "feed_ok f"
    using assms(3) by (simp add: feed_ok_def f first_feed_def in_range_def CRecoveryMgr_new_def)
  from feed_run_prompt [OF serves_prompt [OF assms(7)] this, of ds]
  have ret: "returns (feed_run Env ds f) (\<lambda>f1. fdLastSeqNo f1 = last (0 # accepted (stBcastMsg (seLocal E)) 0 ds))"
    unfolding msg q by (rule returns_mono) blast
  have "keeps {Sigfpe} (feed_run Env ds f) (\<lambda>f1. typed_inv push J (dom tbl) (rwApp (fdWorld f1)))"
    by (rule typed_handler.feed_run_keeps [OF assms(6,7) _ inv]) (simp_all add: msg assms(8))
  from keeps_returns [OF this ret] obtain x where x: "feed_run Env ds f = Some x"
      "wpost {Sigfpe} x (\<lambda>f1. typed_inv push J (dom tbl) (rwApp (fdWorld f1)) \<and>
        fdLastSeqNo f1 = last (0 # accepted (stBcastMsg (seLocal E)) 0 ds))" by blast
  then show ?thesis
    by (cases x) (simp_all add: program_def assms(1) del: last.simps)
qed

lemma program_safe_witness:
  "\<exists>r. program (sample_startup 1) sample_program_env (map (\<lambda>q. GENERIC_ORD_MSG_bytes (order_msg q)) [1, 5, 3]) = Some r \<and>
    wpost {Sigfpe} r (\<lambda>out. \<exists>f1. out = Receives f1 \<and> fdLastSeqNo f1 = 5 \<and>
      (\<forall>x \<in> set (sqPtrQ (g_pcConRevQ (rwApp (fdWorld f1)))). record_typed x))"
proof -
  let ?E = "sample_startup 1" and ?ds = "map (\<lambda>q. GENERIC_ORD_MSG_bytes (order_msg q)) [1, 5, 3]"
  obtain f where f: "snd (start_program ?E) = Receives f"
    using sample_startup_receives by blast
  have n: "GENERIC_ORD_MSG_bytes (order_msg q) \<noteq> []" for q
    by (simp add: GENERIC_ORD_MSG_bytes_def)
  have ds: "acceptable_feed (trade_known D) u ?ds" for D u
    by (simp add: order_datagram(3) small_def)
  have acc: "accepted u 0 ?ds = [1, 5]" for u
    by (simp add: Let_def order_datagram(2) small_def n)
  have cnt: "0 < lnMaxPacketCountInRecovery (read_settings (seIpLen ?E) (seProperty ?E))"
    by (simp add: sample_startup_def sample_startup_settings)
  have emp: "\<forall>x \<in> set (seEmptyQ ?E). record_typed x" by (simp add: sample_startup_def)
  have h: "reHandle sample_program_env = WriteDataInFile1 (list_push 9)" by (simp add: sample_program_env_def)
  obtain r where r: "program ?E sample_program_env ?ds = Some r"
      "wpost {Sigfpe} r (\<lambda>out. \<exists>f1. out = Receives f1 \<and>
        typed_inv (list_push 9) (\<lambda>q. \<forall>x \<in> set q. record_typed x)
          (dom (g_pcTokenDataStore (rwApp (fdWorld f)))) (rwApp (fdWorld f1)) \<and>
        fdLastSeqNo f1 = last (0 # accepted (stBcastMsg (seLocal ?E)) 0 ?ds))"
    using program_safe [OF f HOL.refl cnt list_push_typed emp h sample_program_serves ds] by blast
  from r(2) have "wpost {Sigfpe} r (\<lambda>out. \<exists>f1. out = Receives f1 \<and> fdLastSeqNo f1 = 5 \<and>
      (\<forall>x \<in> set (sqPtrQ (g_pcConRevQ (rwApp (fdWorld f1)))). record_typed x))"
    unfolding acc by (rule wpost_mono) (auto simp: typed_inv_def)
  with r(1) show ?thesis by blast
qed

text \<open>
  C2. Recovery is transparent: the multicast feed may lose any messages of the exchange's history,
  repeat them or bring them out of order, and sessions with the recovery server may be refused,
  close early, or break off with an error, also in the middle of a message, as long as again and
  again one brings a message. The program comes to the end of the datagrams, unless the handler ends
  it, and the handler has then been given every message of the history from 1 up to the last number,
  each exactly once and in order, and nothing else; only the end of the master data is not handed to
  it when a session brings it (a datagram of it is). The last number is not below that of any
  datagram received.
\<close>

lemma recovery_transparent:
  assumes "snd (start_program E) = Receives f"
    and "0 < lnMaxPacketCountInRecovery (read_settings (seIpLen E) (seProperty E))"
    and "hist_ok hist" and "archive hist Env" and "fair hist Env" and "feed_of hist ds"
  shows "returns (program E Env ds) (\<lambda>out. \<exists>f1. out = Receives f1 \<and>
    (\<forall>q. 0 \<le> q \<and> in_range 32 q \<and> packet_bytes (hist q) \<in> set ds \<longrightarrow> q \<le> fdLastSeqNo f1) \<and>
    (\<exists>ms. heard hist [1..fdLastSeqNo f1] ms \<and>
      foldR (reHandle Env) ms (rwApp (fdWorld f)) = Inr (rwApp (fdWorld f1))))"
  by (rule returns_mono [OF program_history [OF assms]]) blast

lemma recovery_transparent_witness:
  "returns (program (sample_startup 1) (replay_env order_hist) (map (\<lambda>q. packet_bytes (order_hist q)) [1, 5, 3]))
    (\<lambda>out. \<exists>f1. out = Receives f1 \<and> 5 \<le> fdLastSeqNo f1)"
proof -
  obtain f where f: "snd (start_program (sample_startup 1)) = Receives f"
    using sample_startup_receives by blast
  have cnt: "0 < lnMaxPacketCountInRecovery (read_settings (seIpLen (sample_startup 1)) (seProperty (sample_startup 1)))"
    by (simp add: sample_startup_def sample_startup_settings)
  have ds: "feed_of order_hist (map (\<lambda>q. packet_bytes (order_hist q)) [1, 5, 3])"
    by (rule some_messages) (simp add: in_range_def)
  show ?thesis
    by (rule returns_mono [OF recovery_transparent [OF f cnt order_hist_ok replay_env_archive [OF order_hist_ok] ds]])
      (auto simp: in_range_def dest!: spec [of _ 5])
qed

text \<open>
  C3. What is published is a function of the history of the exchange alone. Under the conditions of
  C2, with the real handler and a history whose trades are of contracts of the contract file, the
  queue holds at the end what \<open>stream_records\<close> computes from the messages 1 up to the last number,
  pushed in order on the empty queue: one record for each group of each burst that is accepted.
  Which messages the multicast lost, how the sessions were cut, what else the buffers held and when
  messages were received has no influence, nor has the end of the master data.
\<close>

lemma published_history:
  assumes "snd (start_program E) = Receives f"
    and "0 < lnMaxPacketCountInRecovery (read_settings (seIpLen E) (seProperty E))"
    and "hist_ok hist" and "archive hist Env" and "fair hist Env" and "feed_of hist ds"
    and "reHandle Env = WriteDataInFile1 push"
    and "tbl = snd (FileDigester (seFile E (lszContractFilePath (read_settings (seIpLen E) (seProperty E)))) Map.empty)"
    and "hist_known hist (dom tbl)"
  shows "returns (program E Env ds) (\<lambda>out. \<exists>f1 rs. out = Receives f1 \<and> in_range 32 (fdLastSeqNo f1) \<and>
    (\<forall>q. 0 \<le> q \<and> in_range 32 q \<and> packet_bytes (hist q) \<in> set ds \<longrightarrow> q \<le> fdLastSeqNo f1) \<and>
    stream_records tbl [] (history_messages hist (fdLastSeqNo f1)) = Inr rs \<and>
    g_pcConRevQ (rwApp (fdWorld f1)) = push_all push rs \<lparr>sqSize = 0, sqPtrQ = seEmptyQ E\<rparr>)"
proof (rule returns_mono [OF program_history [OF assms(1-6)]])
  let ?s = "first_state (seEmptyQ E) tbl"
  have f: "rwApp (fdWorld f) = ?s"
    using start_program_receives [OF assms(1)] by (auto simp: first_feed_def assms(8))
  have inv: "handler_inv (dom tbl) ?s"
    by (simp add: handler_inv_def store_ok_def first_state_def known_def)
  fix out
  assume "\<exists>f1. out = Receives f1 \<and> feed_ok f1 \<and>
    (\<forall>q. 0 \<le> q \<and> in_range 32 q \<and> packet_bytes (hist q) \<in> set ds \<longrightarrow> q \<le> fdLastSeqNo f1) \<and>
    (\<exists>ms. heard hist [1..fdLastSeqNo f1] ms \<and>
      foldR (reHandle Env) ms (rwApp (fdWorld f)) = Inr (rwApp (fdWorld f1)))"
  then obtain f1 ms where f1: "out = Receives f1" "feed_ok f1"
      "\<forall>q. 0 \<le> q \<and> in_range 32 q \<and> packet_bytes (hist q) \<in> set ds \<longrightarrow> q \<le> fdLastSeqNo f1"
      "heard hist [1..fdLastSeqNo f1] ms"
      "foldR (WriteDataInFile1 push) ms ?s = Inr (rwApp (fdWorld f1))"
    unfolding assms(7) f by blast
  have n: "in_range 32 (fdLastSeqNo f1)" using f1(2) by (simp add: feed_ok_def)
  from history_records [OF assms(3,9) n f1(4) inv, of push] f1(5)
  have "mapR (\<lambda>rs. push_all push rs \<lparr>sqSize = 0, sqPtrQ = seEmptyQ E\<rparr>)
      (stream_records tbl [] (history_messages hist (fdLastSeqNo f1))) = Inr (g_pcConRevQ (rwApp (fdWorld f1)))"
    by (simp add: first_state_def)
  then obtain rs where "stream_records tbl [] (history_messages hist (fdLastSeqNo f1)) = Inr rs"
      "g_pcConRevQ (rwApp (fdWorld f1)) = push_all push rs \<lparr>sqSize = 0, sqPtrQ = seEmptyQ E\<rparr>"
    by (auto simp: mapR_def split: sum.splits)
  with f1(1,3) n show "\<exists>f1 rs. out = Receives f1 \<and> in_range 32 (fdLastSeqNo f1) \<and>
      (\<forall>q. 0 \<le> q \<and> in_range 32 q \<and> packet_bytes (hist q) \<in> set ds \<longrightarrow> q \<le> fdLastSeqNo f1) \<and>
      stream_records tbl [] (history_messages hist (fdLastSeqNo f1)) = Inr rs \<and>
      g_pcConRevQ (rwApp (fdWorld f1)) = push_all push rs \<lparr>sqSize = 0, sqPtrQ = seEmptyQ E\<rparr>"
    by blast
qed

text \<open>
  From the contract file and a feed that brings only the first and the sixth message of the history:
  the conversion is recovered and its record is the one on the queue.
\<close>

lemma published_history_witness:
  "returns (program (conv_startup conv_file) (replay_env conv_hist) (map (\<lambda>q. packet_bytes (conv_hist q)) [1, 6]))
    (\<lambda>out. \<exists>f1. out = Receives f1 \<and> g_pcConRevQ (rwApp (fdWorld f1)) = \<lparr>sqSize = 1, sqPtrQ = [conv_record]\<rparr>)"
proof -
  let ?E = "conv_startup conv_file" and ?ds = "map (\<lambda>q. packet_bytes (conv_hist q)) [1, 6]"
  obtain f where f: "snd (start_program ?E) = Receives f" using conv_startup_receives by blast
  have cnt: "0 < lnMaxPacketCountInRecovery (read_settings (seIpLen ?E) (seProperty ?E))"
    by (simp add: conv_startup_def sample_startup_def sample_startup_settings)
  have ds: "feed_of conv_hist ?ds" by (rule some_messages) (simp add: in_range_def)
  have h: "reHandle (replay_env conv_hist) = WriteDataInFile1 (list_push 9)"
    by (simp add: replay_env_def sample_program_env_def)
  have tbl: "conv_table = snd (FileDigester (seFile ?E (lszContractFilePath
      (read_settings (seIpLen ?E) (seProperty ?E)))) Map.empty)"
    using conv_file_table by (simp add: conv_startup_def)
  note run = published_history [OF f cnt conv_hist_ok replay_env_archive [OF conv_hist_ok] ds h tbl conv_hist_known]
  show ?thesis
  proof (rule returns_mono [OF run])
    fix out
    assume "\<exists>f1 rs. out = Receives f1 \<and> in_range 32 (fdLastSeqNo f1) \<and>
      (\<forall>q. 0 \<le> q \<and> in_range 32 q \<and> packet_bytes (conv_hist q) \<in> set ?ds \<longrightarrow> q \<le> fdLastSeqNo f1) \<and>
      stream_records conv_table [] (history_messages conv_hist (fdLastSeqNo f1)) = Inr rs \<and>
      g_pcConRevQ (rwApp (fdWorld f1)) = push_all (list_push 9) rs \<lparr>sqSize = 0, sqPtrQ = seEmptyQ ?E\<rparr>"
    then obtain f1 rs where f1: "out = Receives f1" "6 \<le> fdLastSeqNo f1" "in_range 32 (fdLastSeqNo f1)"
        "stream_records conv_table [] (history_messages conv_hist (fdLastSeqNo f1)) = Inr rs"
        "g_pcConRevQ (rwApp (fdWorld f1)) = push_all (list_push 9) rs \<lparr>sqSize = 0, sqPtrQ = seEmptyQ ?E\<rparr>"
      by (auto simp: in_range_def dest!: spec [of _ 6])
    then have "rs = [conv_record]" using conv_records [of "fdLastSeqNo f1"] by simp
    with f1 show "\<exists>f1. out = Receives f1 \<and> g_pcConRevQ (rwApp (fdWorld f1)) = \<lparr>sqSize = 1, sqPtrQ = [conv_record]\<rparr>"
      by (simp add: push_all_def shmQueue1_enqueue_def list_push_def conv_startup_def sample_startup_def wrap32_small Let_def)
  qed
qed

end
